(* ===== verification/LdbPrelude.thy ===== *)
theory LdbPrelude
  imports Main "HOL-Library.Word"
begin

text \<open>
  Shared vocabulary of the development: the machine integer types of the C++ sources as words,
  byte strings as lists of 8-bit words, the collections of rewrite rules the component theories
  extend, and generic facts on lists and words used by more than one component.

  The locale \<open>inv_system\<close> is the interface every state machine of the development is checked
  against: an initial state, a step relation and an invariant that every step keeps. Its lemmas
  carry the invariant over runs, so a component proves one preservation lemma per step and
  nothing else.
\<close>

unbundle bit_operations_syntax

section \<open>Machine types\<close>

type_synonym byte = "8 word"
type_synonym u16 = "16 word"
type_synonym u32 = "32 word"
type_synonym u64 = "64 word"
type_synonym bytes = "byte list"

text \<open>\<open>EpochNumber\<close> of \<^verbatim>\<open>types/definitions.h\<close>.\<close>

type_synonym epoch_number = u32

named_theorems le_simps \<open>little-endian encode and decode\<close>

section \<open>Lists\<close>

lemma nth_append_length_le:
  "length xs \<le> i \<Longrightarrow> (xs @ ys) ! i = ys ! (i - length xs)"
  by (simp add: nth_append)

lemma take_drop_append_mid:
  "take (length ys) (drop (length xs) (xs @ ys @ zs)) = ys"
  by simp

lemma nth_replicate_drop:
  "drop n (replicate m x) = replicate (m - n) x"
  by simp

text \<open>Replacing the bytes \<open>[off, off + length d)\<close> of a file; a write past the end extends the
  file, as \<^verbatim>\<open>pwrite\<close> does, leaving a hole of zero bytes when it starts beyond the end.\<close>

definition patch :: "'a::zero list \<Rightarrow> nat \<Rightarrow> 'a list \<Rightarrow> 'a list" where
  "patch f off d =
     (if d = [] then f
      else take off f @ replicate (off - length f) 0 @ d @ drop (off + length d) f)"

lemma patch_Nil [simp]: "patch f off [] = f"
  by (simp add: patch_def)

lemma length_patch:
  "length (patch f off d) = (if d = [] then length f else max (length f) (off + length d))"
  by (auto simp: patch_def)

lemma take_patch: "n \<le> off \<Longrightarrow> n \<le> length f \<Longrightarrow> take n (patch f off d) = take n f"
  by (auto simp: patch_def min_def)

lemma drop_patch_end:
  "off \<le> length f \<Longrightarrow> drop (off + length d) (patch f off d) = drop (off + length d) f"
  by (auto simp: patch_def)

lemma patch_at_end: "patch f (length f) d = f @ d"
  by (simp add: patch_def)

lemma patch_patch_adjacent:
  "patch (patch f off a) (off + length a) b = patch f off (a @ b)"
proof (cases "a = [] \<or> b = []")
  case False
  then show ?thesis
    by (cases "off \<le> length f") (auto simp: patch_def min_def ac_simps)
qed auto

lemma patch_mid:
  "length d = length b \<Longrightarrow> patch (a @ b @ c) (length a) d = a @ d @ c"
  by (auto simp: patch_def)

section \<open>Words\<close>

lemma word_and_mask_eq_take_bit: "(x :: 'a::len word) AND mask n = take_bit n x"
  by (simp add: take_bit_eq_mask)

lemma word_XOR_cancel_left: "((x :: 'a::len word) XOR y = x XOR z) \<longleftrightarrow> y = z"
  by (metis xor.left_commute xor_self_eq xor.right_neutral)

lemma word_XOR_cancel_right: "((y :: 'a::len word) XOR x = z XOR x) \<longleftrightarrow> y = z"
  by (metis word_XOR_cancel_left xor.commute)

lemma ucast_ucast_up_inject:
  "LENGTH('a::len) \<le> LENGTH('b::len) \<Longrightarrow>
   (ucast (x :: 'a word) :: 'b word) = ucast y \<longleftrightarrow> x = y"
  by (metis ucast_up_ucast_id is_up target_size source_size)

section \<open>State machines\<close>

locale inv_system =
  fixes init :: "'s \<Rightarrow> bool"
    and step :: "'s \<Rightarrow> 's \<Rightarrow> bool"
    and inv :: "'s \<Rightarrow> bool"
  assumes inv_init: "init s \<Longrightarrow> inv s"
    and inv_step: "inv s \<Longrightarrow> step s t \<Longrightarrow> inv t"
begin

lemma inv_run: "step\<^sup>*\<^sup>* s t \<Longrightarrow> inv s \<Longrightarrow> inv t"
  by (induction rule: rtranclp_induct) (auto intro: inv_step)

lemma inv_reachable: "init s \<Longrightarrow> step\<^sup>*\<^sup>* s t \<Longrightarrow> inv t"
  using inv_run inv_init by blast

end

end
