(* ===== verification/LittleEndian.thy ===== *)
theory LittleEndian
  imports LdbPrelude
begin

text \<open>
  The little-endian field codecs of \<^verbatim>\<open>src/recovery/wal.cpp\<close> and
  \<^verbatim>\<open>src/recovery/epoch_scan_checkpoint.cpp\<close>. A C++ pointer into a header is the list of
  the bytes from that position on; a \<^verbatim>\<open>Put\<close> returns the bytes it stores.
\<close>

section \<open>Codecs\<close>

definition PutLe16 :: "u16 \<Rightarrow> bytes" where
  "PutLe16 v = [ucast (v AND 0xff), ucast (drop_bit 8 v AND 0xff)]"

definition PutLe32 :: "u32 \<Rightarrow> bytes" where
  "PutLe32 v =
     [ucast (v AND 0xff), ucast (drop_bit 8 v AND 0xff),
      ucast (drop_bit 16 v AND 0xff), ucast (drop_bit 24 v AND 0xff)]"

definition PutLe64 :: "u64 \<Rightarrow> bytes" where
  "PutLe64 v = map (\<lambda>i. ucast (drop_bit (8 * i) v AND 0xff)) [0..<8]"

definition GetLe16 :: "bytes \<Rightarrow> u16" where
  "GetLe16 b = ucast (b ! 0) OR push_bit 8 (ucast (b ! 1))"

definition GetLe32 :: "bytes \<Rightarrow> u32" where
  "GetLe32 b =
     ucast (b ! 0) OR push_bit 8 (ucast (b ! 1)) OR
     push_bit 16 (ucast (b ! 2)) OR push_bit 24 (ucast (b ! 3))"

definition GetLe64 :: "bytes \<Rightarrow> u64" where
  "GetLe64 b = fold (\<lambda>i v. v OR push_bit (8 * i) (ucast (b ! i))) [0..<8] 0"

section \<open>Round trips\<close>

lemma length_PutLe [simp]:
  "length (PutLe16 v) = 2" "length (PutLe32 w) = 4" "length (PutLe64 x) = 8"
  by (simp_all add: PutLe16_def PutLe32_def PutLe64_def)

lemma ucast_and_ff [simp]: "(ucast ((x :: 'a::len word) AND 0xff) :: byte) = ucast x"
proof -
  have "(0xff :: 'a word) = mask 8"
    by (simp add: mask_eq_exp_minus_1)
  then have "x AND 0xff = take_bit 8 x"
    by (simp only: word_and_mask_eq_take_bit)
  then show ?thesis
    by (simp only:) (rule bit_word_eqI, simp add: bit_simps)
qed

lemma byte_bit_high: "8 \<le> n \<Longrightarrow> \<not> bit (b :: byte) n"
  using bit_imp_le_length [of b n] by auto

lemma byte_bit_less: "bit (b :: byte) n \<Longrightarrow> n < 8"
  by (meson byte_bit_high linorder_not_le)

text \<open>The byte extracted at bit position \<open>k\<close> and put back contributes exactly the bits
  \<open>[k, k + 8)\<close> of the field.\<close>

lemma bit_byte_slice:
  "bit (push_bit k (ucast (ucast (drop_bit k v) :: byte)) :: 'a::len word) n
     \<longleftrightarrow> k \<le> n \<and> n < k + 8 \<and> bit (v :: 'a word) n"
  by (auto simp: bit_simps dest: bit_imp_le_length)

lemma bit_byte_slice0:
  "bit (ucast (ucast v :: byte) :: 'a::len word) n \<longleftrightarrow> n < 8 \<and> bit (v :: 'a word) n"
  using bit_byte_slice [of 0 v n] by simp

lemma GetLe16_PutLe16 [simp, le_simps]: "GetLe16 (PutLe16 v @ rest) = v"
  by (rule bit_word_eqI)
     (auto simp: GetLe16_def PutLe16_def bit_or_iff bit_byte_slice bit_byte_slice0)

lemma GetLe32_PutLe32 [simp, le_simps]: "GetLe32 (PutLe32 v @ rest) = v"
  by (rule bit_word_eqI)
     (auto simp: GetLe32_def PutLe32_def bit_or_iff bit_byte_slice bit_byte_slice0)

lemma upt_8: "[0..<8] = [0, 1, 2, 3, 4, 5, 6, 7]"
  by (simp add: upt_rec)

lemma GetLe64_PutLe64 [simp, le_simps]: "GetLe64 (PutLe64 v @ rest) = v"
  by (rule bit_word_eqI)
     (auto simp: GetLe64_def PutLe64_def upt_8 bit_or_iff bit_byte_slice bit_byte_slice0)

text \<open>Reading a field depends on the bytes of the field only.\<close>

lemma GetLe16_append: "2 \<le> length b \<Longrightarrow> GetLe16 (b @ c) = GetLe16 b"
  by (cases b) (auto simp: GetLe16_def nth_append)

lemma GetLe32_append: "4 \<le> length b \<Longrightarrow> GetLe32 (b @ c) = GetLe32 b"
  by (cases b) (auto simp: GetLe32_def nth_append)

lemma GetLe32_Put_only [simp]: "GetLe32 (PutLe32 v) = v"
  using GetLe32_PutLe32 [of v "[]"] by simp

lemma GetLe32_take: "4 \<le> n \<Longrightarrow> GetLe32 (take n b) = GetLe32 b"
  by (simp add: GetLe32_def)

lemma GetLe16_take: "2 \<le> n \<Longrightarrow> GetLe16 (take n b) = GetLe16 b"
  by (simp add: GetLe16_def)

text \<open>Decoding then encoding gives the bytes back, so a field value determines its bytes.\<close>

lemma PutLe32_GetLe32: "length b = 4 \<Longrightarrow> PutLe32 (GetLe32 b) = b"
proof -
  assume "length b = 4"
  then obtain b0 b1 b2 b3 where b: "b = [b0, b1, b2, b3]"
    by (auto simp: numeral_eq_Suc length_Suc_conv)
  show ?thesis
    unfolding b PutLe32_def GetLe32_def list.inject
    by (simp only: ucast_and_ff) (auto intro!: bit_word_eqI simp: bit_simps byte_bit_high)
qed

lemma PutLe64_GetLe64: "length b = 8 \<Longrightarrow> PutLe64 (GetLe64 b) = b"
proof -
  assume len: "length b = 8"
  have "PutLe64 (GetLe64 b) ! i = b ! i" if "i < 8" for i
  proof (rule bit_word_eqI)
    fix n
    assume "n < LENGTH(8)"
    moreover have "i \<in> {0, 1, 2, 3, 4, 5, 6, 7}"
      using that by auto
    ultimately show "bit (PutLe64 (GetLe64 b) ! i) n \<longleftrightarrow> bit (b ! i) n"
      by (auto simp: PutLe64_def GetLe64_def upt_8 bit_simps byte_bit_high)
  qed
  with len show ?thesis
    by (intro nth_equalityI) auto
qed

lemma PutLe16_GetLe16: "length b = 2 \<Longrightarrow> PutLe16 (GetLe16 b) = b"
proof -
  assume "length b = 2"
  then obtain b0 b1 where b: "b = [b0, b1]"
    by (auto simp: numeral_eq_Suc length_Suc_conv)
  show ?thesis
    unfolding b PutLe16_def GetLe16_def list.inject
    by (simp only: ucast_and_ff) (auto intro!: bit_word_eqI simp: bit_simps byte_bit_high)
qed

lemma PutLe32_inject [simp]: "PutLe32 v = PutLe32 w \<longleftrightarrow> v = w"
  by (metis GetLe32_Put_only)

lemma GetLe32_inject:
  "length a = 4 \<Longrightarrow> length b = 4 \<Longrightarrow> GetLe32 a = GetLe32 b \<longleftrightarrow> a = b"
  by (metis PutLe32_GetLe32)

end
