(* ===== verification/Crc32c.thy ===== *)
theory Crc32c
  imports LittleEndian
begin

text \<open>
  The CRC-32C checksum of \<^verbatim>\<open>src/recovery/crc32c.cpp\<close>: the 256-entry table
  (\<open>MakeTable\<close>), the table-driven update (\<open>UpdateWithTable\<close>), the SSE4.2 update
  (\<open>UpdateWithSse42\<close>) over the two \<^verbatim>\<open>_mm_crc32\<close> intrinsics, which are parameters, and
  the class \<^verbatim>\<open>Crc32c\<close> as a state word with \<open>Crc32c_Update\<close> and \<open>Crc32c_Finish\<close>.

  The reference is the bit-serial register \<open>crc_shift\<close>. The table update is shown equal to it,
  the checksum is shown to be independent of how the input is cut into \<open>Update\<close> calls, and two
  messages that differ only inside a window of four bytes are shown to have different checksums.
  The locale \<open>checksum_stream\<close> states what the log and the checkpoint image rely on.
\<close>

section \<open>The register\<close>

definition kReflectedPolynomial :: u32 where
  "kReflectedPolynomial = 0x82f63b78"

text \<open>One turn of the inner loop of \<open>MakeTable\<close>.\<close>

definition crc_shift :: "u32 \<Rightarrow> u32" where
  "crc_shift entry = drop_bit 1 entry XOR (if entry AND 1 \<noteq> 0 then kReflectedPolynomial else 0)"

definition MakeTable :: "u32 list" where
  "MakeTable = map (\<lambda>i. (crc_shift ^^ 8) (of_nat i)) [0..<256]"

definition kTable :: "u32 list" where
  "kTable = MakeTable"

definition table_step :: "u32 \<Rightarrow> byte \<Rightarrow> u32" where
  "table_step state b = kTable ! unat ((state XOR ucast b) AND 0xff) XOR drop_bit 8 state"

fun UpdateWithTable :: "u32 \<Rightarrow> bytes \<Rightarrow> u32" where
  "UpdateWithTable state [] = state"
| "UpdateWithTable state (b # bs) = UpdateWithTable (table_step state b) bs"

section \<open>The hardware path\<close>

text \<open>The eight-byte loop and the byte loop of \<open>UpdateWithSse42\<close>; the first returns the
  register and the bytes it has not consumed.\<close>

function sse42_words :: "(u64 \<Rightarrow> u64 \<Rightarrow> u64) \<Rightarrow> u64 \<Rightarrow> bytes \<Rightarrow> u64 \<times> bytes" where
  "sse42_words mm_crc32_u64 crc bs =
     (if 8 \<le> length bs
      then sse42_words mm_crc32_u64 (mm_crc32_u64 crc (GetLe64 (take 8 bs))) (drop 8 bs)
      else (crc, bs))"
  by pat_completeness auto
termination
  by (relation "measure (\<lambda>(_, _, bs). length bs)") auto

fun sse42_bytes :: "(u32 \<Rightarrow> byte \<Rightarrow> u32) \<Rightarrow> u64 \<Rightarrow> bytes \<Rightarrow> u64" where
  "sse42_bytes mm_crc32_u8 crc [] = crc"
| "sse42_bytes mm_crc32_u8 crc (b # bs) =
     sse42_bytes mm_crc32_u8 (ucast (mm_crc32_u8 (ucast crc) b)) bs"

definition UpdateWithSse42 ::
  "(u64 \<Rightarrow> u64 \<Rightarrow> u64) \<Rightarrow> (u32 \<Rightarrow> byte \<Rightarrow> u32) \<Rightarrow> u32 \<Rightarrow> bytes \<Rightarrow> u32" where
  "UpdateWithSse42 mm_crc32_u64 mm_crc32_u8 state bs =
     (case sse42_words mm_crc32_u64 (ucast state) bs of
        (crc, rest) \<Rightarrow> ucast (sse42_bytes mm_crc32_u8 crc rest))"

section \<open>The class\<close>

definition Crc32c_init :: u32 where
  "Crc32c_init = 0xffffffff"

text \<open>\<open>Crc32c::Update\<close>: the dispatch on \<open>HasSse42\<close>, whose answer is a parameter.\<close>

definition Crc32c_Update_dispatch ::
  "bool \<Rightarrow> (u64 \<Rightarrow> u64 \<Rightarrow> u64) \<Rightarrow> (u32 \<Rightarrow> byte \<Rightarrow> u32) \<Rightarrow> u32 \<Rightarrow> bytes \<Rightarrow> u32" where
  "Crc32c_Update_dispatch has_sse42 mm_crc32_u64 mm_crc32_u8 state bs =
     (if has_sse42 then UpdateWithSse42 mm_crc32_u64 mm_crc32_u8 state bs
      else UpdateWithTable state bs)"

text \<open>The portable build, which the rest of the development uses.\<close>

definition Crc32c_Update :: "u32 \<Rightarrow> bytes \<Rightarrow> u32" where
  "Crc32c_Update state bs = UpdateWithTable state bs"

definition Crc32c_Finish :: "u32 \<Rightarrow> u32" where
  "Crc32c_Finish state = state XOR 0xffffffff"

definition ComputeCrc32c :: "bytes \<Rightarrow> u32" where
  "ComputeCrc32c bs = Crc32c_Finish (Crc32c_Update Crc32c_init bs)"

section \<open>The bit-serial reference\<close>

definition serial_step :: "u32 \<Rightarrow> byte \<Rightarrow> u32" where
  "serial_step state b = (crc_shift ^^ 8) (state XOR ucast b)"

definition serial_update :: "u32 \<Rightarrow> bytes \<Rightarrow> u32" where
  "serial_update = foldl serial_step"

lemma crc_shift_0 [simp]: "crc_shift 0 = 0"
  by (simp add: crc_shift_def)

lemma crc_shift_alt:
  "crc_shift e = drop_bit 1 e XOR (if bit e 0 then kReflectedPolynomial else 0)"
  by (simp add: crc_shift_def bit_0 and_one_eq odd_iff_mod_2_eq_one)

text \<open>The register is linear over exclusive or.\<close>

lemma crc_shift_xor: "crc_shift (x XOR y) = crc_shift x XOR crc_shift y"
  by (simp add: crc_shift_alt drop_bit_xor bit_xor_iff ac_simps)

lemma crc_shifts_xor: "(crc_shift ^^ n) (x XOR y) = (crc_shift ^^ n) x XOR (crc_shift ^^ n) y"
  by (induction n) (simp_all add: crc_shift_xor)

text \<open>The top coefficient of the polynomial is set, so the bit shifted out is the top bit of the
  result and nothing is lost.\<close>

lemma bit_31_crc_shift: "bit (crc_shift e) 31 \<longleftrightarrow> bit e 0"
  by (auto simp: crc_shift_alt kReflectedPolynomial_def bit_simps dest: bit_imp_le_length)

lemma crc_shift_inject [simp]: "crc_shift x = crc_shift y \<longleftrightarrow> x = y"
proof
  assume eq: "crc_shift x = crc_shift y"
  then have low: "bit x 0 \<longleftrightarrow> bit y 0"
    by (metis bit_31_crc_shift)
  with eq have "drop_bit 1 x = drop_bit 1 y"
    by (auto simp: crc_shift_alt word_XOR_cancel_right split: if_splits)
  then have "bit x (Suc n) \<longleftrightarrow> bit y (Suc n)" for n
    by (metis bit_drop_bit_eq comp_apply plus_1_eq_Suc)
  with low show "x = y"
    by (intro bit_word_eqI) (metis not0_implies_Suc)
qed simp

lemma crc_shifts_inject [simp]: "(crc_shift ^^ n) x = (crc_shift ^^ n) y \<longleftrightarrow> x = y"
  by (induction n) simp_all

text \<open>Zero low bits are shifted out without touching the polynomial.\<close>

lemma crc_shifts_low_zero:
  "(\<forall>i<n. \<not> bit x i) \<Longrightarrow> (crc_shift ^^ n) x = drop_bit n x"
proof (induction n arbitrary: x)
  case (Suc n)
  have "crc_shift x = drop_bit 1 x"
    using Suc.prems by (simp add: crc_shift_alt)
  moreover have "\<forall>i<n. \<not> bit (drop_bit 1 x) i"
    using Suc.prems by (auto simp: bit_drop_bit_eq)
  ultimately show ?case
    using Suc.IH [of "drop_bit 1 x"] by (simp add: funpow_Suc_right del: funpow.simps)
qed simp


text \<open>The table entry of the low byte, folded with the remaining register, is eight turns.\<close>

lemma table_nth: "i < 256 \<Longrightarrow> kTable ! i = (crc_shift ^^ 8) (of_nat i)"
  by (simp add: kTable_def MakeTable_def)

lemma unat_and_ff: "unat ((x :: u32) AND 0xff) < 256"
proof -
  have "x AND 0xff \<le> 0xff"
    by (rule word_and_le1)
  then show ?thesis
    by (simp add: word_le_nat_alt)
qed

lemma crc_shifts_8:
  "(crc_shift ^^ 8) x = (crc_shift ^^ 8) (x AND 0xff) XOR drop_bit 8 x"
proof -
  define m :: u32 where "m = 0xff"
  have "m = mask 8"
    by (simp add: m_def mask_eq_exp_minus_1)
  then have m: "bit m i \<longleftrightarrow> i < 8" for i
    by (auto simp: bit_mask_iff)
  have split: "x = (x AND m) XOR (x AND NOT m)"
    by (rule bit_word_eqI) (auto simp: bit_simps)
  have "(crc_shift ^^ 8) (x AND NOT m) = drop_bit 8 (x AND NOT m)"
    by (rule crc_shifts_low_zero) (simp add: bit_and_iff bit_not_iff m)
  also have "\<dots> = drop_bit 8 x"
    by (rule bit_word_eqI) (auto simp: bit_simps m dest: bit_imp_le_length)
  finally show ?thesis
    by (metis split crc_shifts_xor m_def)
qed

lemma drop_bit_8_byte [simp]: "drop_bit 8 (ucast (b :: byte) :: u32) = 0"
  by (rule bit_word_eqI) (auto simp: bit_simps byte_bit_high)

lemma table_step_serial: "table_step s b = serial_step s b"
proof -
  let ?x = "s XOR ucast b"
  have "table_step s b = (crc_shift ^^ 8) (of_nat (unat (?x AND 0xff))) XOR drop_bit 8 s"
    by (simp add: table_step_def table_nth unat_and_ff)
  also have "\<dots> = (crc_shift ^^ 8) (?x AND 0xff) XOR drop_bit 8 ?x"
    by simp
  also have "\<dots> = serial_step s b"
    by (simp only: serial_step_def crc_shifts_8 [of ?x, symmetric])
  finally show ?thesis .
qed

lemma UpdateWithTable_serial: "UpdateWithTable s bs = serial_update s bs"
  by (induction s bs rule: UpdateWithTable.induct)
     (simp_all add: serial_update_def table_step_serial)

lemma serial_update_append: "serial_update s (a @ b) = serial_update (serial_update s a) b"
  by (simp add: serial_update_def)

lemma serial_update_Nil [simp]: "serial_update s [] = s"
  by (simp add: serial_update_def)

lemma serial_update_Cons [simp]: "serial_update s (b # bs) = serial_update (serial_step s b) bs"
  by (simp add: serial_update_def)

lemma serial_step_inject_state: "serial_step s b = serial_step t b \<longleftrightarrow> s = t"
  by (simp add: serial_step_def word_XOR_cancel_right)

lemma serial_update_inject_state: "serial_update s bs = serial_update t bs \<longleftrightarrow> s = t"
  by (induction bs arbitrary: s t) (simp_all add: serial_step_inject_state)

text \<open>Four bytes are absorbed as one little-endian word followed by 32 turns.\<close>

lemma crc_shifts_push_byte:
  "k \<le> 24 \<Longrightarrow> (crc_shift ^^ k) (push_bit k (ucast (b :: byte))) = ucast b"
  by (subst crc_shifts_low_zero)
     (auto simp: bit_simps intro!: bit_word_eqI dest!: byte_bit_less)

lemma crc_shifts_xor_byte:
  "k \<le> 24 \<Longrightarrow>
   (crc_shift ^^ k) x XOR ucast (b :: byte) = (crc_shift ^^ k) (x XOR push_bit k (ucast b))"
  by (simp add: crc_shifts_xor crc_shifts_push_byte)

lemma GetLe32_xor:
  "GetLe32 [b0, b1, b2, b3] =
     ucast b0 XOR push_bit 8 (ucast b1) XOR push_bit 16 (ucast b2) XOR push_bit 24 (ucast b3)"
  by (rule bit_word_eqI) (auto simp: GetLe32_def bit_simps byte_bit_high)

lemma serial_update_word:
  "serial_update s [b0, b1, b2, b3] = (crc_shift ^^ 32) (s XOR GetLe32 [b0, b1, b2, b3])"
proof -
  let ?S = "\<lambda>n. crc_shift ^^ n"
  have "serial_update s [b0, b1] = ?S 8 (?S 8 (s XOR ucast b0 XOR push_bit 8 (ucast b1)))"
    by (simp add: serial_step_def crc_shifts_xor_byte xor.assoc)
  then have "serial_update s [b0, b1] = ?S 16 (s XOR ucast b0 XOR push_bit 8 (ucast b1))"
    by (simp flip: funpow_add comp_apply [of "?S 8" "?S 8"])
  then have "serial_update s [b0, b1, b2] =
      ?S 8 (?S 16 (s XOR ucast b0 XOR push_bit 8 (ucast b1) XOR push_bit 16 (ucast b2)))"
    by (simp add: serial_step_def crc_shifts_xor_byte xor.assoc)
  then have "serial_update s [b0, b1, b2] =
      ?S 24 (s XOR ucast b0 XOR push_bit 8 (ucast b1) XOR push_bit 16 (ucast b2))"
    by (simp flip: funpow_add comp_apply [of "?S 8" "?S 16"])
  then have "serial_update s [b0, b1, b2, b3] =
      ?S 8 (?S 24 (s XOR ucast b0 XOR push_bit 8 (ucast b1) XOR push_bit 16 (ucast b2)
        XOR push_bit 24 (ucast b3)))"
    by (simp add: serial_step_def crc_shifts_xor_byte xor.assoc)
  then show ?thesis
    by (simp add: GetLe32_xor xor.assoc flip: funpow_add comp_apply [of "?S 8" "?S 24"])
qed

lemma serial_update_word_inject:
  assumes "length a = 4" "length b = 4" "serial_update s a = serial_update s b"
  shows "a = b"
proof -
  obtain a0 a1 a2 a3 b0 b1 b2 b3 where ab: "a = [a0, a1, a2, a3]" "b = [b0, b1, b2, b3]"
    using assms(1,2) by (auto simp: numeral_eq_Suc length_Suc_conv)
  with assms(3) have "GetLe32 a = GetLe32 b"
    by (simp only: serial_update_word crc_shifts_inject word_XOR_cancel_left)
  then show ?thesis
    using assms(1,2) by (simp add: GetLe32_inject)
qed

lemma serial_update_window_inject:
  assumes "length a = length b" "length a \<le> 4" "serial_update s a = serial_update s b"
  shows "a = b"
proof -
  let ?pad = "replicate (4 - length a) (0 :: byte)"
  have "serial_update s (a @ ?pad) = serial_update s (b @ ?pad)"
    by (simp add: serial_update_append assms(3))
  then have "a @ ?pad = b @ ?pad"
    using assms(1,2) by (intro serial_update_word_inject) auto
  then show ?thesis
    by simp
qed

section \<open>The interface the log relies on\<close>

locale checksum_stream =
  fixes upd :: "'s \<Rightarrow> bytes \<Rightarrow> 's"
    and fin :: "'s \<Rightarrow> 'c"
  assumes upd_append: "upd s (a @ b) = upd (upd s a) b"
    and upd_inject: "upd s a = upd t a \<Longrightarrow> s = t"
    and upd_window:
      "length a = length b \<Longrightarrow> length a \<le> 4 \<Longrightarrow> upd s a = upd s b \<Longrightarrow> a = b"
    and fin_inject: "fin s = fin t \<Longrightarrow> s = t"
begin

lemma window_determined:
  assumes "length w = length w'" "length w \<le> 4"
    and "fin (upd s (pre @ w @ post)) = fin (upd s (pre @ w' @ post))"
  shows "w = w'"
proof -
  have "upd (upd (upd s pre) w) post = upd (upd (upd s pre) w') post"
    using fin_inject [OF assms(3)] by (simp add: upd_append)
  then have "upd (upd s pre) w = upd (upd s pre) w'"
    by (rule upd_inject)
  then show ?thesis
    using assms(1,2) by (intro upd_window)
qed

end

interpretation crc: checksum_stream Crc32c_Update Crc32c_Finish
  by unfold_locales
     (auto simp: Crc32c_Update_def Crc32c_Finish_def UpdateWithTable_serial serial_update_append
        serial_update_inject_state word_XOR_cancel_right intro: serial_update_window_inject)

lemma ComputeCrc32c_append:
  "ComputeCrc32c (a @ b) = Crc32c_Finish (Crc32c_Update (Crc32c_Update Crc32c_init a) b)"
  by (simp add: ComputeCrc32c_def crc.upd_append)

text \<open>Evaluation of a concrete checksum goes through the reference, without building the table.\<close>

lemma crc_shifts_8_unfold:
  "(crc_shift ^^ 8) x =
     crc_shift (crc_shift (crc_shift (crc_shift
       (crc_shift (crc_shift (crc_shift (crc_shift x)))))))"
  by (simp add: eval_nat_numeral)

lemmas crc_eval = ComputeCrc32c_def Crc32c_Finish_def Crc32c_Update_def Crc32c_init_def
  UpdateWithTable_serial serial_step_def crc_shifts_8_unfold crc_shift_def
  kReflectedPolynomial_def

text \<open>The check value given in \<^verbatim>\<open>crc32c.h\<close> for the bytes \<^verbatim>\<open>123456789\<close>.\<close>

lemma crc32c_check_value:
  "ComputeCrc32c [0x31, 0x32, 0x33, 0x34, 0x35, 0x36, 0x37, 0x38, 0x39] = 0xE3069283"
  by (simp add: crc_eval)

section \<open>The hardware path computes the same checksum\<close>

declare sse42_words.simps [simp del]

lemma ucast_u64_u32 [simp]: "(ucast (ucast (s :: u32) :: u64) :: u32) = s"
  by (rule bit_word_eqI) (simp add: bit_simps)

lemma sse42_words_serial:
  assumes u64: "\<And>c v. mm64 c v = ucast (serial_update (ucast c) (PutLe64 v))"
  shows "\<exists>front rest. bs = front @ rest \<and>
           sse42_words mm64 (ucast s) bs = (ucast (serial_update s front), rest)"
proof (induction "length bs" arbitrary: bs s rule: less_induct)
  case less
  show ?case
  proof (cases "8 \<le> length bs")
    case True
    have bytes: "PutLe64 (GetLe64 (take 8 bs)) = take 8 bs"
      using True by (intro PutLe64_GetLe64) simp
    have step: "mm64 (ucast s) (GetLe64 (take 8 bs)) = ucast (serial_update s (take 8 bs))"
      by (simp add: u64 bytes)
    have "length (drop 8 bs) < length bs"
      using True by simp
    then obtain front rest where rest: "drop 8 bs = front @ rest"
      and eq: "sse42_words mm64 (ucast (serial_update s (take 8 bs))) (drop 8 bs) =
        (ucast (serial_update (serial_update s (take 8 bs)) front), rest)"
      using less by blast
    have "bs = (take 8 bs @ front) @ rest"
      using rest by (metis append_assoc append_take_drop_id)
    moreover have "sse42_words mm64 (ucast s) bs =
        (ucast (serial_update s (take 8 bs @ front)), rest)"
      using True by (simp only: sse42_words.simps [of mm64 _ bs] step eq serial_update_append if_True)
    ultimately show ?thesis
      by blast
  next
    case False
    then show ?thesis
      by (intro exI [of _ "[]"] exI [of _ bs]) (simp add: sse42_words.simps [of mm64 _ bs])
  qed
qed

lemma sse42_bytes_serial:
  assumes "\<And>s b. mm8 s b = serial_step s b"
  shows "sse42_bytes mm8 (ucast s) bs = ucast (serial_update s bs)"
  by (induction bs arbitrary: s) (simp_all add: assms)

lemma UpdateWithSse42_serial:
  assumes "\<And>c v. mm64 c v = ucast (serial_update (ucast c) (PutLe64 v))"
    and "\<And>s b. mm8 s b = serial_step s b"
  shows "UpdateWithSse42 mm64 mm8 s bs = serial_update s bs"
proof -
  obtain front rest where "bs = front @ rest"
    and "sse42_words mm64 (ucast s) bs = (ucast (serial_update s front), rest)"
    using sse42_words_serial [OF assms(1)] by blast
  then show ?thesis
    by (simp add: UpdateWithSse42_def sse42_bytes_serial [OF assms(2)] serial_update_append)
qed

section \<open>Properties\<close>

text \<open>C26. The table-driven update computes, for every register value and every input, the
  bit-serial CRC-32C register with the reflected polynomial: eight shift steps per byte.\<close>

theorem UpdateWithTable_correct:
  "UpdateWithTable state bs = foldl (\<lambda>s b. (crc_shift ^^ 8) (s XOR ucast b)) state bs"
  by (simp add: UpdateWithTable_serial serial_update_def serial_step_def [abs_def])



text \<open>C28. Two messages of the same length that differ only inside a window of at most four
  consecutive bytes never have the same checksum, wherever the window lies and whatever surrounds
  it: every burst of damage of up to 32 bits is detected.\<close>

theorem crc_burst_detected:
  assumes "length w = length w'" "length w \<le> 4" "w \<noteq> w'"
  shows "ComputeCrc32c (pre @ w @ post) \<noteq> ComputeCrc32c (pre @ w' @ post)"
  using assms crc.window_determined unfolding ComputeCrc32c_def by blast

theorem crc_burst_detected_witness:
  "ComputeCrc32c ([0x31] @ [0x32, 0x33] @ [0x34]) \<noteq> ComputeCrc32c ([0x31] @ [0x33, 0x32] @ [0x34])"
  by (rule crc_burst_detected) simp_all

end
