(* ===== verification/TransactionIds.thy ===== *)
theory TransactionIds
  imports LdbPrelude
begin

text \<open>
  \<^verbatim>\<open>src/types/transaction_id.hpp\<close> and \<^verbatim>\<open>src/stateless/packed_transaction_id.hpp\<close>: transaction
  identifiers, their order, and their packed form, the opaque version token of the stateless
  interface. The order of the source is shown to be a linear order and made the type's own, so that
  the newest-version arguments of recovery use the library's \<open>max\<close>.
\<close>

section \<open>Identifiers\<close>

datatype TransactionId = TransactionId (tid_epoch: u32) (tid_tid: u32)

definition TransactionId_default :: TransactionId where
  "TransactionId_default = TransactionId 0 0"

text \<open>The converting constructor. Its mask is \<open>~1llu >> 32\<close>: complement first, then shift.\<close>

definition TransactionId_of_u64 :: "u64 \<Rightarrow> TransactionId" where
  "TransactionId_of_u64 n =
     TransactionId (ucast (drop_bit 32 n)) (ucast (n AND drop_bit 32 (NOT 1)))"

definition TransactionId_eq :: "TransactionId \<Rightarrow> TransactionId \<Rightarrow> bool" where
  "TransactionId_eq l r = (tid_epoch l = tid_epoch r \<and> tid_tid l = tid_tid r)"

definition TransactionId_less :: "TransactionId \<Rightarrow> TransactionId \<Rightarrow> bool" where
  "TransactionId_less l r =
     (if tid_epoch l = tid_epoch r then tid_tid l < tid_tid r else tid_epoch l < tid_epoch r)"

definition IsEmpty :: "TransactionId \<Rightarrow> bool" where
  "IsEmpty t = (tid_epoch t = 0 \<and> tid_tid t = 0)"

section \<open>Packing\<close>

definition PackTransactionId :: "TransactionId \<Rightarrow> u64" where
  "PackTransactionId t = push_bit 32 (ucast (tid_epoch t)) OR ucast (tid_tid t)"

definition UnpackTransactionId :: "u64 \<Rightarrow> TransactionId" where
  "UnpackTransactionId p = TransactionId (ucast (drop_bit 32 p)) (ucast (p AND 0xffffffff))"

section \<open>The order\<close>

instantiation TransactionId :: linorder
begin

definition less_TransactionId :: "TransactionId \<Rightarrow> TransactionId \<Rightarrow> bool" where
  "less_TransactionId = TransactionId_less"

definition less_eq_TransactionId :: "TransactionId \<Rightarrow> TransactionId \<Rightarrow> bool" where
  "less_eq_TransactionId l r = (TransactionId_less l r \<or> TransactionId_eq l r)"

instance
  by standard
    (auto simp: less_TransactionId_def less_eq_TransactionId_def TransactionId_less_def
      TransactionId_eq_def TransactionId.expand split: if_splits)

end

lemma TransactionId_eq_iff: "TransactionId_eq l r \<longleftrightarrow> l = r"
  by (auto simp: TransactionId_eq_def TransactionId.expand)

lemma TransactionId_less_iff: "TransactionId_less l r \<longleftrightarrow> l < r"
  by (simp add: less_TransactionId_def)

lemma IsEmpty_iff: "IsEmpty t \<longleftrightarrow> t = TransactionId_default"
  by (cases t) (simp add: IsEmpty_def TransactionId_default_def)

section \<open>The packed form\<close>

lemma and_low32: "(x :: u64) AND 0xffffffff = take_bit 32 x"
proof -
  have "(0xffffffff :: u64) = mask 32" by (simp add: mask_eq_exp_minus_1)
  then show ?thesis by (simp only: word_and_mask_eq_take_bit)
qed

lemma ucast_low32: "(ucast ((x :: u64) AND 0xffffffff) :: u32) = ucast x"
  unfolding and_low32 by (rule bit_word_eqI) (auto simp: bit_simps)

lemma Unpack_Pack: "UnpackTransactionId (PackTransactionId t) = t"
proof (cases t)
  case (TransactionId e i)
  have lt: "n < 32" if "bit (x :: u32) n" for x n
    using that bit_imp_le_length by fastforce
  have "(ucast (drop_bit 32 (push_bit 32 (ucast e) OR ucast i :: u64)) :: u32) = e"
    by (rule bit_word_eqI) (auto simp: bit_simps dest: lt)
  moreover have "(ucast (push_bit 32 (ucast e) OR ucast i :: u64) :: u32) = i"
    by (rule bit_word_eqI) (auto simp: bit_simps)
  ultimately show ?thesis
    using TransactionId by (simp add: UnpackTransactionId_def PackTransactionId_def ucast_low32)
qed

lemma Pack_Unpack: "PackTransactionId (UnpackTransactionId p) = p"
  unfolding PackTransactionId_def UnpackTransactionId_def TransactionId.sel ucast_low32
proof (rule bit_word_eqI)
  fix n assume "n < LENGTH(64)"
  then show "bit (push_bit 32 (ucast (ucast (drop_bit 32 p) :: u32)) OR ucast (ucast p :: u32) :: u64) n
    = bit p n"
    by (cases "n < 32") (auto simp: bit_simps)
qed

lemma unat_lt_32: "unat (x :: u32) < 2 ^ 32"
  using unsigned_less [of x, where ?'a = nat] by simp

lemma unat_ucast_32_64: "unat (ucast (x :: u32) :: u64) = unat x"
  using unat_lt_32 [of x] by (simp add: unsigned_ucast_eq take_bit_nat_eq_self_iff)

lemma unat_PackTransactionId:
  "unat (PackTransactionId t) = unat (tid_epoch t) * 2 ^ 32 + unat (tid_tid t)"
proof -
  have lt: "n < 32" if "bit (x :: u32) n" for x n
    using that bit_imp_le_length by fastforce
  have "PackTransactionId t = push_bit 32 (ucast (tid_epoch t)) + ucast (tid_tid t)"
    unfolding PackTransactionId_def
    by (rule disjunctive_add [symmetric]) (auto simp: bit_simps dest: lt)
  moreover have "unat (push_bit 32 (ucast (tid_epoch t) :: u64)) = unat (tid_epoch t) * 2 ^ 32"
    using unat_lt_32 [of "tid_epoch t"]
    by (simp add: push_bit_eq_mult unat_mult_lem [THEN iffD1] unat_ucast_32_64)
  ultimately show ?thesis
    using unat_lt_32 [of "tid_epoch t"] unat_lt_32 [of "tid_tid t"]
    by (simp add: unat_add_lem [THEN iffD1] unat_ucast_32_64)
qed

text \<open>C25. The packed version token is faithful: unpacking inverts packing in both directions, the
  numeric order of tokens is the order of identifiers (epoch first), and the converting constructor
  of \<open>TransactionId\<close> agrees with the unpacking.\<close>

theorem packed_tid_faithful:
  "UnpackTransactionId (PackTransactionId t) = t \<and> PackTransactionId (UnpackTransactionId p) = p
   \<and> (PackTransactionId s < PackTransactionId t) = TransactionId_less s t
   \<and> TransactionId_of_u64 p = UnpackTransactionId p"
proof -
  have "(PackTransactionId s < PackTransactionId t) = TransactionId_less s t"
    using unat_lt_32 [of "tid_tid s"] unat_lt_32 [of "tid_tid t"]
    by (auto simp: word_less_nat_alt unat_PackTransactionId TransactionId_less_def
        word_unat_eq_iff)
  moreover have "drop_bit 32 (NOT 1) = (0xffffffff :: u64)"
    by (simp add: drop_bit_eq_div)
  then have "TransactionId_of_u64 p = UnpackTransactionId p"
    by (simp add: TransactionId_of_u64_def UnpackTransactionId_def)
  ultimately show ?thesis
    by (simp add: Unpack_Pack Pack_Unpack)
qed

end
