(* ===== verification/LogRecords.thy ===== *)
theory LogRecords
  imports TransactionIds
begin

text \<open>
  \<^verbatim>\<open>src/recovery/log_record.h\<close> and \<open>SecondaryIndexOp\<close> of \<^verbatim>\<open>src/types/definitions.h\<close>: what
  the log persists. A \<open>std::string\<close> is the list of its bytes.
\<close>

datatype SecondaryIndexOp = OpNone | OpAdd | OpRemove | OpFull

definition SecondaryIndexOp_code :: "SecondaryIndexOp \<Rightarrow> byte" where
  "SecondaryIndexOp_code op = (case op of OpNone \<Rightarrow> 0 | OpAdd \<Rightarrow> 1 | OpRemove \<Rightarrow> 2 | OpFull \<Rightarrow> 3)"

record KeyValuePair =
  kv_key :: bytes
  kv_buffer :: bytes
  kv_tid :: TransactionId
  kv_table_name :: bytes
  kv_index_name :: bytes
  kv_index_type :: u32
  kv_primary_keys :: "bytes list"
  kv_secondary_op :: byte
  kv_secondary_primary_key :: bytes

record LogRecord =
  lr_epoch :: epoch_number
  lr_key_value_pairs :: "KeyValuePair list"

type_synonym LogRecords = "LogRecord list"

lemma SecondaryIndexOp_code_inject [simp]:
  "SecondaryIndexOp_code a = SecondaryIndexOp_code b \<longleftrightarrow> a = b"
  by (cases a; cases b) (simp_all add: SecondaryIndexOp_code_def)

end
