(* ===== verification/WalIo.thy ===== *)
theory WalIo
  imports LdbPrelude
begin

text \<open>
  The system calls of the log (\<open>WalIo\<close> of \<^verbatim>\<open>src/recovery/wal.h\<close>) and the transfer loops of
  \<^verbatim>\<open>src/recovery/wal.cpp\<close> over them.

  A file is the list of its bytes. What the calls answer is a finite script per call: each entry is
  the number of bytes the next call would transfer, or the errno it fails with, and an exhausted
  script answers in full. A loop that retries \<open>EINTR\<close> therefore always returns: a system that
  answers \<open>EINTR\<close> for ever is the one behaviour left out.
\<close>

section \<open>Outcomes of system calls\<close>

datatype errno = EINTR | EIO | EINVAL | EFBIG | EOVERFLOW | Errno nat

datatype io_outcome = Transferred nat | FailedWith errno

type_synonym io_script = "io_outcome list"

record wal_io =
  io_pwrite :: io_script
  io_fdatasync :: io_script
  io_initialise_pwrite :: io_script
  io_pread :: io_script
  io_fsync :: io_script
  io_fstat :: io_script

text \<open>What a call that could transfer \<open>n\<close> bytes answers, and the rest of the script.\<close>

fun next_outcome :: "io_script \<Rightarrow> nat \<Rightarrow> io_outcome \<times> io_script" where
  "next_outcome [] n = (Transferred n, [])"
| "next_outcome (Transferred k # s) n = (Transferred (min k n), s)"
| "next_outcome (FailedWith e # s) n = (FailedWith e, s)"

lemma next_outcome_bounds:
  "next_outcome s n = (Transferred k, s') \<Longrightarrow> k \<le> n \<and> length s' \<le> length s"
  "next_outcome s n = (FailedWith e, s') \<Longrightarrow> length s' < length s"
  by (cases "(s, n)" rule: next_outcome.cases; auto)+

section \<open>Transfer loops\<close>

definition kSsizeMax :: nat where
  "kSsizeMax = 2 ^ 63 - 1"

definition kChunkSize :: nat where
  "kChunkSize = 1048576"

text \<open>The retry loop around \<open>pwrite\<close>, handing at most \<open>limit\<close> bytes to one call: the error, if
  any, the file, and the rest of the script.\<close>

function pwrite_loop ::
  "nat \<Rightarrow> io_script \<Rightarrow> bytes \<Rightarrow> bytes \<Rightarrow> nat \<Rightarrow> errno option \<times> bytes \<times> io_script" where
  "pwrite_loop limit s f data off =
     (if data = [] then (None, f, s)
      else case next_outcome s (min (length data) limit) of
             (Transferred written, s') \<Rightarrow>
               if written > 0
               then pwrite_loop limit s' (patch f off (take written data)) (drop written data)
                      (off + written)
               else (Some EIO, f, s')
           | (FailedWith e, s') \<Rightarrow>
               if e = EINTR then pwrite_loop limit s' f data off else (Some e, f, s'))"
  by pat_completeness auto
termination
proof (relation "measure (\<lambda>(_, s, _, data, _). length s + length data)", goal_cases)
  case (2 limit s f data off x s' written)
  then have "length s' \<le> length s" using next_outcome_bounds(1) by (metis)
  then show ?case using 2 by (cases data) auto
next
  case (3 limit s f data off x s' e)
  then have "length s' < length s" using next_outcome_bounds(2) by (metis)
  then show ?case by simp
qed simp

definition WriteAllAt ::
  "io_script \<Rightarrow> bytes \<Rightarrow> bytes \<Rightarrow> nat \<Rightarrow> errno option \<times> bytes \<times> io_script" where
  "WriteAllAt = pwrite_loop kSsizeMax"

text \<open>\<open>PreadAll\<close>: a read at or past the end of the file transfers nothing, which is an error.\<close>

function PreadAll :: "io_script \<Rightarrow> bytes \<Rightarrow> nat \<Rightarrow> nat \<Rightarrow> (errno + bytes) \<times> io_script" where
  "PreadAll s f sz off =
     (if sz = 0 then (Inr [], s)
      else case next_outcome s (min sz (length f - off)) of
             (Transferred got, s') \<Rightarrow>
               if got > 0
               then (case PreadAll s' f (sz - got) (off + got) of
                       (Inl e, s'') \<Rightarrow> (Inl e, s'')
                     | (Inr rest, s'') \<Rightarrow> (Inr (take got (drop off f) @ rest), s''))
               else (Inl EIO, s')
           | (FailedWith e, s') \<Rightarrow>
               if e = EINTR then PreadAll s' f sz off else (Inl e, s'))"
  by pat_completeness auto
termination
proof (relation "measure (\<lambda>(s, _, sz, _). length s + sz)", goal_cases)
  case (2 s f sz off x s' got)
  then have "length s' \<le> length s" using next_outcome_bounds(1) by (metis)
  then show ?case using 2 by simp
next
  case (3 s f sz off x s' e)
  then have "length s' < length s" using next_outcome_bounds(2) by (metis)
  then show ?case by simp
qed simp

text \<open>The retry loop around \<open>fsync\<close>, and the same loop around \<open>fdatasync\<close> in \<open>AppendGroup\<close>.\<close>

fun FsyncRetryingOnInterrupt :: "io_script \<Rightarrow> errno option \<times> io_script" where
  "FsyncRetryingOnInterrupt [] = (None, [])"
| "FsyncRetryingOnInterrupt (Transferred _ # s) = (None, s)"
| "FsyncRetryingOnInterrupt (FailedWith e # s) =
     (if e = EINTR then FsyncRetryingOnInterrupt s else (Some e, s))"

text \<open>The chunk loop of \<open>WriteZeroesAndSync\<close>. Its inner loop is the \<open>pwrite\<close> loop on a chunk of
  zeroes, which never exceeds \<open>kChunkSize\<close>.\<close>

function zero_chunks ::
  "io_script \<Rightarrow> bytes \<Rightarrow> nat \<Rightarrow> nat \<Rightarrow> errno option \<times> bytes \<times> io_script" where
  "zero_chunks s f off to =
     (if off < to
      then let sz = min kChunkSize (to - off)
           in case pwrite_loop kChunkSize s f (replicate sz 0) off of
                (Some e, f', s') \<Rightarrow> (Some e, f', s')
              | (None, f', s') \<Rightarrow> zero_chunks s' f' (off + sz) to
      else (None, f, s))"
  by pat_completeness auto
termination
  by (relation "measure (\<lambda>(_, _, off, to). to - off)") (auto simp: kChunkSize_def)

definition WriteZeroesAndSync ::
  "wal_io \<Rightarrow> bytes \<Rightarrow> nat \<Rightarrow> nat \<Rightarrow> errno option \<times> bytes \<times> wal_io" where
  "WriteZeroesAndSync io f from to =
     (if to \<le> from then (None, f, io)
      else case zero_chunks (io_initialise_pwrite io) f from to of
             (Some e, f', s) \<Rightarrow> (Some e, f', io\<lparr>io_initialise_pwrite := s\<rparr>)
           | (None, f', s) \<Rightarrow>
               (case FsyncRetryingOnInterrupt (io_fsync io) of
                  (r, s') \<Rightarrow> (r, f', io\<lparr>io_initialise_pwrite := s, io_fsync := s'\<rparr>)))"

declare pwrite_loop.simps [simp del] PreadAll.simps [simp del] zero_chunks.simps [simp del]

section \<open>What the loops do\<close>

lemma pwrite_loop_effect:
  assumes "pwrite_loop limit s f data off = (r, f', s')"
  shows "\<exists>k\<le>length data. f' = patch f off (take k data) \<and> (r = None \<longrightarrow> k = length data)"
  using assms
proof (induction limit s f data off arbitrary: r f' s' rule: pwrite_loop.induct)
  case (1 limit s f data off)
  show ?case
  proof (cases "data = []")
    case True
    then show ?thesis using 1 by (simp add: pwrite_loop.simps)
  next
    case False
    obtain out s1 where out: "next_outcome s (min (length data) limit) = (out, s1)"
      by force
    show ?thesis
    proof (cases out)
      case (FailedWith e)
      then show ?thesis
        using 1(2) [OF False out [symmetric] FailedWith] 1(3) False out
        by (auto simp: pwrite_loop.simps [of limit s] split: if_splits intro!: exI [of _ 0])
    next
      case (Transferred n)
      show ?thesis
      proof (cases "n > 0")
        case False
        then show ?thesis
          using 1(3) \<open>data \<noteq> []\<close> out Transferred
          by (auto simp: pwrite_loop.simps [of limit s] intro!: exI [of _ 0])
      next
        case True
        have n: "n \<le> length data"
          using next_outcome_bounds(1) out Transferred by fastforce
        let ?g = "patch f off (take n data)"
        have "pwrite_loop limit s1 ?g (drop n data) (off + n) = (r, f', s')"
          using 1(3) False out Transferred True by (simp add: pwrite_loop.simps [of limit s])
        then obtain k where k: "k \<le> length (drop n data)"
          "f' = patch ?g (off + n) (take k (drop n data))" "r = None \<longrightarrow> k = length (drop n data)"
          using 1(1) [OF False out [symmetric] Transferred True] by blast
        have "f' = patch f off (take (n + k) data)"
          using patch_patch_adjacent [of f off "take n data" "take k (drop n data)"] n k(2)
          by (simp add: take_add)
        then show ?thesis using k n by (intro exI [of _ "n + k"]) auto
      qed
    qed
  qed
qed

lemma pwrite_loop_clean:
  "0 < limit \<Longrightarrow> pwrite_loop limit [] f data off = (None, patch f off data, [])"
proof (induction "length data" arbitrary: f data off rule: less_induct)
  case less
  show ?case
  proof (cases "data = []")
    case False
    let ?n = "min (length data) limit"
    have n: "0 < ?n" "?n \<le> length data" using False less.prems by auto
    have "pwrite_loop limit [] (patch f off (take ?n data)) (drop ?n data) (off + ?n)
        = (None, patch (patch f off (take ?n data)) (off + ?n) (drop ?n data), [])"
      using n less.prems by (intro less.hyps) auto
    moreover have "patch (patch f off (take ?n data)) (off + ?n) (drop ?n data) = patch f off data"
      using patch_patch_adjacent [of f off "take ?n data" "drop ?n data"] n
      by (simp add: min_def split: if_splits)
    ultimately show ?thesis
      using False n by (subst pwrite_loop.simps) simp
  qed (simp add: pwrite_loop.simps)
qed

lemma PreadAll_0: "PreadAll s f 0 off = (Inr [], s)"
  by (simp add: PreadAll.simps)

lemma PreadAll_result:
  assumes "PreadAll s f sz off = (Inr bs, s')"
  shows "bs = take sz (drop off f) \<and> length bs = sz"
  using assms
proof (induction s f sz off arbitrary: bs s' rule: PreadAll.induct)
  case (1 s f sz off)
  show ?case
  proof (cases "sz = 0")
    case True
    then show ?thesis using 1(3) by (simp add: PreadAll_0)
  next
    case False
    obtain out s1 where out: "next_outcome s (min sz (length f - off)) = (out, s1)"
      by force
    show ?thesis
    proof (cases out)
      case (FailedWith e)
      have "PreadAll s f sz off = (if e = EINTR then PreadAll s1 f sz off else (Inl e, s1))"
        by (subst PreadAll.simps) (simp add: False out FailedWith)
      then have "e = EINTR" "PreadAll s1 f sz off = (Inr bs, s')"
        using 1(3) by (auto split: if_splits)
      then show ?thesis
        using 1(2) [OF False out [symmetric] FailedWith] by blast
    next
      case (Transferred n)
      have n: "n \<le> sz" "n \<le> length f - off"
        using next_outcome_bounds(1) [OF out [unfolded Transferred]] by simp_all
      have eq: "PreadAll s f sz off =
          (if n > 0
           then (case PreadAll s1 f (sz - n) (off + n) of
                   (Inl e, s'') \<Rightarrow> (Inl e, s'')
                 | (Inr rest, s'') \<Rightarrow> (Inr (take n (drop off f) @ rest), s''))
           else (Inl EIO, s1))"
        by (subst PreadAll.simps) (simp add: False out Transferred)
      then have pos: "n > 0" using 1(3) by (simp split: if_splits)
      obtain rest s2 where rest: "PreadAll s1 f (sz - n) (off + n) = (Inr rest, s2)"
          and bs: "bs = take n (drop off f) @ rest"
        using 1(3) eq pos by (simp split: prod.splits sum.splits)
      have r: "rest = take (sz - n) (drop (off + n) f)" "length rest = sz - n"
        using 1(1) [OF False out [symmetric] Transferred pos rest] by blast+
      have "take sz (drop off f) = take n (drop off f) @ take (sz - n) (drop (off + n) f)"
        using take_add [of n "sz - n" "drop off f"] n by (simp add: add.commute)
      then have "bs = take sz (drop off f)" by (simp only: bs r(1))
      moreover have "length bs = sz" using bs r(2) n by simp
      ultimately show ?thesis by blast
    qed
  qed
qed

lemma PreadAll_clean:
  "off + sz \<le> length f \<Longrightarrow> PreadAll [] f sz off = (Inr (take sz (drop off f)), [])"
proof -
  assume "off + sz \<le> length f"
  then have "min sz (length f - off) = sz" by simp
  then show ?thesis
    by (subst PreadAll.simps) (simp add: PreadAll_0)
qed

lemma PreadAll_past_end: "length f < off + sz \<Longrightarrow> 0 < sz \<Longrightarrow> \<exists>e s'. PreadAll s f sz off = (Inl e, s')"
proof -
  assume a: "length f < off + sz" "0 < sz"
  obtain r s' where r: "PreadAll s f sz off = (r, s')" by force
  then show ?thesis
    using a PreadAll_result [of s f sz off _ s'] by (cases r) (auto simp: min_def)
qed

lemma zero_chunks_effect:
  assumes "zero_chunks s f off to = (r, f', s')"
  shows "\<exists>k\<le>to - off. f' = patch f off (replicate k 0) \<and> (r = None \<longrightarrow> k = to - off)"
  using assms
proof (induction s f off to arbitrary: r f' s' rule: zero_chunks.induct)
  case (1 s f off to)
  show ?case
  proof (cases "off < to")
    case False
    then show ?thesis using 1 by (auto simp: zero_chunks.simps)
  next
    case True
    define sz where "sz = min kChunkSize (to - off)"
    have sz: "sz \<le> to - off" by (simp add: sz_def)
    obtain r1 f1 s1 where w: "pwrite_loop kChunkSize s f (replicate sz 0) off = (r1, f1, s1)"
      by (metis prod_cases3)
    obtain k where k: "k \<le> sz" "f1 = patch f off (replicate k 0)" "r1 = None \<longrightarrow> k = sz"
      using pwrite_loop_effect [OF w] by (auto simp: min_def split: if_splits)
    show ?thesis
    proof (cases r1)
      case (Some e)
      then show ?thesis
        using 1(2) True w k sz
        by (auto simp: zero_chunks.simps [of s] sz_def [symmetric] intro!: exI [of _ k])
    next
      case None
      then have z: "zero_chunks s1 f1 (off + sz) to = (r, f', s')"
        using 1(2) True w by (simp add: zero_chunks.simps [of s] sz_def [symmetric])
      have f1: "f1 = patch f off (replicate sz 0)" using k None by simp
      obtain j where j: "j \<le> to - (off + sz)" "f' = patch f1 (off + sz) (replicate j 0)"
          "r = None \<longrightarrow> j = to - (off + sz)"
        using 1(1) [OF True sz_def w [symmetric] None refl z] by blast
      have "f' = patch f off (replicate (sz + j) 0)"
        using patch_patch_adjacent [of f off "replicate sz 0" "replicate j 0"] j(2) f1
        by (simp add: replicate_add)
      then show ?thesis using j sz by (intro exI [of _ "sz + j"]) auto
    qed
  qed
qed

lemma zero_chunks_clean:
  "zero_chunks [] f off to = (None, patch f off (replicate (to - off) 0), [])"
proof (induction "to - off" arbitrary: f off rule: less_induct)
  case less
  show ?case
  proof (cases "off < to")
    case True
    define sz where "sz = min kChunkSize (to - off)"
    have sz: "0 < sz" "sz \<le> to - off" using True by (auto simp: sz_def kChunkSize_def)
    let ?g = "patch f off (replicate sz 0)"
    have "pwrite_loop kChunkSize [] f (replicate sz 0) off = (None, ?g, [])"
      by (intro pwrite_loop_clean) (simp add: kChunkSize_def)
    moreover have "zero_chunks [] ?g (off + sz) to =
        (None, patch ?g (off + sz) (replicate (to - (off + sz)) 0), [])"
      using sz by (intro less.hyps) auto
    moreover have "patch ?g (off + sz) (replicate (to - (off + sz)) 0) =
        patch f off (replicate (to - off) 0)"
      using patch_patch_adjacent [of f off "replicate sz 0" "replicate (to - (off + sz)) 0"]
        sz by (simp flip: replicate_add)
    ultimately show ?thesis
      using True by (subst zero_chunks.simps) (simp add: sz_def [symmetric])
  qed (simp add: zero_chunks.simps)
qed

lemma WriteZeroesAndSync_effect:
  assumes "WriteZeroesAndSync io f from to = (r, f', io')"
  shows "\<exists>k\<le>to - from. f' = patch f from (replicate k 0) \<and> (r = None \<longrightarrow> k = to - from)"
proof (cases "to \<le> from")
  case True
  then show ?thesis using assms by (auto simp: WriteZeroesAndSync_def)
next
  case False
  obtain r1 f1 s1 where z: "zero_chunks (io_initialise_pwrite io) f from to = (r1, f1, s1)"
    by (metis prod_cases3)
  have "f' = f1 \<and> (r = None \<longrightarrow> r1 = None)"
    using assms(1) False z by (auto simp: WriteZeroesAndSync_def split: option.splits prod.splits)
  then show ?thesis
    using zero_chunks_effect [OF z] by blast
qed

lemma WriteZeroesAndSync_scripts:
  "WriteZeroesAndSync io f from to = (r, f', io') \<Longrightarrow>
   io_pwrite io' = io_pwrite io \<and> io_fdatasync io' = io_fdatasync io \<and> io_pread io' = io_pread io"
  by (auto simp: WriteZeroesAndSync_def split: if_splits option.splits prod.splits)

end
