(* ===== verification/WalFrame.thy ===== *)
theory WalFrame
  imports Crc32c LogRecords WalIo
begin

text \<open>
  The frame of the write-ahead log (\<^verbatim>\<open>src/recovery/wal.h\<close>, \<^verbatim>\<open>src/recovery/wal.cpp\<close>): its
  layout, the reader's view of a header, the torn-header test, and the searches that look for frames
  and for non-zero bytes past a damaged tail. Offsets (\<open>off_t\<close>) are natural numbers; the reads
  are the \<open>PreadAll\<close> of the previous theory, on a script of outcomes.
\<close>

section \<open>Layout\<close>

definition kMagic :: u32 where
  "kMagic = 0x4c57414c"

definition kVersion :: u16 where
  "kVersion = 1"

definition kFlags :: u16 where
  "kFlags = 0"

definition kHeaderSize :: nat where
  "kHeaderSize = 20"

definition kMaxPayloadSize :: nat where
  "kMaxPayloadSize = 256 * 1024 * 1024"

definition kProbeBudget :: nat where
  "kProbeBudget = 1024 * 1024 * 1024"

text \<open>The fields of a header, read at their offsets.\<close>

definition header_magic :: "bytes \<Rightarrow> u32" where
  "header_magic h = GetLe32 h"

definition header_version :: "bytes \<Rightarrow> u16" where
  "header_version h = GetLe16 (drop 4 h)"

definition header_flags :: "bytes \<Rightarrow> u16" where
  "header_flags h = GetLe16 (drop 6 h)"

definition header_payload_size :: "bytes \<Rightarrow> nat" where
  "header_payload_size h = unat (GetLe32 (drop 8 h))"

definition header_epoch :: "bytes \<Rightarrow> epoch_number" where
  "header_epoch h = GetLe32 (drop 12 h)"

definition header_crc :: "bytes \<Rightarrow> u32" where
  "header_crc h = GetLe32 (drop 16 h)"

text \<open>The checksum of a frame: the header without its last field, then the payload.\<close>

definition frame_crc :: "bytes \<Rightarrow> bytes \<Rightarrow> u32" where
  "frame_crc h payload =
     Crc32c_Finish (Crc32c_Update (Crc32c_Update Crc32c_init (take 16 h)) payload)"

definition header_constants :: bytes where
  "header_constants = PutLe32 kMagic @ PutLe16 kVersion @ PutLe16 kFlags"

text \<open>The frame \<open>AppendGroup\<close> writes for one bucket.\<close>

definition frame_fields :: "epoch_number \<Rightarrow> bytes \<Rightarrow> bytes" where
  "frame_fields epoch payload =
     header_constants @ PutLe32 (of_nat (length payload)) @ PutLe32 epoch"

definition encode_frame :: "epoch_number \<Rightarrow> bytes \<Rightarrow> bytes" where
  "encode_frame epoch payload =
     frame_fields epoch payload @ PutLe32 (frame_crc (frame_fields epoch payload) payload) @ payload"

definition HeaderIsTornPrefix :: "bytes \<Rightarrow> bool" where
  "HeaderIsTornPrefix header =
     (let matched = length (takeWhile (\<lambda>(h, e). h = e) (zip header header_constants))
      in if matched = 8 then False
         else list_all (\<lambda>b. b = 0) (drop matched (take kHeaderSize header)))"

section \<open>Looking for a frame\<close>

datatype probe = NoFrame | Frame | ProbeIoError errno | Undecidable

text \<open>The payload loop of \<open>ProbeFrameAt\<close>, accumulating the checksum chunk by chunk. The chunk
  buffer holds \<open>min kChunkSize payload_size\<close> bytes, and at most the payload remains.\<close>

function probe_payload ::
  "io_script \<Rightarrow> bytes \<Rightarrow> nat \<Rightarrow> nat \<Rightarrow> nat \<Rightarrow> u32 \<Rightarrow> u32 \<Rightarrow> probe \<times> nat \<times> io_script" where
  "probe_payload s f at remaining budget crc stored =
     (if remaining = 0 then (if Crc32c_Finish crc = stored then Frame else NoFrame, budget, s)
      else let sz = min kChunkSize remaining
           in if budget + sz > kProbeBudget then (Undecidable, budget, s)
              else case PreadAll s f sz at of
                     (Inl e, s') \<Rightarrow> (ProbeIoError e, budget, s')
                   | (Inr chunk, s') \<Rightarrow>
                       probe_payload s' f (at + sz) (remaining - sz) (budget + sz)
                         (Crc32c_Update crc chunk) stored)"
  by pat_completeness auto
termination
  by (relation "measure (\<lambda>(_, _, _, remaining, _). remaining)") (auto simp: kChunkSize_def)

definition ProbeFrameAt ::
  "io_script \<Rightarrow> bytes \<Rightarrow> nat \<Rightarrow> nat \<Rightarrow> nat \<Rightarrow> probe \<times> nat \<times> io_script" where
  "ProbeFrameAt s f offset file_size budget =
     (if file_size < offset + kHeaderSize then (NoFrame, budget, s)
      else if budget + kHeaderSize > kProbeBudget then (Undecidable, budget, s)
      else case PreadAll s f kHeaderSize offset of
             (Inl e, s') \<Rightarrow> (ProbeIoError e, budget, s')
           | (Inr header, s') \<Rightarrow>
               (let budget' = budget + kHeaderSize;
                    payload_size = header_payload_size header
                in if header_magic header \<noteq> kMagic then (NoFrame, budget', s')
                   else if header_version header \<noteq> kVersion then (NoFrame, budget', s')
                   else if header_flags header \<noteq> kFlags then (NoFrame, budget', s')
                   else if header_epoch header = 0 then (NoFrame, budget', s')
                   else if payload_size = 0 \<or> payload_size > kMaxPayloadSize
                   then (NoFrame, budget', s')
                   else if offset + kHeaderSize + payload_size > file_size
                   then (NoFrame, budget', s')
                   else probe_payload s' f (offset + kHeaderSize) payload_size budget'
                          (Crc32c_Update Crc32c_init (take 16 header)) (header_crc header)))"

text \<open>The candidates of one chunk: every offset at which the magic is whole in the chunk.\<close>

fun search_chunk ::
  "io_script \<Rightarrow> bytes \<Rightarrow> nat \<Rightarrow> nat \<Rightarrow> nat \<Rightarrow> bytes \<Rightarrow> probe \<times> nat \<times> io_script" where
  "search_chunk s f file_size budget at [] = (NoFrame, budget, s)"
| "search_chunk s f file_size budget at (b # bs) =
     (if length (b # bs) < 4 then (NoFrame, budget, s)
      else if GetLe32 (b # bs) \<noteq> kMagic then search_chunk s f file_size budget (at + 1) bs
      else case ProbeFrameAt s f at file_size budget of
             (NoFrame, budget', s') \<Rightarrow> search_chunk s' f file_size budget' (at + 1) bs
           | (answer, budget', s') \<Rightarrow> (answer, budget', s'))"

function search_chunks ::
  "io_script \<Rightarrow> bytes \<Rightarrow> nat \<Rightarrow> nat \<Rightarrow> nat \<Rightarrow> nat \<Rightarrow> probe \<times> io_script" where
  "search_chunks s f at search_end file_size budget =
     (if at < search_end
      then let sz = min kChunkSize (search_end - at)
           in if budget + sz > kProbeBudget then (Undecidable, s)
              else case PreadAll s f sz at of
                     (Inl e, s') \<Rightarrow> (ProbeIoError e, s')
                   | (Inr chunk, s') \<Rightarrow>
                       (case search_chunk s' f file_size (budget + sz) at chunk of
                          (NoFrame, budget', s'') \<Rightarrow>
                            if sz \<le> 3 then (NoFrame, s'')
                            else search_chunks s'' f (at + (sz - 3)) search_end file_size budget'
                        | (answer, _, s'') \<Rightarrow> (answer, s''))
      else (NoFrame, s))"
  by pat_completeness auto
termination
  by (relation "measure (\<lambda>(_, _, at, search_end, _). search_end - at)")
     (auto simp: kChunkSize_def)

definition SearchForFrameAfter ::
  "io_script \<Rightarrow> bytes \<Rightarrow> nat \<Rightarrow> nat \<Rightarrow> nat \<Rightarrow> probe \<times> io_script" where
  "SearchForFrameAfter s f offset search_end file_size =
     search_chunks s f (offset + 1) search_end file_size 0"

text \<open>\<open>FindLastNonZero\<close>. The result is one past the last byte that is not zero (\<open>*last_non_zero +
  1\<close> of the source), so that \<open>from\<close> stands for the source's \<open>from - 1\<close>.\<close>

definition chunk_last_non_zero :: "bytes \<Rightarrow> nat" where
  "chunk_last_non_zero chunk = length (dropWhile (\<lambda>b. b = 0) (rev chunk))"

function find_last_chunks ::
  "io_script \<Rightarrow> bytes \<Rightarrow> nat \<Rightarrow> nat \<Rightarrow> nat \<Rightarrow> (errno + nat) \<times> io_script" where
  "find_last_chunks s f at to last_nz =
     (if at < to
      then let sz = min kChunkSize (to - at)
           in case PreadAll s f sz at of
                (Inl e, s') \<Rightarrow> (Inl e, s')
              | (Inr chunk, s') \<Rightarrow>
                  (let i = chunk_last_non_zero chunk
                   in find_last_chunks s' f (at + kChunkSize) to (if i > 0 then at + i else last_nz))
      else (Inr last_nz, s))"
  by pat_completeness auto
termination
  by (relation "measure (\<lambda>(_, _, at, to, _). to - at)") (auto simp: kChunkSize_def)

definition FindLastNonZero ::
  "io_script \<Rightarrow> bytes \<Rightarrow> nat \<Rightarrow> nat \<Rightarrow> (errno + nat) \<times> io_script" where
  "FindLastNonZero s f from to = find_last_chunks s f from to from"

declare probe_payload.simps [simp del] search_chunks.simps [simp del] find_last_chunks.simps [simp del]

end
