(* ===== verification/Wal.thy ===== *)
theory Wal
  imports WalFrame
begin

text \<open>
  The class \<open>Wal\<close> of \<^verbatim>\<open>src/recovery/wal.h\<close> and \<^verbatim>\<open>src/recovery/wal.cpp\<close>: its state and its
  operations, translated whole, error paths included. The payload codec is msgpack, third-party code:
  \<open>pack\<close> and \<open>unpack\<close> are arguments of the operations that use it. \<open>unpack\<close> answers the decoded
  records and the number of bytes consumed, \<open>None\<close> when it throws.
\<close>

section \<open>State\<close>

datatype wal_state = Unscanned | Ready | Failed

record wal =
  w_file :: bytes
  w_io :: wal_io
  w_initial_capacity_bytes :: nat
  w_state :: wal_state
  w_write_offset :: nat
  w_frontier :: epoch_number
  w_initialised_size :: nat
  w_extension_count :: nat

definition kNoPreallocation :: nat where
  "kNoPreallocation = 0"

definition kDefaultCapacityBytes :: nat where
  "kDefaultCapacityBytes = 64 * 1024 * 1024"

section \<open>Opening\<close>

text \<open>The calls of the constructor that are not part of \<open>WalIo\<close> (create the directory, open,
  lock, open a directory) answer from one script, in the order they are made.\<close>

definition EEXIST :: errno where
  "EEXIST = Errno 17"

fun sys_call :: "io_script \<Rightarrow> errno option \<times> io_script" where
  "sys_call [] = (None, [])"
| "sys_call (Transferred _ # s) = (None, s)"
| "sys_call (FailedWith e # s) = (Some e, s)"

definition FsyncDirectory ::
  "io_script \<Rightarrow> io_script \<Rightarrow> errno option \<times> io_script \<times> io_script" where
  "FsyncDirectory calls fsyncs =
     (case sys_call calls of
        (Some e, calls') \<Rightarrow> (Some e, calls', fsyncs)
      | (None, calls') \<Rightarrow>
          (case FsyncRetryingOnInterrupt fsyncs of (r, fsyncs') \<Rightarrow> (r, calls', fsyncs')))"

text \<open>Open the log, creating it when it is not there: \<open>existing\<close> is the file's content, if any. The
  exclusive create answers \<open>EEXIST\<close> when the file exists; the log is then opened as it is.\<close>

definition open_exclusive :: "io_script \<Rightarrow> bytes option \<Rightarrow> errno option \<times> io_script" where
  "open_exclusive calls existing =
     (if existing \<noteq> None then (Some EEXIST, calls) else sys_call calls)"

definition open_log :: "io_script \<Rightarrow> bytes option \<Rightarrow> (errno + bytes) \<times> io_script" where
  "open_log calls existing =
     (let (r, calls1) = open_exclusive calls existing;
          (r2, calls2) = (if r = Some EEXIST then sys_call calls1 else (r, calls1))
      in case r2 of
           Some e \<Rightarrow> (Inl e, calls2)
         | None \<Rightarrow> (Inr (case existing of Some f \<Rightarrow> f | None \<Rightarrow> []), calls2))"

definition Wal_open ::
  "io_script \<Rightarrow> wal_io \<Rightarrow> bytes option \<Rightarrow> nat \<Rightarrow> errno + wal" where
  "Wal_open calls io existing initial_capacity_bytes =
     (case sys_call calls of
        (Some e, _) \<Rightarrow> Inl e
      | (None, calls1) \<Rightarrow>
     (case open_log calls1 existing of
        (Inl e, _) \<Rightarrow> Inl e
      | (Inr f, calls2) \<Rightarrow>
     (case sys_call calls2 of
        (Some e, _) \<Rightarrow> Inl e
      | (None, calls3) \<Rightarrow>
     (case FsyncRetryingOnInterrupt (io_fsync io) of
        (Some e, _) \<Rightarrow> Inl e
      | (None, fsyncs1) \<Rightarrow>
     (case FsyncDirectory calls3 fsyncs1 of
        (Some e, _, _) \<Rightarrow> Inl e
      | (None, calls4, fsyncs2) \<Rightarrow>
     (case FsyncDirectory calls4 fsyncs2 of
        (Some e, _, _) \<Rightarrow> Inl e
      | (None, calls5, fsyncs3) \<Rightarrow>
     (case sys_call (io_fstat io) of
        (Some e, _) \<Rightarrow> Inl e
      | (None, fstats) \<Rightarrow>
          Inr \<lparr>w_file = f, w_io = io\<lparr>io_fsync := fsyncs3, io_fstat := fstats\<rparr>,
               w_initial_capacity_bytes = initial_capacity_bytes, w_state = Unscanned,
               w_write_offset = 0, w_frontier = 0, w_initialised_size = length f,
               w_extension_count = 0\<rparr>)))))))"

section \<open>Results of a scan\<close>

datatype anomaly =
    MagicMismatch | UnsupportedVersion | UnknownFlags | PayloadTooLarge
  | EndsInsideHeader | EndsInsidePayload | ChecksumMismatch

datatype io_operation =
    ScanAfterFailure | FstatLog | PreadHeader | PreadPayload | PreadTail | PreadPastTail
  | ZeroTail | InitialiseCapacity

datatype scan_detail =
    NoDetail | BadHeader anomaly | EpochRegressed | EpochIsZero | TrailingBytes | DoesNotDecode
  | CarriesNoRecord | RecordEpochDisagrees | DataBeyondFrame anomaly nat | FrameBeyond anomaly nat
  | Unclassifiable anomaly nat | FailedOperation io_operation

datatype scan_status = ScanOk | ScanCorrupt | ScanIoError

record WalScanResult =
  sr_status :: scan_status
  sr_frontier :: epoch_number
  sr_records :: LogRecords
  sr_tail_truncated :: bool
  sr_error_number :: "errno option"
  sr_detail :: scan_detail
  sr_frames_skipped :: nat
  sr_bytes_skipped :: nat

definition WalScanResult_default :: WalScanResult where
  "WalScanResult_default =
     \<lparr>sr_status = ScanOk, sr_frontier = 0, sr_records = [], sr_tail_truncated = False,
      sr_error_number = None, sr_detail = NoDetail, sr_frames_skipped = 0, sr_bytes_skipped = 0\<rparr>"

definition Corrupt :: "wal \<Rightarrow> scan_detail \<Rightarrow> WalScanResult \<times> wal" where
  "Corrupt w detail =
     (WalScanResult_default\<lparr>sr_status := ScanCorrupt, sr_detail := detail\<rparr>, w\<lparr>w_state := Failed\<rparr>)"

definition IoFailure :: "wal \<Rightarrow> io_operation \<Rightarrow> errno \<Rightarrow> WalScanResult \<times> wal" where
  "IoFailure w operation e =
     (WalScanResult_default\<lparr>sr_status := ScanIoError, sr_error_number := Some e,
        sr_detail := FailedOperation operation\<rparr>, w\<lparr>w_state := Failed\<rparr>)"

section \<open>Capacity\<close>

text \<open>The arithmetic of \<open>EnsureCapacityFor\<close>, at its width.\<close>

datatype capacity_decision = CapacityOverflow | CapacityEnough | ExtendTo u64

definition capacity_plan :: "u64 \<Rightarrow> u64 \<Rightarrow> u64 \<Rightarrow> u64 \<Rightarrow> capacity_decision" where
  "capacity_plan end_of_log group_size initialised_size capacity =
     (let limit = 0x7fffffffffffffff
      in if group_size > limit - end_of_log then CapacityOverflow
         else if capacity = 0 then CapacityEnough
         else
           (let needed = end_of_log + group_size
            in if needed \<le> initialised_size \<and> initialised_size \<ge> capacity then CapacityEnough
               else
                 (let units = max 1 (needed div capacity + (if needed mod capacity \<noteq> 0 then 1 else 0))
                  in if units > limit div capacity then CapacityOverflow
                     else
                       (let target = units * capacity
                        in if target \<le> initialised_size then CapacityEnough
                           else ExtendTo target))))"

definition EnsureCapacityFor :: "wal \<Rightarrow> nat \<Rightarrow> nat \<Rightarrow> errno option \<times> wal" where
  "EnsureCapacityFor w end_of_log group_size =
     (case capacity_plan (of_nat end_of_log) (of_nat group_size) (of_nat (w_initialised_size w))
             (of_nat (w_initial_capacity_bytes w)) of
        CapacityOverflow \<Rightarrow> (Some EFBIG, w)
      | CapacityEnough \<Rightarrow> (None, w)
      | ExtendTo target \<Rightarrow>
          (case WriteZeroesAndSync (w_io w) (w_file w) (w_initialised_size w) (unat target) of
             (Some e, f, io) \<Rightarrow> (Some e, w\<lparr>w_file := f, w_io := io\<rparr>)
           | (None, f, io) \<Rightarrow>
               (None, w\<lparr>w_file := f, w_io := io, w_initialised_size := unat target\<rparr>)))"

definition FinishScan :: "wal \<Rightarrow> WalScanResult \<Rightarrow> nat \<Rightarrow> WalScanResult \<times> wal" where
  "FinishScan w result end_of_log =
     (case EnsureCapacityFor w end_of_log 0 of
        (Some e, w') \<Rightarrow> IoFailure w' InitialiseCapacity e
      | (None, w') \<Rightarrow>
          (result, w'\<lparr>w_write_offset := end_of_log, w_frontier := sr_frontier result,
                      w_state := Ready\<rparr>))"

section \<open>Hopping over covered frames\<close>

record hop =
  h_at :: nat
  h_frontier :: epoch_number
  h_have_frame :: bool
  h_frames_skipped :: nat
  h_bytes_skipped :: nat
  h_guard :: "(nat \<times> nat \<times> bytes) option"

definition hop_start :: hop where
  "hop_start = \<lparr>h_at = 0, h_frontier = 0, h_have_frame = False, h_frames_skipped = 0,
                h_bytes_skipped = 0, h_guard = None\<rparr>"

datatype hop_result = HopFailed "errno option" | Hopped hop

text \<open>What a header is to the reader: in order, the first anomaly of the source's tests.\<close>

definition header_anomaly :: "bytes \<Rightarrow> anomaly option" where
  "header_anomaly header =
     (if header_magic header \<noteq> kMagic then Some MagicMismatch
      else if header_version header \<noteq> kVersion then Some UnsupportedVersion
      else if header_flags header \<noteq> kFlags then Some UnknownFlags
      else if header_payload_size header > kMaxPayloadSize then Some PayloadTooLarge
      else None)"

function hop_loop :: "epoch_number \<Rightarrow> io_script \<Rightarrow> bytes \<Rightarrow> nat \<Rightarrow> hop \<Rightarrow> hop_result \<times> io_script" where
  "hop_loop min_epoch s f file_size h =
     (if \<not> h_at h < file_size then (Hopped h, s)
      else if file_size - h_at h < kHeaderSize then (HopFailed None, s)
      else case PreadAll s f kHeaderSize (h_at h) of
             (Inl e, s') \<Rightarrow> (HopFailed (Some e), s')
           | (Inr header, s') \<Rightarrow>
               (let payload_size = header_payload_size header;
                    epoch = header_epoch header;
                    frame_end = h_at h + kHeaderSize + payload_size
                in if header_anomaly header \<noteq> None
                   then (if HeaderIsTornPrefix header then (Hopped h, s') else (HopFailed None, s'))
                   else if frame_end > file_size then (HopFailed None, s')
                   else if h_have_frame h \<and> epoch < h_frontier h then (HopFailed None, s')
                   else if epoch = 0 then (HopFailed None, s')
                   else if epoch > min_epoch then (Hopped h, s')
                   else hop_loop min_epoch s' f file_size
                          \<lparr>h_at = frame_end, h_frontier = epoch, h_have_frame = True,
                           h_frames_skipped = h_frames_skipped h + 1,
                           h_bytes_skipped = h_bytes_skipped h + kHeaderSize + payload_size,
                           h_guard = Some (h_at h, payload_size, header)\<rparr>))"
  by pat_completeness auto
termination
  by (relation "measure (\<lambda>(_, _, _, file_size, h). file_size - h_at h)")
     (auto simp: kHeaderSize_def)

definition HopCoveredFrames ::
  "epoch_number \<Rightarrow> io_script \<Rightarrow> bytes \<Rightarrow> nat \<Rightarrow> hop_result \<times> io_script" where
  "HopCoveredFrames min_epoch s f file_size = hop_loop min_epoch s f file_size hop_start"

declare hop_loop.simps [simp del]

section \<open>Scanning\<close>

record scan =
  c_offset :: nat
  c_frontier :: epoch_number
  c_have_frame :: bool
  c_frames_skipped :: nat
  c_bytes_skipped :: nat
  c_records :: LogRecords

definition scan_start :: scan where
  "scan_start = \<lparr>c_offset = 0, c_frontier = 0, c_have_frame = False, c_frames_skipped = 0,
                 c_bytes_skipped = 0, c_records = []\<rparr>"

text \<open>Where the frame loop starts: after the covered frames when they could be hopped and the last
  of them holds its checksum, otherwise at the beginning.\<close>

definition scan_begin ::
  "epoch_number \<Rightarrow> io_script \<Rightarrow> bytes \<Rightarrow> nat \<Rightarrow> ((io_operation \<times> errno) + scan) \<times> io_script" where
  "scan_begin min_epoch s f file_size =
     (if min_epoch = 0 then (Inr scan_start, s)
      else case HopCoveredFrames min_epoch s f file_size of
             (HopFailed (Some e), s') \<Rightarrow> (Inl (PreadHeader, e), s')
           | (HopFailed None, s') \<Rightarrow> (Inr scan_start, s')
           | (Hopped h, s') \<Rightarrow>
               (let hopped = \<lparr>c_offset = h_at h, c_frontier = h_frontier h,
                              c_have_frame = h_have_frame h,
                              c_frames_skipped = h_frames_skipped h,
                              c_bytes_skipped = h_bytes_skipped h, c_records = []\<rparr>
                in case h_guard h of
                     None \<Rightarrow> (Inr hopped, s')
                   | Some (guard_offset, guard_payload_size, guard_header) \<Rightarrow>
                       (case PreadAll s' f guard_payload_size (guard_offset + kHeaderSize) of
                          (Inl e, s'') \<Rightarrow> (Inl (PreadPayload, e), s'')
                        | (Inr payload, s'') \<Rightarrow>
                            if frame_crc guard_header payload \<noteq> header_crc guard_header
                            then (Inr scan_start, s'')
                            else (Inr hopped, s''))))"

text \<open>The records of a frame above \<open>min_epoch\<close>.\<close>

definition decode_payload ::
  "(bytes \<Rightarrow> (LogRecords \<times> nat) option) \<Rightarrow> epoch_number \<Rightarrow> bytes \<Rightarrow> scan_detail + LogRecords" where
  "decode_payload unpack epoch payload =
     (case unpack payload of
        None \<Rightarrow> Inl DoesNotDecode
      | Some (decoded, consumed) \<Rightarrow>
          if consumed \<noteq> length payload then Inl TrailingBytes
          else if decoded = [] then Inl CarriesNoRecord
          else if \<not> list_all (\<lambda>r. lr_epoch r = epoch) decoded then Inl RecordEpochDisagrees
          else Inr decoded)"

datatype scan_stop =
    StopCorrupt scan_detail
  | StopIo io_operation errno
  | StopAt "anomaly option" "nat option" scan

text \<open>The frame loop of \<open>ScanAndRepair\<close>. \<open>StopAt\<close> carries the anomaly that ended it, if any, and
  \<open>checksum_broken_frame_end\<close> when it is set.\<close>

function scan_loop ::
  "(bytes \<Rightarrow> (LogRecords \<times> nat) option) \<Rightarrow> epoch_number \<Rightarrow> io_script \<Rightarrow> bytes \<Rightarrow> nat \<Rightarrow> scan
     \<Rightarrow> scan_stop \<times> io_script" where
  "scan_loop unpack min_epoch s f file_size c =
     (if \<not> c_offset c < file_size then (StopAt None None c, s)
      else if file_size - c_offset c < kHeaderSize then (StopAt (Some EndsInsideHeader) None c, s)
      else case PreadAll s f kHeaderSize (c_offset c) of
             (Inl e, s') \<Rightarrow> (StopIo PreadHeader e, s')
           | (Inr header, s') \<Rightarrow>
     (case header_anomaly header of
        Some a \<Rightarrow> (if HeaderIsTornPrefix header then (StopAt (Some a) None c, s')
                   else (StopCorrupt (BadHeader a), s'))
      | None \<Rightarrow>
     (let payload_size = header_payload_size header;
          epoch = header_epoch header;
          frame_end = c_offset c + kHeaderSize + payload_size
      in if frame_end > file_size then (StopAt (Some EndsInsidePayload) None c, s')
         else case PreadAll s' f payload_size (c_offset c + kHeaderSize) of
                (Inl e, s'') \<Rightarrow> (StopIo PreadPayload e, s'')
              | (Inr payload, s'') \<Rightarrow>
     (if frame_crc header payload \<noteq> header_crc header
      then (StopAt (Some ChecksumMismatch) (Some frame_end) c, s'')
      else if c_have_frame c \<and> epoch < c_frontier c then (StopCorrupt EpochRegressed, s'')
      else if epoch = 0 then (StopCorrupt EpochIsZero, s'')
      else if epoch \<le> min_epoch
      then scan_loop unpack min_epoch s'' f file_size
             (c\<lparr>c_frames_skipped := c_frames_skipped c + 1,
                c_bytes_skipped := c_bytes_skipped c + kHeaderSize + payload_size,
                c_frontier := epoch, c_have_frame := True, c_offset := frame_end\<rparr>)
      else case decode_payload unpack epoch payload of
             Inl d \<Rightarrow> (StopCorrupt d, s'')
           | Inr decoded \<Rightarrow>
               scan_loop unpack min_epoch s'' f file_size
                 (c\<lparr>c_records := c_records c @ decoded,
                    c_frontier := epoch, c_have_frame := True, c_offset := frame_end\<rparr>)))))"
  by pat_completeness auto
termination
  by (relation "measure (\<lambda>(_, _, _, _, file_size, c). file_size - c_offset c)")
     (auto simp: kHeaderSize_def)

definition set_pread :: "wal \<Rightarrow> io_script \<Rightarrow> wal" where
  "set_pread w s = w\<lparr>w_io := (w_io w)\<lparr>io_pread := s\<rparr>\<rparr>"

text \<open>What follows an anomaly at \<open>offset\<close>: \<open>Inl\<close> ends the scan; \<open>Inr\<close> says whether the tail was
  overwritten with zeroes.\<close>

definition repair_tail ::
  "wal \<Rightarrow> anomaly \<Rightarrow> nat option \<Rightarrow> nat \<Rightarrow> nat
     \<Rightarrow> (WalScanResult \<times> wal) + (bool \<times> wal)" where
  "repair_tail w a checksum_broken_frame_end offset file_size =
     (case FindLastNonZero (io_pread (w_io w)) (w_file w) offset file_size of
        (Inl e, s) \<Rightarrow> Inl (IoFailure (set_pread w s) PreadTail e)
      | (Inr last_end, s) \<Rightarrow>
          (let w1 = set_pread w s
           in if \<not> last_end > offset then Inr (False, w1)
              else if (case checksum_broken_frame_end of None \<Rightarrow> False | Some e \<Rightarrow> last_end > e)
              then Inl (Corrupt w1 (DataBeyondFrame a offset))
              else
                (case SearchForFrameAfter (io_pread (w_io w1)) (w_file w1) offset last_end file_size of
                   (Frame, s') \<Rightarrow> Inl (Corrupt (set_pread w1 s') (FrameBeyond a offset))
                 | (Undecidable, s') \<Rightarrow> Inl (Corrupt (set_pread w1 s') (Unclassifiable a offset))
                 | (ProbeIoError e, s') \<Rightarrow> Inl (IoFailure (set_pread w1 s') PreadPastTail e)
                 | (NoFrame, s') \<Rightarrow>
                     (case WriteZeroesAndSync (w_io (set_pread w1 s')) (w_file w1) offset last_end of
                        (Some e, f, io) \<Rightarrow>
                          Inl (IoFailure (w1\<lparr>w_file := f, w_io := io\<rparr>) ZeroTail e)
                      | (None, f, io) \<Rightarrow> Inr (True, w1\<lparr>w_file := f, w_io := io\<rparr>)))))"

text \<open>What follows the frame loop.\<close>

definition scan_finish ::
  "wal \<Rightarrow> anomaly option \<Rightarrow> nat option \<Rightarrow> scan \<Rightarrow> nat \<Rightarrow> WalScanResult \<times> wal" where
  "scan_finish w a checksum_broken_frame_end c file_size =
     (let result = WalScanResult_default\<lparr>sr_frontier := c_frontier c,
                     sr_frames_skipped := c_frames_skipped c,
                     sr_bytes_skipped := c_bytes_skipped c, sr_records := c_records c\<rparr>
      in case a of
           None \<Rightarrow> FinishScan w result (c_offset c)
         | Some anom \<Rightarrow>
             (case repair_tail w anom checksum_broken_frame_end (c_offset c) file_size of
                Inl failure \<Rightarrow> failure
              | Inr (truncated, w') \<Rightarrow>
                  FinishScan w' (result\<lparr>sr_tail_truncated := truncated\<rparr>) (c_offset c)))"

definition ScanAndRepair ::
  "(bytes \<Rightarrow> (LogRecords \<times> nat) option) \<Rightarrow> wal \<Rightarrow> epoch_number \<Rightarrow> WalScanResult \<times> wal" where
  "ScanAndRepair unpack w min_epoch =
     (if w_state w = Failed then IoFailure w ScanAfterFailure EIO
      else case sys_call (io_fstat (w_io w)) of
             (Some e, fs) \<Rightarrow> IoFailure (w\<lparr>w_io := (w_io w)\<lparr>io_fstat := fs\<rparr>\<rparr>) FstatLog e
           | (None, fs) \<Rightarrow>
     (let file_size = length (w_file w);
          w0 = w\<lparr>w_io := (w_io w)\<lparr>io_fstat := fs\<rparr>,
                 w_initialised_size := max (w_initialised_size w) file_size\<rparr>
      in case scan_begin min_epoch (io_pread (w_io w0)) (w_file w0) file_size of
           (Inl (operation, e), s) \<Rightarrow> IoFailure (set_pread w0 s) operation e
         | (Inr c0, s) \<Rightarrow>
     (case scan_loop unpack min_epoch s (w_file w0) file_size c0 of
        (StopCorrupt d, s') \<Rightarrow> Corrupt (set_pread w0 s') d
      | (StopIo operation e, s') \<Rightarrow> IoFailure (set_pread w0 s') operation e
      | (StopAt a broken c, s') \<Rightarrow> scan_finish (set_pread w0 s') a broken c file_size)))"

section \<open>Appending\<close>

text \<open>The buckets of a \<open>std::map\<close> in its iteration order, ascending epochs. The encoded group and the
  last epoch encoded, or the error of the first bucket the scan would reject.\<close>

fun encode_group ::
  "(LogRecords \<Rightarrow> bytes) \<Rightarrow> epoch_number \<Rightarrow> epoch_number \<Rightarrow> (epoch_number \<times> LogRecords) list
     \<Rightarrow> bytes \<Rightarrow> epoch_number \<Rightarrow> errno + (bytes \<times> epoch_number)" where
  "encode_group pack frontier target [] grp last_encoded = Inr (grp, last_encoded)"
| "encode_group pack frontier target ((epoch, records) # buckets) grp last_encoded =
     (if epoch > target then Inr (grp, last_encoded)
      else if records = [] \<or> epoch = 0 then Inl EINVAL
      else if epoch < frontier then Inl EINVAL
      else if \<not> list_all (\<lambda>r. lr_epoch r = epoch) records then Inl EINVAL
      else let payload = pack records
           in if length payload > kMaxPayloadSize \<or> length payload > 4294967295
              then Inl EOVERFLOW
              else encode_group pack frontier target buckets (grp @ encode_frame epoch payload)
                     epoch)"

datatype append_outcome = AppendOk | AppendError errno | AppendAbort

text \<open>The group write, its sync, and what is published after both succeeded.\<close>

definition write_group :: "wal \<Rightarrow> bytes \<Rightarrow> epoch_number \<Rightarrow> append_outcome \<times> wal" where
  "write_group w grp last_encoded =
     (case WriteAllAt (io_pwrite (w_io w)) (w_file w) grp (w_write_offset w) of
        (Some e, f, s) \<Rightarrow>
          (AppendError e, w\<lparr>w_file := f, w_io := (w_io w)\<lparr>io_pwrite := s\<rparr>, w_state := Failed\<rparr>)
      | (None, f, s) \<Rightarrow>
          (case FsyncRetryingOnInterrupt (io_fdatasync (w_io w)) of
             (Some e, s') \<Rightarrow>
               (AppendError e, w\<lparr>w_file := f, w_io := (w_io w)\<lparr>io_pwrite := s, io_fdatasync := s'\<rparr>,
                                 w_state := Failed\<rparr>)
           | (None, s') \<Rightarrow>
               (AppendOk, w\<lparr>w_file := f, w_io := (w_io w)\<lparr>io_pwrite := s, io_fdatasync := s'\<rparr>,
                            w_write_offset := w_write_offset w + length grp,
                            w_initialised_size :=
                              max (w_initialised_size w) (w_write_offset w + length grp),
                            w_frontier := last_encoded\<rparr>)))"

definition AppendGroup ::
  "(LogRecords \<Rightarrow> bytes) \<Rightarrow> wal \<Rightarrow> (epoch_number \<times> LogRecords) list \<Rightarrow> epoch_number
     \<Rightarrow> append_outcome \<times> wal" where
  "AppendGroup pack w buckets target =
     (if w_state w \<noteq> Ready then (AppendAbort, w)
      else case encode_group pack (w_frontier w) target buckets [] (w_frontier w) of
             Inl e \<Rightarrow> (AppendError e, w)
           | Inr (grp, last_encoded) \<Rightarrow>
               if grp = [] then (AppendOk, w)
               else case EnsureCapacityFor w (w_write_offset w) (length grp) of
                      (Some e, w1) \<Rightarrow> (AppendError e, w1\<lparr>w_state := Failed\<rparr>)
                    | (None, w1) \<Rightarrow>
                        write_group
                          (if w_initialised_size w1 \<noteq> w_initialised_size w
                           then w1\<lparr>w_extension_count := w_extension_count w1 + 1\<rparr> else w1)
                          grp last_encoded)"

declare scan_loop.simps [simp del]

end
