(* ===== verification/WalFaults.thy ===== *)
theory WalFaults
  imports Wal
begin

text \<open>
  I/O faults and the scan: short reads, interrupted calls and failing calls, injected at any point,
  either surface as an I/O error or leave the answer of the scan what it is without faults.
\<close>

section \<open>Faults do not change an answer\<close>

lemma PreadAll_transparent:
  assumes "PreadAll s f sz off = (Inr bs, s')"
  shows "PreadAll [] f sz off = (Inr bs, [])"
proof (cases "sz = 0")
  case True
  then show ?thesis using assms by (simp add: PreadAll_0)
next
  case False
  have "bs = take sz (drop off f)" "length bs = sz"
    using PreadAll_result [OF assms] by auto
  then have "off + sz \<le> length f" using False by (auto simp: min_def split: if_splits)
  then show ?thesis using PreadAll_clean \<open>bs = _\<close> by simp
qed

lemma probe_payload_transparent:
  "probe_payload s f at remaining budget crc stored = (r, b, s') \<Longrightarrow>
   (\<exists>e. r = ProbeIoError e) \<or> probe_payload [] f at remaining budget crc stored = (r, b, [])"
proof (induction s f at remaining budget crc stored arbitrary: r b s' rule: probe_payload.induct)
  case (1 s f at remaining budget crc stored)
  let ?sz = "min kChunkSize remaining"
  show ?case
  proof (cases "remaining = 0 \<or> budget + ?sz > kProbeBudget")
    case True
    then show ?thesis
      using 1(2) by (auto simp: probe_payload.simps [of _ _ _ remaining])
  next
    case False
    obtain p s1 where p: "PreadAll s f ?sz at = (p, s1)" by force
    show ?thesis
    proof (cases p)
      case (Inl e)
      then show ?thesis
        using 1(2) False p by (auto simp: probe_payload.simps [of s] Let_def)
    next
      case (Inr chunk)
      have "probe_payload s1 f (at + ?sz) (remaining - ?sz) (budget + ?sz) (Crc32c_Update crc chunk)
          stored = (r, b, s')"
        using 1(2) False p Inr by (auto simp: probe_payload.simps [of s] Let_def)
      moreover have "PreadAll [] f ?sz at = (Inr chunk, [])"
        using PreadAll_transparent p Inr by blast
      ultimately show ?thesis
        using 1(1) [of ?sz p s1 chunk r b s'] False p Inr
        by (subst probe_payload.simps) (auto simp: Let_def)
    qed
  qed
qed

lemma ProbeFrameAt_transparent:
  assumes "ProbeFrameAt s f offset n budget = (r, b, s')"
  shows "(\<exists>e. r = ProbeIoError e) \<or> ProbeFrameAt [] f offset n budget = (r, b, [])"
proof -
  obtain p s1 where p: "PreadAll s f kHeaderSize offset = (p, s1)" by force
  show ?thesis
  proof (cases p)
    case (Inl e)
    then show ?thesis using assms p by (auto simp: ProbeFrameAt_def split: if_splits)
  next
    case (Inr h)
    then have "PreadAll [] f kHeaderSize offset = (Inr h, [])"
      using PreadAll_transparent p by blast
    then show ?thesis
      using assms p Inr
        probe_payload_transparent [of s1 f "offset + kHeaderSize" "header_payload_size h"
          "budget + kHeaderSize" "Crc32c_Update Crc32c_init (take 16 h)" "header_crc h" r b s']
      by (auto simp: ProbeFrameAt_def Let_def split: if_splits)
  qed
qed

lemma search_chunk_transparent:
  "search_chunk s f n budget at bs = (r, b, s') \<Longrightarrow>
   (\<exists>e. r = ProbeIoError e) \<or> search_chunk [] f n budget at bs = (r, b, [])"
proof (induction bs arbitrary: s budget at)
  case (Cons x bs)
  show ?case
  proof (cases "length (x # bs) < 4 \<or> GetLe32 (x # bs) \<noteq> kMagic")
    case True
    then show ?thesis using Cons by (auto split: if_splits)
  next
    case False
    obtain a b1 s1 where p: "ProbeFrameAt s f at n budget = (a, b1, s1)" by (metis prod_cases3)
    show ?thesis
      using Cons.prems Cons.IH [of s1 b1 "at + 1"] ProbeFrameAt_transparent [OF p] False p
      by (cases a) (auto split: probe.splits)
  qed
qed simp

lemma search_chunks_transparent:
  "search_chunks s f at send n budget = (r, s') \<Longrightarrow>
   (\<exists>e. r = ProbeIoError e) \<or> search_chunks [] f at send n budget = (r, [])"
proof (induction s f at send n budget arbitrary: r s' rule: search_chunks.induct)
  case (1 s f at send n budget)
  let ?sz = "min kChunkSize (send - at)"
  show ?case
  proof (cases "at < send \<and> \<not> budget + ?sz > kProbeBudget")
    case False
    then show ?thesis
      using 1(2) by (auto simp: search_chunks.simps [of _ _ at] Let_def)
  next
    case True
    obtain p s1 where p: "PreadAll s f ?sz at = (p, s1)" by force
    show ?thesis
    proof (cases p)
      case (Inl e)
      then show ?thesis
        using 1(2) True p by (auto simp: search_chunks.simps [of s] Let_def)
    next
      case (Inr chunk)
      obtain a b1 s2 where c: "search_chunk s1 f n (budget + ?sz) at chunk = (a, b1, s2)"
        by (metis prod_cases3)
      have rd: "PreadAll [] f ?sz at = (Inr chunk, [])"
        using PreadAll_transparent p Inr by blast
      have "search_chunks s f at send n budget =
          (if a = NoFrame then if ?sz \<le> 3 then (NoFrame, s2)
             else search_chunks s2 f (at + (?sz - 3)) send n b1 else (a, s2))"
        using True p Inr c by (subst search_chunks.simps) (simp add: Let_def split: probe.splits)
      moreover have "search_chunks [] f at send n budget =
          (if a = NoFrame then if ?sz \<le> 3 then (NoFrame, [])
             else search_chunks [] f (at + (?sz - 3)) send n b1 else (a, []))"
        if "search_chunk [] f n (budget + ?sz) at chunk = (a, b1, [])"
        using True rd that by (subst search_chunks.simps) (simp add: Let_def split: probe.splits)
      ultimately show ?thesis
        using 1(2) search_chunk_transparent [OF c] True p Inr c
          1(1) [of ?sz p s1 chunk a "(b1, s2)" b1 s2 r s']
        by (auto split: if_splits)
    qed
  qed
qed

lemma find_last_transparent:
  "find_last_chunks s f at to l = (Inr e, s') \<Longrightarrow> find_last_chunks [] f at to l = (Inr e, [])"
proof (induction s f at to l arbitrary: e s' rule: find_last_chunks.induct)
  case (1 s f at to l)
  let ?sz = "min kChunkSize (to - at)"
  show ?case
  proof (cases "at < to")
    case False
    then show ?thesis using 1(2) by (auto simp: find_last_chunks.simps [of _ _ at])
  next
    case True
    obtain chunk s1 where p: "PreadAll s f ?sz at = (Inr chunk, s1)"
      using 1(2) True by (auto simp: find_last_chunks.simps [of s] Let_def split: prod.splits sum.splits)
    then have "find_last_chunks s1 f (at + kChunkSize) to
        (if chunk_last_non_zero chunk > 0 then at + chunk_last_non_zero chunk else l) = (Inr e, s')"
      using 1(2) True by (simp add: find_last_chunks.simps [of s] Let_def)
    then have "find_last_chunks [] f (at + kChunkSize) to
        (if chunk_last_non_zero chunk > 0 then at + chunk_last_non_zero chunk else l) = (Inr e, [])"
      using 1(1) [OF True refl p [symmetric] refl refl] by blast
    then show ?thesis
      using True PreadAll_transparent [OF p] by (subst find_last_chunks.simps) (simp add: Let_def)
  qed
qed

lemma hop_loop_transparent:
  "hop_loop m s f n h = (r, s') \<Longrightarrow>
   (\<exists>e. r = HopFailed (Some e)) \<or> hop_loop m [] f n h = (r, [])"
proof (induction m s f n h arbitrary: r s' rule: hop_loop.induct)
  case (1 m s f n h)
  show ?case
  proof (cases "\<not> h_at h < n \<or> n - h_at h < kHeaderSize")
    case True
    then show ?thesis using 1(2) by (auto simp: hop_loop.simps [of _ _ _ _ h])
  next
    case False
    obtain p s1 where p: "PreadAll s f kHeaderSize (h_at h) = (p, s1)" by force
    show ?thesis
    proof (cases p)
      case (Inl e)
      then show ?thesis using 1(2) False p by (auto simp: hop_loop.simps [of _ s])
    next
      case (Inr hd)
      have rd: "PreadAll [] f kHeaderSize (h_at h) = (Inr hd, [])"
        using PreadAll_transparent p Inr by blast
      note ih = 1(1) [OF _ _ p [symmetric] Inr refl refl refl, of r s']
      show ?thesis
        using 1(2) False p Inr rd ih
        by (auto simp: hop_loop.simps [of _ s] hop_loop.simps [of _ "[]" _ _ h] Let_def
            split: if_splits)
    qed
  qed
qed

lemma scan_begin_transparent:
  assumes "scan_begin m s f n = (Inr c, s')"
  shows "scan_begin m [] f n = (Inr c, [])"
proof (cases "m = 0")
  case True
  then show ?thesis using assms by (simp add: scan_begin_def)
next
  case False
  obtain r s1 where r: "hop_loop m s f n hop_start = (r, s1)" by force
  show ?thesis
  proof (cases r)
    case (HopFailed e)
    then show ?thesis
      using assms False r hop_loop_transparent [OF r]
      by (auto simp: scan_begin_def HopCoveredFrames_def split: option.splits)
  next
    case (Hopped h)
    have clean: "hop_loop m [] f n hop_start = (Hopped h, [])"
      using hop_loop_transparent [OF r] Hopped by simp
    show ?thesis
    proof (cases "h_guard h")
      case None
      then show ?thesis
        using assms False r Hopped clean by (simp add: scan_begin_def HopCoveredFrames_def)
    next
      case (Some g)
      obtain go gs gh where g: "g = (go, gs, gh)" by (cases g)
      obtain p s2 where p: "PreadAll s1 f gs (go + kHeaderSize) = (p, s2)" by force
      then obtain pl where pl: "p = Inr pl"
        using assms False r Hopped Some g
        by (cases p) (auto simp: scan_begin_def HopCoveredFrames_def)
      have "PreadAll [] f gs (go + kHeaderSize) = (Inr pl, [])"
        using PreadAll_transparent p pl by blast
      then show ?thesis
        using assms False r Hopped clean Some g p pl
        by (auto simp: scan_begin_def HopCoveredFrames_def split: if_splits)
    qed
  qed
qed

text \<open>One turn of the frame loop, once the header and the payload are read.\<close>

lemma scan_loop_frame:
  assumes "PreadAll s f kHeaderSize (c_offset c) = (Inr header, s1)"
    and "PreadAll s1 f (header_payload_size header) (c_offset c + kHeaderSize) = (Inr payload, s2)"
    and "header_anomaly header = None"
    and "c_offset c + kHeaderSize + header_payload_size header \<le> n"
  shows "scan_loop unpack m s f n c =
    (let epoch = header_epoch header;
         frame_end = c_offset c + kHeaderSize + header_payload_size header
     in if frame_crc header payload \<noteq> header_crc header
        then (StopAt (Some ChecksumMismatch) (Some frame_end) c, s2)
        else if c_have_frame c \<and> epoch < c_frontier c then (StopCorrupt EpochRegressed, s2)
        else if epoch = 0 then (StopCorrupt EpochIsZero, s2)
        else if epoch \<le> m
        then scan_loop unpack m s2 f n
               (c\<lparr>c_frames_skipped := c_frames_skipped c + 1,
                  c_bytes_skipped := c_bytes_skipped c + kHeaderSize + header_payload_size header,
                  c_frontier := epoch, c_have_frame := True, c_offset := frame_end\<rparr>)
        else case decode_payload unpack epoch payload of
               Inl d \<Rightarrow> (StopCorrupt d, s2)
             | Inr decoded \<Rightarrow>
                 scan_loop unpack m s2 f n
                   (c\<lparr>c_records := c_records c @ decoded,
                      c_frontier := epoch, c_have_frame := True, c_offset := frame_end\<rparr>))"
proof -
  have "c_offset c < n" "\<not> n - c_offset c < kHeaderSize"
    using assms(4) by (auto simp: kHeaderSize_def)
  then show ?thesis
    using assms by (subst scan_loop.simps) (simp add: Let_def)
qed

lemma scan_loop_transparent:
  "scan_loop unpack m s f n c = (r, s') \<Longrightarrow>
   (\<exists>op e. r = StopIo op e) \<or> scan_loop unpack m [] f n c = (r, [])"
proof (induction unpack m s f n c arbitrary: r s' rule: scan_loop.induct)
  case (1 unpack m s f n c)
  show ?case
  proof (cases "\<not> c_offset c < n \<or> n - c_offset c < kHeaderSize")
    case True
    then show ?thesis using 1(3) by (auto simp: scan_loop.simps [of _ _ _ _ _ c])
  next
    case False
    obtain p s1 where p: "PreadAll s f kHeaderSize (c_offset c) = (p, s1)" by force
    show ?thesis
    proof (cases p)
      case (Inl e)
      then show ?thesis using 1(3) False p by (auto simp: scan_loop.simps [of _ _ s])
    next
      case (Inr hd)
      have rd: "PreadAll [] f kHeaderSize (c_offset c) = (Inr hd, [])"
        using PreadAll_transparent p Inr by blast
      show ?thesis
      proof (cases "header_anomaly hd \<noteq> None \<or> c_offset c + kHeaderSize + header_payload_size hd > n")
        case True
        then show ?thesis
          using 1(3) False p Inr rd
          by (auto simp: scan_loop.simps [of _ _ s] scan_loop.simps [of _ _ "[]" _ _ c] Let_def
            split: if_splits option.splits)
      next
        case plain: False
        obtain q s2 where q: "PreadAll s1 f (header_payload_size hd) (c_offset c + kHeaderSize) = (q, s2)"
          by force
        show ?thesis
        proof (cases q)
          case (Inl e)
          then show ?thesis using 1(3) False p Inr q plain
            by (auto simp: scan_loop.simps [of _ _ s] Let_def)
        next
          case pl: (Inr pl)
          have rq: "PreadAll [] f (header_payload_size hd) (c_offset c + kHeaderSize) = (Inr pl, [])"
            using PreadAll_transparent q pl by blast
          have ha: "header_anomaly hd = None" and
            ng: "\<not> c_offset c + kHeaderSize + header_payload_size hd > n" using plain by auto
          note ih = 1(1) [OF _ _ p [symmetric] Inr ha refl refl refl ng q [symmetric] pl, of r s']
            1(2) [OF _ _ p [symmetric] Inr ha refl refl refl ng q [symmetric] pl, of _ r s']
          show ?thesis
            using 1(3) False p Inr rd q pl rq ih ha ng
            by (auto simp: scan_loop.simps [of _ _ s] scan_loop.simps [of _ _ "[]" _ _ c] Let_def
              split: if_splits sum.splits)
        qed
      qed
    qed
  qed
qed

lemma WriteZeroesAndSync_transparent:
  assumes "WriteZeroesAndSync io f from to = (None, f', io')" "io_initialise_pwrite io2 = []"
    "io_fsync io2 = []"
  shows "WriteZeroesAndSync io2 f from to = (None, f', io2)"
proof (cases "to \<le> from")
  case False
  have "f' = patch f from (replicate (to - from) 0)"
    using WriteZeroesAndSync_effect [OF assms(1)] by auto
  then show ?thesis
    using assms(2,3) False by (simp add: WriteZeroesAndSync_def zero_chunks_clean)
qed (use assms in \<open>simp add: WriteZeroesAndSync_def\<close>)

definition clean_io :: wal_io where
  "clean_io = \<lparr>io_pwrite = [], io_fdatasync = [], io_initialise_pwrite = [], io_pread = [],
               io_fsync = [], io_fstat = []\<rparr>"

text \<open>The same instance on a system whose calls all answer in full.\<close>

definition fault_free :: "wal \<Rightarrow> wal" where
  "fault_free w = w\<lparr>w_io := clean_io\<rparr>"

lemma fault_free_simps [simp]:
  "w_file (fault_free w) = w_file w" "w_io (fault_free w) = clean_io"
  "w_initial_capacity_bytes (fault_free w) = w_initial_capacity_bytes w"
  "w_state (fault_free w) = w_state w" "w_write_offset (fault_free w) = w_write_offset w"
  "w_frontier (fault_free w) = w_frontier w" "w_initialised_size (fault_free w) = w_initialised_size w"
  "fault_free (fault_free w) = fault_free w" "io_pread clean_io = []" "io_fstat clean_io = []"
  "io_initialise_pwrite clean_io = []" "io_fsync clean_io = []" "io_pwrite clean_io = []"
  "io_fdatasync clean_io = []"
  "fault_free (set_pread w s) = fault_free w" "w_file (set_pread w s) = w_file w"
  "set_pread (fault_free w) [] = fault_free w" "clean_io\<lparr>io_fstat := []\<rparr> = clean_io"
  "io_pread (w_io (set_pread w s)) = s" "set_pread (set_pread w s) s' = set_pread w s'"
  by (simp_all add: fault_free_def set_pread_def clean_io_def)

lemma EnsureCapacityFor_transparent:
  assumes "EnsureCapacityFor w e g = (None, w')"
  shows "EnsureCapacityFor (fault_free w) e g = (None, fault_free w')"
proof -
  show ?thesis
  proof (cases "capacity_plan (of_nat e) (of_nat g) (of_nat (w_initialised_size w))
             (of_nat (w_initial_capacity_bytes w))")
    case (ExtendTo t)
    obtain f io where z: "WriteZeroesAndSync (w_io w) (w_file w) (w_initialised_size w) (unat t)
        = (None, f, io)"
      using assms ExtendTo by (auto simp: EnsureCapacityFor_def split: option.splits prod.splits)
    have "WriteZeroesAndSync clean_io (w_file w) (w_initialised_size w) (unat t) = (None, f, clean_io)"
      by (rule WriteZeroesAndSync_transparent [OF z]) simp_all
    then show ?thesis
      using assms ExtendTo z by (simp add: EnsureCapacityFor_def) (auto simp: fault_free_def)
  qed (use assms in \<open>auto simp: EnsureCapacityFor_def\<close>)
qed

lemma FinishScan_transparent:
  assumes "FinishScan w r e = (res, w')"
  shows "sr_status res = ScanIoError \<or> FinishScan (fault_free w) r e = (res, fault_free w')"
proof -
  obtain x w1 where c: "EnsureCapacityFor w e 0 = (x, w1)" by force
  show ?thesis
  proof (cases x)
    case None
    then show ?thesis
      using assms c EnsureCapacityFor_transparent [of w e 0 w1]
      by (auto simp: FinishScan_def fault_free_def)
  qed (use assms c in \<open>auto simp: FinishScan_def IoFailure_def\<close>)
qed

lemma fault_free_update [simp]:
  "fault_free (w\<lparr>w_file := f, w_io := io\<rparr>) = (fault_free w)\<lparr>w_file := f\<rparr>"
  "(fault_free w)\<lparr>w_file := f, w_io := clean_io\<rparr> = (fault_free w)\<lparr>w_file := f\<rparr>"
  "fault_free (w\<lparr>w_state := st\<rparr>) = (fault_free w)\<lparr>w_state := st\<rparr>"
  "fault_free ((fault_free w)\<lparr>w_file := f\<rparr>) = (fault_free w)\<lparr>w_file := f\<rparr>"
  by (simp_all add: fault_free_def set_pread_def)

lemma repair_tail_transparent:
  assumes "repair_tail w a broken off n = r"
  shows "(\<exists>res w'. r = Inl (res, w') \<and> sr_status res = ScanIoError) \<or>
    repair_tail (fault_free w) a broken off n = map_sum (apsnd fault_free) (apsnd fault_free) r"
proof -
  obtain x s1 where fl: "FindLastNonZero (io_pread (w_io w)) (w_file w) off n = (x, s1)" by force
  show ?thesis
  proof (cases x)
    case (Inl e)
    then show ?thesis using assms fl by (auto simp: repair_tail_def IoFailure_def)
  next
    case (Inr last)
    have fl': "FindLastNonZero [] (w_file w) off n = (Inr last, [])"
      using fl Inr find_last_transparent by (simp add: FindLastNonZero_def)
    show ?thesis
    proof (cases "off < last \<and> \<not> (case broken of None \<Rightarrow> False | Some e \<Rightarrow> last > e)")
      case False
      then show ?thesis
        using assms fl Inr fl' by (auto simp: repair_tail_def Corrupt_def Let_def)
    next
      case True
      obtain p s2 where se: "SearchForFrameAfter s1 (w_file w) off last n = (p, s2)" by force
      have se': "(\<exists>e. p = ProbeIoError e) \<or> SearchForFrameAfter [] (w_file w) off last n = (p, [])"
        using se search_chunks_transparent by (simp add: SearchForFrameAfter_def)
      obtain y f io where z: "WriteZeroesAndSync (w_io (set_pread w s2)) (w_file w) off last = (y, f, io)"
        by (metis prod_cases3)
      have z': "y = None \<Longrightarrow> WriteZeroesAndSync clean_io (w_file w) off last = (None, f, clean_io)"
        using WriteZeroesAndSync_transparent [of _ _ _ _ f io clean_io] z by auto
      show ?thesis
        using assms fl Inr fl' True se se' z z'
        by (cases p; cases y)
           (auto simp: repair_tail_def Corrupt_def IoFailure_def Let_def simp flip: fault_free_def)
    qed
  qed
qed

lemma scan_finish_transparent:
  assumes "scan_finish w a broken c n = (res, w')"
  shows "sr_status res = ScanIoError \<or>
    scan_finish (fault_free w) a broken c n = (res, fault_free w')"
proof (cases a)
  case None
  then show ?thesis
    using assms FinishScan_transparent by (simp add: scan_finish_def Let_def)
next
  case (Some an)
  show ?thesis
  proof (cases "repair_tail w an broken (c_offset c) n")
    case (Inl x)
    then show ?thesis
      using assms Some repair_tail_transparent [OF Inl] by (auto simp: scan_finish_def)
  next
    case (Inr x)
    then show ?thesis
      using assms Some repair_tail_transparent [OF Inr]
      by (cases x) (auto simp: scan_finish_def Let_def dest: FinishScan_transparent)
  qed
qed

lemma ScanAndRepair_transparent:
  assumes "ScanAndRepair unpack w m = (res, w')"
  shows "sr_status res = ScanIoError \<or>
    ScanAndRepair unpack (fault_free w) m = (res, fault_free w')"
proof (cases "w_state w = Failed \<or> fst (sys_call (io_fstat (w_io w))) \<noteq> None")
  case True
  then show ?thesis
    using assms by (auto simp: ScanAndRepair_def IoFailure_def split: prod.splits option.splits)
next
  case False
  obtain fs where fs: "sys_call (io_fstat (w_io w)) = (None, fs)"
    using False by (cases "sys_call (io_fstat (w_io w))") auto
  define n where "n = length (w_file w)"
  define w0 where "w0 = w\<lparr>w_io := (w_io w)\<lparr>io_fstat := fs\<rparr>,
      w_initialised_size := max (w_initialised_size w) n\<rparr>"
  have ff: "(fault_free w)\<lparr>w_io := clean_io, w_initialised_size := max (w_initialised_size w) n\<rparr>
      = fault_free w0" "w_file w0 = w_file w"
    by (simp_all add: w0_def fault_free_def)
  obtain b s1 where b: "scan_begin m (io_pread (w_io w)) (w_file w) n = (b, s1)" by force
  show ?thesis
  proof (cases b)
    case (Inl x)
    then show ?thesis
      using assms False fs b by (cases x) (auto simp: ScanAndRepair_def IoFailure_def Let_def
          n_def [symmetric])
  next
    case (Inr c0)
    have b': "scan_begin m [] (w_file w) n = (Inr c0, [])"
      using scan_begin_transparent b Inr by blast
    obtain r s2 where l: "scan_loop unpack m s1 (w_file w) n c0 = (r, s2)" by force
    have l': "(\<exists>op e. r = StopIo op e) \<or> scan_loop unpack m [] (w_file w) n c0 = (r, [])"
      using scan_loop_transparent [OF l] .
    have eqs: "ScanAndRepair unpack w m = (case r of StopCorrupt d \<Rightarrow> Corrupt (set_pread w0 s2) d
      | StopIo operation e \<Rightarrow> IoFailure (set_pread w0 s2) operation e
      | StopAt a broken c \<Rightarrow> scan_finish (set_pread w0 s2) a broken c n)"
      using False fs b Inr l
      by (cases r) (simp_all add: ScanAndRepair_def Let_def n_def [symmetric] w0_def)
    moreover have "ScanAndRepair unpack (fault_free w) m = (case r of
        StopCorrupt d \<Rightarrow> Corrupt (fault_free w0) d
      | StopIo operation e \<Rightarrow> IoFailure (fault_free w0) operation e
      | StopAt a broken c \<Rightarrow> scan_finish (fault_free w0) a broken c n)"
      if "scan_loop unpack m [] (w_file w) n c0 = (r, [])"
      using False b' that ff by (cases r) (simp_all add: ScanAndRepair_def Let_def n_def [symmetric])
    ultimately show ?thesis
      using assms l' scan_finish_transparent [of "set_pread w0 s2" _ _ _ n res w']
      by (cases r) (auto simp: Corrupt_def IoFailure_def)
  qed
qed

lemma FinishScan_state:
  "FinishScan w r e = (res, w') \<Longrightarrow> sr_status r = ScanOk \<Longrightarrow>
   w_state w' = (if sr_status res = ScanOk then Ready else Failed)"
  by (auto simp: FinishScan_def IoFailure_def split: prod.splits option.splits)

lemma repair_tail_state:
  "repair_tail w a broken off n = Inl (res, w') \<Longrightarrow> sr_status res \<noteq> ScanOk \<and> w_state w' = Failed"
  by (auto simp: repair_tail_def IoFailure_def Corrupt_def Let_def
      split: prod.splits option.splits sum.splits probe.splits if_splits)

lemma ScanAndRepair_state:
  assumes "ScanAndRepair unpack w m = (res, w')"
  shows "w_state w' = (if sr_status res = ScanOk then Ready else Failed)"
proof -
  have "w_state w2 = (if sr_status r2 = ScanOk then Ready else Failed)"
    if "scan_finish w1 a broken c n = (r2, w2)" for w1 a broken c n r2 w2
    using that by (auto simp: scan_finish_def Let_def WalScanResult_default_def
        split: option.splits sum.splits dest!: FinishScan_state repair_tail_state)
  then show ?thesis
    using assms by (auto simp: ScanAndRepair_def IoFailure_def Corrupt_def Let_def
        split: if_splits prod.splits option.splits sum.splits scan_stop.splits)
qed

text \<open>C21. I/O faults never change what a scan answers. Whatever short transfers, interruptions and
  failures the system calls return, \<open>ScanAndRepair\<close> either reports an I/O error or returns the result,
  and leaves the log and the instance, that a fault-free run would; an instance that did not report
  success refuses further use.\<close>

theorem scan_faults_never_change_answer:
  "let (res, w') = ScanAndRepair unpack w min_epoch
   in (sr_status res = ScanIoError
        \<or> ScanAndRepair unpack (fault_free w) min_epoch = (res, fault_free w'))
      \<and> w_state w' = (if sr_status res = ScanOk then Ready else Failed)"
  using ScanAndRepair_transparent ScanAndRepair_state by (auto split: prod.splits)

end
