(* ===== verification/WalSearch.thy ===== *)
theory WalSearch
  imports WalFaults
begin

text \<open>
  What the searches past a damaged tail establish: an answer \<open>NoFrame\<close> means that no intact frame
  begins in the searched region, and \<open>FindLastNonZero\<close> returns the end of the non-zero bytes.
\<close>

section \<open>Intact frames\<close>

text \<open>A complete frame at an offset of a file whose checksum holds: what \<open>ProbeFrameAt\<close> looks for.\<close>

definition frame_header_at :: "bytes \<Rightarrow> nat \<Rightarrow> bytes" where
  "frame_header_at f off = take kHeaderSize (drop off f)"

definition frame_payload_at :: "bytes \<Rightarrow> nat \<Rightarrow> bytes" where
  "frame_payload_at f off =
     take (header_payload_size (frame_header_at f off)) (drop (off + kHeaderSize) f)"

definition intact_frame :: "bytes \<Rightarrow> nat \<Rightarrow> bool" where
  "intact_frame f off \<longleftrightarrow>
     off + kHeaderSize \<le> length f \<and> header_anomaly (frame_header_at f off) = None \<and>
     header_epoch (frame_header_at f off) \<noteq> 0 \<and> header_payload_size (frame_header_at f off) \<noteq> 0 \<and>
     off + kHeaderSize + header_payload_size (frame_header_at f off) \<le> length f \<and>
     frame_crc (frame_header_at f off) (frame_payload_at f off) = header_crc (frame_header_at f off)"

lemma header_anomaly_None:
  "header_anomaly h = None \<longleftrightarrow> header_magic h = kMagic \<and> header_version h = kVersion \<and>
     header_flags h = kFlags \<and> header_payload_size h \<le> kMaxPayloadSize"
  by (auto simp: header_anomaly_def)

lemma intact_frame_magic: "intact_frame f off \<Longrightarrow> GetLe32 (drop off f) = kMagic"
  by (simp add: intact_frame_def header_anomaly_None header_magic_def frame_header_at_def
      kHeaderSize_def GetLe32_take)

section \<open>Probing\<close>

lemma Crc32c_Update_append: "Crc32c_Update (Crc32c_Update c a) b = Crc32c_Update c (a @ b)"
  by (simp add: Crc32c_Update_def UpdateWithTable_serial serial_update_append)

lemma probe_payload_answer:
  assumes "probe_payload [] f at remaining budget crc stored = (r, b, s)" "at + remaining \<le> length f"
  shows "r = Undecidable \<or>
    r = (if Crc32c_Finish (Crc32c_Update crc (take remaining (drop at f))) = stored
         then Frame else NoFrame)"
  using assms
proof (induction "[] :: io_script" f at remaining budget crc stored arbitrary: r b s
    rule: probe_payload.induct)
  case (1 f at remaining budget crc stored)
  let ?sz = "min kChunkSize remaining"
  show ?case
  proof (cases "remaining = 0 \<or> budget + ?sz > kProbeBudget")
    case True
    then show ?thesis
      using 1(2) by (auto simp: probe_payload.simps Crc32c_Update_def Let_def split: if_splits)
  next
    case False
    have rd: "PreadAll [] f ?sz at = (Inr (take ?sz (drop at f)), [])"
      using 1(3) by (intro PreadAll_clean) simp
    then have eq: "probe_payload [] f (at + ?sz) (remaining - ?sz) (budget + ?sz)
        (Crc32c_Update crc (take ?sz (drop at f))) stored = (r, b, s)"
      using 1(2) False by (subst (asm) probe_payload.simps) (simp add: Let_def)
    have "take remaining (drop at f) =
        take ?sz (drop at f) @ take (remaining - ?sz) (drop (at + ?sz) f)"
      using take_add [of ?sz "remaining - ?sz" "drop at f"] by (simp add: add.commute)
    moreover have "at + ?sz + (remaining - ?sz) \<le> length f" using 1(3) by simp
    ultimately show ?thesis
      using 1(1) [OF _ refl _ rd [symmetric] refl eq] False
      by (simp add: Crc32c_Update_append)
  qed
qed

lemma ProbeFrameAt_answer:
  assumes "ProbeFrameAt [] f off (length f) budget = (r, b, s)"
  shows "r = Undecidable \<or> r = (if intact_frame f off then Frame else NoFrame)"
proof (cases "length f < off + kHeaderSize \<or> budget + kHeaderSize > kProbeBudget")
  case True
  then show ?thesis using assms by (auto simp: ProbeFrameAt_def intact_frame_def split: if_splits)
next
  case False
  define h where "h = frame_header_at f off"
  define ps where "ps = header_payload_size h"
  have rd: "PreadAll [] f kHeaderSize off = (Inr h, [])"
    using False PreadAll_clean [of off kHeaderSize f] by (simp add: h_def frame_header_at_def)
  show ?thesis
  proof (cases "header_anomaly h = None \<and> header_epoch h \<noteq> 0 \<and> ps \<noteq> 0 \<and>
      off + kHeaderSize + ps \<le> length f")
    case bad: False
    then have "\<not> intact_frame f off"
      by (auto simp: intact_frame_def h_def [symmetric] ps_def [symmetric])
    moreover have "r = NoFrame"
      using assms rd False bad
      by (auto simp: ProbeFrameAt_def header_anomaly_None ps_def [symmetric] Let_def split: if_splits)
    ultimately show ?thesis by simp
  next
    case True
    then have "probe_payload [] f (off + kHeaderSize) ps (budget + kHeaderSize)
        (Crc32c_Update Crc32c_init (take 16 h)) (header_crc h) = (r, b, s)"
      using assms rd False
      by (simp add: ProbeFrameAt_def header_anomaly_None ps_def [symmetric] Let_def)
    moreover have "intact_frame f off \<longleftrightarrow> Crc32c_Finish (Crc32c_Update
        (Crc32c_Update Crc32c_init (take 16 h)) (take ps (drop (off + kHeaderSize) f))) = header_crc h"
      using True by (simp add: intact_frame_def h_def [symmetric] ps_def [symmetric]
          frame_payload_at_def frame_crc_def)
    ultimately show ?thesis
      using probe_payload_answer True by fastforce
  qed
qed

section \<open>Searching\<close>

lemma search_chunk_NoFrame:
  assumes "search_chunk [] f (length f) budget at bs = (NoFrame, b, s)"
    and "i + 4 \<le> length bs" "GetLe32 (drop i bs) = kMagic"
  shows "\<not> intact_frame f (at + i)"
  using assms
proof (induction bs arbitrary: budget at i)
  case (Cons x bs)
  obtain a b1 s1 where p: "ProbeFrameAt [] f at (length f) budget = (a, b1, s1)"
    by (metis prod_cases3)
  have ans: "a = Undecidable \<or> a = (if intact_frame f at then Frame else NoFrame)"
    using ProbeFrameAt_answer [OF p] .
  have s1: "a = NoFrame \<Longrightarrow> s1 = []"
    using ProbeFrameAt_transparent [OF p] p by auto
  show ?case
  proof (cases i)
    case 0
    then show ?thesis using Cons.prems p ans by (auto split: if_splits)
  next
    case (Suc j)
    then show ?thesis
      using Cons.prems Cons.IH [of _ "at + 1" j] p s1 by (auto split: if_splits probe.splits)
  qed
qed simp

lemma search_chunks_NoFrame:
  assumes "search_chunks [] f at send (length f) budget = (NoFrame, s)" "send \<le> length f"
    and "at \<le> off" "off + 4 \<le> send"
  shows "\<not> intact_frame f off"
  using assms
proof (induction "[] :: io_script" f at send "length f" budget arbitrary: s
    rule: search_chunks.induct)
  case (1 f at send budget)
  let ?sz = "min kChunkSize (send - at)"
  have lt: "at < send" and bud: "\<not> budget + ?sz > kProbeBudget"
    using 1(2,4,5) by (auto simp: search_chunks.simps [of _ _ at] Let_def split: if_splits)
  have rd: "PreadAll [] f ?sz at = (Inr (take ?sz (drop at f)), [])"
    using 1(3) lt by (intro PreadAll_clean) auto
  obtain a b1 s1 where c: "search_chunk [] f (length f) (budget + ?sz) at (take ?sz (drop at f)) = (a, b1, s1)"
    by (metis prod_cases3)
  have a: "a = NoFrame"
    using 1(2) lt bud rd c by (auto simp: search_chunks.simps [of _ _ at] Let_def split: probe.splits)
  have s1: "s1 = []" using search_chunk_transparent [OF c] a c by auto
  show ?case
  proof (cases "off + 4 \<le> at + ?sz")
    case True
    then have "off - at + 4 \<le> length (take ?sz (drop at f))" using 1(3,4) by auto
    moreover have "GetLe32 (drop (off - at) (take ?sz (drop at f))) = GetLe32 (drop off f)"
      using True 1(4) by (simp add: drop_take GetLe32_take)
    ultimately show ?thesis
      using search_chunk_NoFrame [OF c [unfolded a], of "off - at"] intact_frame_magic [of f off] 1(4)
      by auto
  next
    case False
    then have sz: "?sz = kChunkSize" "\<not> ?sz \<le> 3" using 1(4,5) by (auto simp: kChunkSize_def)
    then have "search_chunks [] f (at + (?sz - 3)) send (length f) b1 = (NoFrame, s)"
      using 1(2) lt bud rd c a s1 by (subst (asm) search_chunks.simps) (simp add: Let_def)
    moreover have "at + (?sz - 3) \<le> off" using False sz by linarith
    ultimately show ?thesis
      using 1(1) [OF lt refl bud rd [symmetric] refl c [symmetric, unfolded a s1] refl refl sz(2)]
        1(3,5) by blast
  qed
qed

text \<open>A search through bytes that hold no magic ends with \<open>NoFrame\<close> within the budget.\<close>

lemma search_chunk_no_magic:
  "(\<forall>i. i + 4 \<le> length bs \<longrightarrow> GetLe32 (drop i bs) \<noteq> kMagic) \<Longrightarrow>
   search_chunk s f n budget at bs = (NoFrame, budget, s)"
proof (induction bs arbitrary: at)
  case (Cons x bs)
  have "GetLe32 (drop i bs) \<noteq> kMagic" if "i + 4 \<le> length bs" for i
    using Cons.prems [rule_format, of "Suc i"] that by simp
  then show ?case
    using Cons.IH [of "at + 1"] Cons.prems [rule_format, of 0] by auto
qed simp

lemma search_chunks_no_magic:
  assumes "send \<le> length f"
    and "\<forall>off. at \<le> off \<and> off + 4 \<le> send \<longrightarrow> GetLe32 (drop off f) \<noteq> kMagic"
    and "budget + (if send - at \<le> 3 then send - at else 2 * (send - at)) \<le> kProbeBudget"
  shows "search_chunks [] f at send n budget = (NoFrame, [])"
  using assms
proof (induction "send - at" arbitrary: at budget rule: less_induct)
  case less
  show ?case
  proof (cases "at < send")
    case True
    define sz where "sz = min kChunkSize (send - at)"
    have sz: "sz \<le> send - at" "0 < sz" "sz = send - at \<or> 6 \<le> sz"
      using True by (auto simp: sz_def kChunkSize_def)
    have bud: "\<not> budget + sz > kProbeBudget"
      using less.prems(3) sz(1) by (auto split: if_splits)
    have rd: "PreadAll [] f sz at = (Inr (take sz (drop at f)), [])"
      using less.prems(1) sz by (intro PreadAll_clean) auto
    have "GetLe32 (drop i (take sz (drop at f))) \<noteq> kMagic"
      if "i + 4 \<le> length (take sz (drop at f))" for i
      using less.prems(2) [rule_format, of "at + i"] that sz(1) True
      by (auto simp: drop_take GetLe32_take add.commute)
    then have c: "search_chunk [] f n (budget + sz) at (take sz (drop at f)) = (NoFrame, budget + sz, [])"
      by (intro search_chunk_no_magic) blast
    have "search_chunks [] f (at + (sz - 3)) send n (budget + sz) = (NoFrame, [])" if "\<not> sz \<le> 3"
      using that sz less.prems by (intro less.hyps) (auto split: if_splits)
    then show ?thesis
      using True bud rd c by (subst search_chunks.simps) (simp add: sz_def [symmetric] Let_def)
  qed (simp add: search_chunks.simps)
qed

section \<open>The last byte that is not zero\<close>

lemma chunk_last_non_zero_simps [simp]:
  "chunk_last_non_zero [] = 0"
  "chunk_last_non_zero (xs @ [x]) = (if x = 0 then chunk_last_non_zero xs else Suc (length xs))"
  by (simp_all add: chunk_last_non_zero_def)

lemma chunk_last_non_zero_le: "chunk_last_non_zero bs \<le> length bs"
  by (induction bs rule: rev_induct) auto

lemma chunk_last_non_zero_after:
  "chunk_last_non_zero bs \<le> i \<Longrightarrow> i < length bs \<Longrightarrow> bs ! i = 0"
  by (induction bs rule: rev_induct) (auto simp: nth_append less_Suc_eq split: if_splits)

lemma chunk_last_non_zero_at:
  "0 < chunk_last_non_zero bs \<Longrightarrow> bs ! (chunk_last_non_zero bs - 1) \<noteq> 0"
proof (induction bs rule: rev_induct)
  case (snoc x xs)
  show ?case
  proof (cases "x = 0")
    case True
    then have "0 < chunk_last_non_zero xs" using snoc.prems by simp
    moreover from this have "chunk_last_non_zero xs - 1 < length xs"
      using chunk_last_non_zero_le [of xs] by linarith
    ultimately show ?thesis using True snoc.IH by (simp add: nth_append)
  qed simp
qed simp

lemma chunk_of_file:
  assumes "at + sz \<le> length f" "k = chunk_last_non_zero (take sz (drop at f))"
  shows "k \<le> sz" "\<And>i. at + k \<le> i \<Longrightarrow> i < at + sz \<Longrightarrow> f ! i = 0"
    "0 < k \<Longrightarrow> f ! (at + k - 1) \<noteq> 0"
proof -
  let ?c = "take sz (drop at f)"
  have len: "length ?c = sz" using assms(1) by simp
  then show k: "k \<le> sz" using chunk_last_non_zero_le [of ?c] assms(2) by simp
  show "f ! i = 0" if "at + k \<le> i" "i < at + sz" for i
    using chunk_last_non_zero_after [of ?c "i - at"] that assms len by simp
  show "f ! (at + k - 1) \<noteq> 0" if "0 < k"
    using chunk_last_non_zero_at [of ?c] that assms k by simp
qed

lemma find_last_chunks_answer:
  assumes "find_last_chunks [] f at to l = (Inr e, s)" "to \<le> length f"
    and "l \<le> at" "\<And>i. l \<le> i \<Longrightarrow> i < at \<Longrightarrow> i < to \<Longrightarrow> f ! i = 0"
  shows "l \<le> e \<and> (e \<noteq> l \<longrightarrow> e \<le> to \<and> at < e \<and> f ! (e - 1) \<noteq> 0) \<and> (\<forall>i. e \<le> i \<and> i < to \<longrightarrow> f ! i = 0)"
  using assms
proof (induction "[] :: io_script" f at to l arbitrary: e s rule: find_last_chunks.induct)
  case (1 f at to l)
  show ?case
  proof (cases "at < to")
    case False
    then show ?thesis using 1(2,4,5) by (auto simp: find_last_chunks.simps [of _ _ at])
  next
    case True
    define sz where "sz = min kChunkSize (to - at)"
    define chunk where "chunk = take sz (drop at f)"
    define k where "k = chunk_last_non_zero chunk"
    define l' where "l' = (if k > 0 then at + k else l)"
    have sz: "sz \<le> to - at" "at + sz \<le> to" using True by (auto simp: sz_def)
    have rd: "PreadAll [] f sz at = (Inr chunk, [])"
      using sz True 1(3) PreadAll_clean [of at sz f] by (simp add: chunk_def)
    have "at + sz \<le> length f" using sz 1(3) by simp
    note k = chunk_of_file [OF this k_def [unfolded chunk_def]]
    have rec: "find_last_chunks [] f (at + kChunkSize) to l' = (Inr e, s)"
      using 1(2) True rd
      by (subst (asm) find_last_chunks.simps) (simp add: sz_def [symmetric] k_def l'_def Let_def split: if_splits)
    have "sz = kChunkSize \<or> at + sz = to" using True by (auto simp: sz_def)
    then have z: "f ! i = 0" if "l' \<le> i" "i < at + kChunkSize" "i < to" for i
      using that 1(5) [of i] k(2) [of i] by (cases "i < at") (auto simp: l'_def split: if_splits)
    have "l' \<le> at + kChunkSize" using k(1) 1(4) by (auto simp: l'_def sz_def)
    then have "l' \<le> e \<and> (e \<noteq> l' \<longrightarrow> e \<le> to \<and> at + kChunkSize < e \<and> f ! (e - 1) \<noteq> 0) \<and>
        (\<forall>i. e \<le> i \<and> i < to \<longrightarrow> f ! i = 0)"
      using 1(1) [OF True sz_def _ _ _ _ 1(3), of "Inr chunk" chunk k e s] rd rec z
      by (simp add: k_def l'_def)
    then show ?thesis
      using k(1,3) sz 1(4) by (auto simp: l'_def split: if_splits)
  qed
qed

lemma FindLastNonZero_answer:
  assumes "FindLastNonZero [] f from to = (Inr e, s)" "to \<le> length f"
  shows "from \<le> e" "e \<noteq> from \<Longrightarrow> e \<le> to \<and> f ! (e - 1) \<noteq> 0"
    "\<And>i. e \<le> i \<Longrightarrow> i < to \<Longrightarrow> f ! i = 0"
  using find_last_chunks_answer [of f "from" to "from" e s] assms by (auto simp: FindLastNonZero_def)

end
