(* ===== verification/WalCapacity.thy ===== *)
theory WalCapacity
  imports Wal
begin

text \<open>
  The capacity arithmetic of \<open>EnsureCapacityFor\<close> (\<^verbatim>\<open>src/recovery/wal.cpp\<close>): at 64 bits nothing
  wraps, the target is the least whole number of capacity units that holds the group, and \<open>EFBIG\<close>
  is reported exactly when there is none that an \<open>off_t\<close> can address.
\<close>

definition off_t_max :: nat where
  "off_t_max = 9223372036854775807"

text \<open>The same plan over the natural numbers.\<close>

definition capacity_target :: "nat \<Rightarrow> nat \<Rightarrow> nat" where
  "capacity_target needed capacity =
     max 1 (needed div capacity + (if needed mod capacity \<noteq> 0 then 1 else 0)) * capacity"

lemma unat_of_nat_u64: "n < 2 ^ 64 \<Longrightarrow> unat (of_nat n :: u64) = n"
  by (simp add: unat_of_nat take_bit_nat_eq_self_iff take_bit_eq_mod)

lemma of_nat_u64_le: "a < 2 ^ 64 \<Longrightarrow> b < 2 ^ 64 \<Longrightarrow> (of_nat a :: u64) \<le> of_nat b \<longleftrightarrow> a \<le> b"
  by (simp add: word_le_nat_alt unat_of_nat_u64)

lemma of_nat_u64_less: "a < 2 ^ 64 \<Longrightarrow> b < 2 ^ 64 \<Longrightarrow> (of_nat a :: u64) < of_nat b \<longleftrightarrow> a < b"
  by (simp add: word_less_nat_alt unat_of_nat_u64)

lemma of_nat_u64_eq_0: "a < 2 ^ 64 \<Longrightarrow> (of_nat a :: u64) = 0 \<longleftrightarrow> a = 0"
  using unat_of_nat_u64 [of a] by (auto simp: word_unat_eq_iff)

lemma of_nat_u64_div:
  "a < 2 ^ 64 \<Longrightarrow> b < 2 ^ 64 \<Longrightarrow> (of_nat a :: u64) div of_nat b = of_nat (a div b)"
  using unat_of_nat_u64 [OF le_less_trans [OF div_le_dividend [of a b]]]
  by (simp add: word_unat_eq_iff unat_div unat_of_nat_u64)

lemma of_nat_u64_mod:
  "a < 2 ^ 64 \<Longrightarrow> b < 2 ^ 64 \<Longrightarrow> (of_nat a :: u64) mod of_nat b = of_nat (a mod b)"
  using unat_of_nat_u64 [OF le_less_trans [OF mod_less_eq_dividend [of a b]]]
  by (simp add: word_unat_eq_iff unat_mod unat_of_nat_u64)

lemma capacity_target_least:
  assumes "0 < c"
  shows "needed \<le> capacity_target needed c" "c dvd capacity_target needed c"
    "c \<le> capacity_target needed c"
    "\<And>t. c dvd t \<Longrightarrow> 0 < t \<Longrightarrow> needed \<le> t \<Longrightarrow> capacity_target needed c \<le> t"
proof -
  let ?u = "needed div c + (if needed mod c \<noteq> 0 then 1 else 0)"
  have dm: "needed = needed div c * c + needed mod c" by simp
  have "needed < c + needed div c * c" by (rule dividend_less_div_times [OF assms])
  then have "needed \<le> ?u * c" by auto
  also have "\<dots> \<le> capacity_target needed c" by (simp add: capacity_target_def)
  finally show "needed \<le> capacity_target needed c" .
  show "c dvd capacity_target needed c" by (simp add: capacity_target_def)
  show "c \<le> capacity_target needed c" by (simp add: capacity_target_def max_def)
  fix t assume t: "c dvd t" "0 < t" "needed \<le> t"
  then obtain k where k: "t = k * c" "0 < k" by (metis dvd_def gr0I mult.commute mult_0_right)
  have "needed div c \<le> k" using div_le_mono [OF t(3), of c] k assms by simp
  moreover have "k \<noteq> needed div c" if "needed mod c \<noteq> 0"
    using that t(3) k dm by (metis add_le_same_cancel1 le_zero_eq)
  ultimately have "?u \<le> k" by auto
  then show "capacity_target needed c \<le> t"
    using k by (auto simp: capacity_target_def max_def)
qed

lemma off_t_max_u64: "n \<le> off_t_max \<Longrightarrow> n < 2 ^ 64"
  by (simp add: off_t_max_def)

lemma capacity_units_u64:
  assumes "n \<le> off_t_max" "c < 2 ^ 64"
  shows "max 1 (of_nat n div of_nat c + (if of_nat n mod of_nat c \<noteq> (0 :: u64) then 1 else 0)) =
      (of_nat (max 1 (n div c + (if n mod c \<noteq> 0 then 1 else 0))) :: u64)"
proof -
  have n: "n < 2 ^ 64" using assms(1) by (rule off_t_max_u64)
  have m: "n mod c < 2 ^ 64" using n mod_less_eq_dividend [of n c] by (rule le_less_trans [rotated])
  have modz: "(of_nat (n mod c) :: u64) = 0 \<longleftrightarrow> n mod c = 0"
    using m by (rule of_nat_u64_eq_0)
  have mx: "max 1 (of_nat k) = (of_nat (max 1 k) :: u64)" if "k < 2 ^ 64" for k
    using of_nat_u64_le [of 1 k] that by (simp add: max_def)
  have "n div c \<le> off_t_max"
    using div_le_dividend assms(1) by (rule order_trans)
  then have "n div c + 1 < 2 ^ 64" by (simp add: off_t_max_def)
  then have b: "n div c + (if n mod c \<noteq> 0 then 1 else 0) < 2 ^ 64"
    by (auto split: if_splits)
  have "of_nat n div of_nat c + (if of_nat n mod of_nat c \<noteq> (0 :: u64) then 1 else 0) =
      (of_nat (n div c + (if n mod c \<noteq> 0 then 1 else 0)) :: u64)"
    unfolding of_nat_u64_div [OF n assms(2)] of_nat_u64_mod [OF n assms(2)] modz by simp
  then show ?thesis by (simp only: mx [OF b])
qed

lemma capacity_guard_u64:
  assumes "0 < c" "c < 2 ^ 64" "u < 2 ^ 64"
  shows "(of_nat u :: u64) > of_nat off_t_max div of_nat c \<longleftrightarrow> off_t_max < u * c"
proof -
  have b: "off_t_max < 2 ^ 64" by (simp add: off_t_max_def)
  then have d: "off_t_max div c < 2 ^ 64" using div_le_dividend le_less_trans by blast
  have "(of_nat u :: u64) > of_nat off_t_max div of_nat c \<longleftrightarrow> off_t_max div c < u"
    using d b assms by (simp add: of_nat_u64_div of_nat_u64_less)
  also have "\<dots> \<longleftrightarrow> off_t_max < u * c" using assms(1) by (simp add: div_less_iff_less_mult)
  finally show ?thesis .
qed

lemma capacity_plan_nat:
  assumes "e \<le> off_t_max" "i \<le> off_t_max" "g < 2 ^ 64" "c < 2 ^ 64"
  shows "capacity_plan (of_nat e) (of_nat g) (of_nat i) (of_nat c) =
    (if off_t_max < e + g then CapacityOverflow
     else if c = 0 \<or> (e + g \<le> i \<and> c \<le> i) then CapacityEnough
     else if off_t_max < capacity_target (e + g) c then CapacityOverflow
     else if capacity_target (e + g) c \<le> i then CapacityEnough
     else ExtendTo (of_nat (capacity_target (e + g) c)))"
proof -
  define L :: u64 where "L = of_nat off_t_max"
  have L: "(0x7fffffffffffffff :: u64) = L" by (simp add: L_def off_t_max_def)
  have sub: "L - of_nat e = of_nat (off_t_max - e)"
    using assms(1) by (simp add: L_def of_nat_diff)
  have g: "of_nat g > L - of_nat e \<longleftrightarrow> off_t_max < e + g"
    unfolding sub using assms by (subst of_nat_u64_less) (auto simp: off_t_max_def)
  have c0: "(of_nat c :: u64) = 0 \<longleftrightarrow> c = 0"
    using assms(4) by (rule of_nat_u64_eq_0)
  show ?thesis
  proof (cases "off_t_max < e + g \<or> c = 0")
    case True
    then show ?thesis unfolding capacity_plan_def Let_def L g c0 by auto
  next
    case False
    define n where "n = e + g"
    define u where "u = max 1 (n div c + (if n mod c \<noteq> 0 then 1 else 0))"
    have add: "of_nat e + of_nat g = (of_nat n :: u64)" by (simp add: n_def)
    have nL: "n \<le> off_t_max" using False by (simp add: n_def)
    note n64 = off_t_max_u64 [OF nL] and i64 = off_t_max_u64 [OF assms(2)]
    have u: "u < 2 ^ 64"
      using order_trans [OF div_le_dividend nL, of c] by (simp add: u_def max_def off_t_max_def)
    have t: "capacity_target n c = u * c" by (simp add: capacity_target_def u_def)
    have guard: "(of_nat u :: u64) > L div of_nat c \<longleftrightarrow> off_t_max < u * c"
      unfolding L_def using False assms(4) u by (intro capacity_guard_u64) auto
    have le: "(of_nat n :: u64) \<le> of_nat i \<longleftrightarrow> n \<le> i" "(of_nat c :: u64) \<le> of_nat i \<longleftrightarrow> c \<le> i"
      using n64 i64 assms(4) by (simp_all add: of_nat_u64_le)
    have le3: "(of_nat u * of_nat c :: u64) \<le> of_nat i \<longleftrightarrow> u * c \<le> i" if "u * c \<le> off_t_max"
      using of_nat_u64_le [OF off_t_max_u64 [OF that] i64] by simp
    have f: "(off_t_max < e + g) = False" "(c = 0) = False" using False by auto
    have "capacity_plan (of_nat e) (of_nat g) (of_nat i) (of_nat c) =
      (if n \<le> i \<and> c \<le> i then CapacityEnough
       else if off_t_max < u * c then CapacityOverflow
       else if of_nat u * of_nat c \<le> (of_nat i :: u64) then CapacityEnough
       else ExtendTo (of_nat u * of_nat c))"
      unfolding capacity_plan_def Let_def L g c0 add le guard f if_False
        capacity_units_u64 [OF nL assms(4), folded u_def] ..
    also have "\<dots> = (if n \<le> i \<and> c \<le> i then CapacityEnough
       else if off_t_max < u * c then CapacityOverflow
       else if u * c \<le> i then CapacityEnough
       else ExtendTo (of_nat (u * c)))"
      using le3 by auto
    finally show ?thesis
      unfolding n_def [symmetric] t f(2) using nL by auto
  qed
qed

section \<open>The effect on the log\<close>

text \<open>The state fields that capacity work leaves alone.\<close>

definition same_log :: "wal \<Rightarrow> wal \<Rightarrow> bool" where
  "same_log w w' \<longleftrightarrow> w_initial_capacity_bytes w' = w_initial_capacity_bytes w \<and>
     w_state w' = w_state w \<and> w_write_offset w' = w_write_offset w \<and>
     w_frontier w' = w_frontier w \<and> w_extension_count w' = w_extension_count w"

lemma EnsureCapacityFor_effect:
  assumes "EnsureCapacityFor w e g = (r, w')" "w_initialised_size w = length (w_file w)"
    and "e \<le> off_t_max" "length (w_file w) \<le> off_t_max" "g < 2 ^ 64"
    "w_initial_capacity_bytes w < 2 ^ 64"
  shows "same_log w w' \<and> (\<exists>k. w_file w' = w_file w @ replicate k 0) \<and>
    (r = None \<longrightarrow> w_initialised_size w' = length (w_file w') \<and> length (w_file w') \<le> off_t_max \<and>
       e + g \<le> off_t_max \<and> (w_initial_capacity_bytes w = 0 \<or> e + g \<le> length (w_file w')))"
proof -
  let ?c = "w_initial_capacity_bytes w" and ?n = "length (w_file w)"
  let ?plan = "capacity_plan (of_nat e) (of_nat g) (of_nat ?n) (of_nat ?c)"
  note plan = capacity_plan_nat [OF assms(3,4,5,6)]
  show ?thesis
  proof (cases ?plan)
    case (ExtendTo t)
    have t: "t = of_nat (capacity_target (e + g) ?c)" "capacity_target (e + g) ?c \<le> off_t_max"
      "?n < capacity_target (e + g) ?c" "?c \<noteq> 0" "e + g \<le> off_t_max"
      using ExtendTo plan by (auto split: if_splits)
    then have u: "unat t = capacity_target (e + g) ?c"
      using unat_of_nat_u64 off_t_max_u64 by blast
    obtain x f io where z: "WriteZeroesAndSync (w_io w) (w_file w) ?n (unat t) = (x, f, io)"
      by (metis prod_cases3)
    obtain k where k: "k \<le> unat t - ?n" "f = patch (w_file w) ?n (replicate k 0)"
        "x = None \<longrightarrow> k = unat t - ?n"
      using WriteZeroesAndSync_effect [OF z] by blast
    have "f = w_file w @ replicate k 0" using k(2) by (simp add: patch_at_end)
    moreover have "w' = (if x = None then w\<lparr>w_file := f, w_io := io, w_initialised_size := unat t\<rparr>
        else w\<lparr>w_file := f, w_io := io\<rparr>)" "r = x"
      using assms(1,2) ExtendTo z by (auto simp: EnsureCapacityFor_def split: option.splits)
    moreover have "e + g \<le> unat t" using u capacity_target_least(1) [of ?c "e + g"] t(4) by simp
    ultimately show ?thesis
      using k u t by (auto simp: same_log_def)
  next
    case CapacityOverflow
    then show ?thesis
      using assms(1,2) by (auto simp: EnsureCapacityFor_def same_log_def intro: exI [of _ 0])
  next
    case CapacityEnough
    have "e + g \<le> off_t_max" "?c = 0 \<or> e + g \<le> ?n"
      using CapacityEnough plan capacity_target_least(1) [of ?c "e + g"]
      by (auto split: if_splits)
    then show ?thesis
      using assms(1,2,4) CapacityEnough
      by (auto simp: EnsureCapacityFor_def same_log_def intro: exI [of _ 0])
  qed
qed



end
