(* ===== verification/WalLog.thy ===== *)
theory WalLog
  imports WalSearch WalCapacity
begin

text \<open>
  The log as a list of buckets. A log that holds the buckets \<open>bs\<close> is the concatenation of their
  frames followed by zeroes; the scan of such a log yields exactly the records of the buckets.
\<close>

section \<open>One frame\<close>

definition frame_header :: "epoch_number \<Rightarrow> bytes \<Rightarrow> bytes" where
  "frame_header epoch payload =
     frame_fields epoch payload @ PutLe32 (frame_crc (frame_fields epoch payload) payload)"

lemma encode_frame_split: "encode_frame e p = frame_header e p @ p"
  by (simp add: encode_frame_def frame_header_def)

lemma length_header_constants [simp]: "length header_constants = 8"
  by (simp add: header_constants_def)

lemma length_frame_fields [simp]: "length (frame_fields e p) = 16"
  by (simp add: frame_fields_def)

lemma length_frame_header [simp]: "length (frame_header e p) = kHeaderSize"
  by (simp add: frame_header_def kHeaderSize_def)

lemma length_encode_frame [simp]: "length (encode_frame e p) = kHeaderSize + length p"
  by (simp add: encode_frame_split)

lemma encode_frame_neq_Nil [simp]: "encode_frame e p \<noteq> []"
  by (metis length_encode_frame kHeaderSize_def add_is_0 list.size(3) zero_neq_numeral)

lemma max_payload_u32: "n \<le> kMaxPayloadSize \<Longrightarrow> unat (of_nat n :: u32) = n"
  by (simp add: kMaxPayloadSize_def unat_of_nat take_bit_nat_eq_self_iff take_bit_eq_mod)

lemma frame_header_fields:
  assumes "length p \<le> kMaxPayloadSize"
  shows "header_anomaly (frame_header e p) = None" "header_payload_size (frame_header e p) = length p"
    "header_epoch (frame_header e p) = e"
    "header_crc (frame_header e p) = frame_crc (frame_header e p) p"
proof -
  note layout = frame_header_def frame_fields_def header_constants_def
  show ps: "header_payload_size (frame_header e p) = length p"
    using max_payload_u32 [OF assms] by (simp add: header_payload_size_def layout)
  show "header_anomaly (frame_header e p) = None"
    using ps assms
    by (simp add: header_anomaly_None header_magic_def header_version_def header_flags_def)
       (simp add: layout GetLe16_append)
  show "header_epoch (frame_header e p) = e"
    by (simp add: header_epoch_def layout)
  have "take 16 (frame_header e p) = frame_fields e p" by (simp add: frame_header_def)
  then have "frame_crc (frame_header e p) p = frame_crc (frame_fields e p) p"
    by (simp add: frame_crc_def)
  then show "header_crc (frame_header e p) = frame_crc (frame_header e p) p"
    by (simp add: header_crc_def frame_header_def [of e p])
qed

lemma frame_at_offset:
  "frame_header_at (pre @ encode_frame e p @ rest) (length pre) = frame_header e p"
  "length p \<le> kMaxPayloadSize \<Longrightarrow> frame_payload_at (pre @ encode_frame e p @ rest) (length pre) = p"
proof -
  show h: "frame_header_at (pre @ encode_frame e p @ rest) (length pre) = frame_header e p"
    by (simp add: frame_header_at_def encode_frame_split)
  show "length p \<le> kMaxPayloadSize \<Longrightarrow> frame_payload_at (pre @ encode_frame e p @ rest) (length pre) = p"
    by (simp add: frame_payload_at_def h frame_header_fields) (simp add: encode_frame_split)
qed

section \<open>The buckets of a log\<close>

type_synonym bucket = "epoch_number \<times> LogRecords"

definition encode_log :: "(LogRecords \<Rightarrow> bytes) \<Rightarrow> bucket list \<Rightarrow> bytes" where
  "encode_log pack bs = concat (map (\<lambda>(e, rs). encode_frame e (pack rs)) bs)"

definition bucket_ok :: "(LogRecords \<Rightarrow> bytes) \<Rightarrow> bucket \<Rightarrow> bool" where
  "bucket_ok pack b \<longleftrightarrow> fst b \<noteq> 0 \<and> snd b \<noteq> [] \<and> list_all (\<lambda>r. lr_epoch r = fst b) (snd b) \<and>
     length (pack (snd b)) \<le> kMaxPayloadSize"

definition log_ok :: "(LogRecords \<Rightarrow> bytes) \<Rightarrow> bucket list \<Rightarrow> bool" where
  "log_ok pack bs \<longleftrightarrow> list_all (bucket_ok pack) bs \<and> sorted (map fst bs)"

definition log_frontier :: "bucket list \<Rightarrow> epoch_number" where
  "log_frontier bs = (if bs = [] then 0 else fst (last bs))"

text \<open>What the log relies on of msgpack: unpacking a packed record list consumes all of it and gives
  the records back.\<close>

definition msgpack_inverts ::
  "(LogRecords \<Rightarrow> bytes) \<Rightarrow> (bytes \<Rightarrow> (LogRecords \<times> nat) option) \<Rightarrow> bucket list \<Rightarrow> bool" where
  "msgpack_inverts pack unpack bs \<longleftrightarrow>
     list_all (\<lambda>(_, rs). unpack (pack rs) = Some (rs, length (pack rs))) bs"

lemma encode_log_simps [simp]:
  "encode_log pack [] = []"
  "encode_log pack ((e, rs) # bs) = encode_frame e (pack rs) @ encode_log pack bs"
  "encode_log pack (bs @ cs) = encode_log pack bs @ encode_log pack cs"
  by (simp_all add: encode_log_def)

lemma log_ok_Cons:
  "log_ok pack (b # bs) \<longleftrightarrow> bucket_ok pack b \<and> log_ok pack bs \<and> (\<forall>c\<in>set bs. fst b \<le> fst c)"
  by (auto simp: log_ok_def)

section \<open>Scanning the frames of a log\<close>

definition scan_bucket ::
  "(LogRecords \<Rightarrow> bytes) \<Rightarrow> epoch_number \<Rightarrow> bucket \<Rightarrow> scan \<Rightarrow> scan" where
  "scan_bucket pack m b c =
     (let n = kHeaderSize + length (pack (snd b))
      in if fst b \<le> m
         then c\<lparr>c_frames_skipped := c_frames_skipped c + 1, c_bytes_skipped := c_bytes_skipped c + n,
                c_frontier := fst b, c_have_frame := True, c_offset := c_offset c + n\<rparr>
         else c\<lparr>c_records := c_records c @ snd b,
                c_frontier := fst b, c_have_frame := True, c_offset := c_offset c + n\<rparr>)"

lemma scan_loop_bucket:
  assumes "f = pre @ encode_frame e (pack rs) @ rest" "c_offset c = length pre"
    and "bucket_ok pack (e, rs)" "unpack (pack rs) = Some (rs, length (pack rs))"
    and "c_have_frame c \<Longrightarrow> c_frontier c \<le> e"
  shows "scan_loop unpack m [] f (length f) c =
    scan_loop unpack m [] f (length f) (scan_bucket pack m (e, rs) c)"
proof -
  let ?p = "pack rs"
  have len: "length ?p \<le> kMaxPayloadSize" and ok: "e \<noteq> 0" "rs \<noteq> []" "list_all (\<lambda>r. lr_epoch r = e) rs"
    using assms(3) by (auto simp: bucket_ok_def)
  note hd = frame_header_fields [OF len, of e]
  have r1: "PreadAll [] f kHeaderSize (c_offset c) = (Inr (frame_header e ?p), [])"
    using PreadAll_clean [of "c_offset c" kHeaderSize f] frame_at_offset(1) [where pre = pre and e = e and p = ?p and rest = rest]
    by (simp add: assms(1,2) frame_header_at_def)
  have r2: "PreadAll [] f (header_payload_size (frame_header e ?p)) (c_offset c + kHeaderSize) =
      (Inr ?p, [])"
    using PreadAll_clean [of "c_offset c + kHeaderSize" "length ?p" f]
      frame_at_offset [where pre = pre and e = e and p = ?p and rest = rest] len
    by (simp add: assms(1,2) hd frame_payload_at_def)
  have fit: "c_offset c + kHeaderSize + header_payload_size (frame_header e ?p) \<le> length f"
    by (simp add: assms(1,2) hd)
  have dec: "decode_payload unpack e ?p = Inr rs"
    using assms(4) ok by (simp add: decode_payload_def)
  have "(c_have_frame c \<and> e < c_frontier c) = False" using assms(5) by (auto dest: leD)
  then show ?thesis
    using ok dec
    by (simp only: scan_loop_frame [OF r1 r2 hd(1) fit] Let_def hd(3) if_False)
       (simp add: scan_loop_frame [OF r1 r2 hd(1) fit] hd(2,3) hd(4) [symmetric] scan_bucket_def
        Let_def not_less add.assoc)
qed

lemma scan_loop_log:
  assumes "f = pre @ encode_log pack bs @ rest" "c_offset c = length pre"
    and "log_ok pack bs" "msgpack_inverts pack unpack bs"
    and "c_have_frame c \<Longrightarrow> \<forall>b\<in>set bs. c_frontier c \<le> fst b"
  shows "scan_loop unpack m [] f (length f) c =
    scan_loop unpack m [] f (length f) (fold (scan_bucket pack m) bs c)"
  using assms
proof (induction bs arbitrary: pre c)
  case (Cons b bs)
  obtain e rs where b: "b = (e, rs)" by force
  have "scan_loop unpack m [] f (length f) c =
      scan_loop unpack m [] f (length f) (scan_bucket pack m (e, rs) c)"
    using Cons.prems by (intro scan_loop_bucket [where pre = pre and rest = "encode_log pack bs @ rest"])
      (auto simp: b log_ok_Cons msgpack_inverts_def)
  also have "\<dots> = scan_loop unpack m [] f (length f)
      (fold (scan_bucket pack m) bs (scan_bucket pack m (e, rs) c))"
    using Cons.prems by (intro Cons.IH [where pre = "pre @ encode_frame e (pack rs)"])
      (auto simp: b log_ok_Cons msgpack_inverts_def scan_bucket_def Let_def)
  finally show ?case by (simp add: b)
qed simp

lemma scan_fold_fields:
  "c_offset (fold (scan_bucket pack m) bs c) = c_offset c + length (encode_log pack bs)"
  "c_records (fold (scan_bucket pack m) bs c) =
     c_records c @ concat (map snd (filter (\<lambda>b. \<not> fst b \<le> m) bs))"
  "c_frontier (fold (scan_bucket pack m) bs c) = (if bs = [] then c_frontier c else fst (last bs))"
  "c_have_frame (fold (scan_bucket pack m) bs c) = (c_have_frame c \<or> bs \<noteq> [])"
  by (induction bs arbitrary: c) (auto simp: scan_bucket_def Let_def)

section \<open>The zeroes after a log\<close>

lemma GetLe32_zeroes: "4 \<le> n \<Longrightarrow> GetLe32 (replicate n 0) = 0"
  by (simp add: GetLe32_def)

lemma zero_header:
  "header_anomaly (replicate kHeaderSize 0) = Some MagicMismatch"
  "HeaderIsTornPrefix (replicate kHeaderSize 0)"
proof -
  show "header_anomaly (replicate kHeaderSize 0) = Some MagicMismatch"
    by (simp add: header_anomaly_def header_magic_def kHeaderSize_def GetLe32_zeroes kMagic_def)
  obtain cs where c: "header_constants = 0x4c # cs"
    by (simp add: header_constants_def PutLe32_def kMagic_def)
  have z: "replicate kHeaderSize 0 = (0 :: byte) # replicate 19 0"
    by (simp add: kHeaderSize_def numeral_eq_Suc)
  have "takeWhile (\<lambda>(h, e). h = e) (zip (replicate kHeaderSize 0) header_constants) = []"
    unfolding c z zip_Cons_Cons by simp
  then show "HeaderIsTornPrefix (replicate kHeaderSize 0)"
    by (simp add: HeaderIsTornPrefix_def list_all_iff)
qed

lemma scan_loop_zeroes:
  assumes "c_offset c \<le> length f" "\<And>i. c_offset c \<le> i \<Longrightarrow> i < length f \<Longrightarrow> f ! i = 0"
  shows "\<exists>a. scan_loop unpack m [] f (length f) c = (StopAt a None c, [])"
proof (cases "c_offset c + kHeaderSize \<le> length f")
  case False
  then show ?thesis by (subst scan_loop.simps) auto
next
  case True
  have "take kHeaderSize (drop (c_offset c) f) = replicate kHeaderSize 0"
    using True assms(2) by (intro nth_equalityI) auto
  then have "PreadAll [] f kHeaderSize (c_offset c) = (Inr (replicate kHeaderSize 0), [])"
    using PreadAll_clean [OF True] by simp
  moreover have "c_offset c < length f" "\<not> length f - c_offset c < kHeaderSize"
    using True by (auto simp: kHeaderSize_def)
  ultimately show ?thesis
    by (subst scan_loop.simps) (simp add: zero_header)
qed

lemma find_last_clean: "to \<le> length f \<Longrightarrow> \<exists>e. find_last_chunks [] f at to l = (Inr e, [])"
proof (induction "to - at" arbitrary: at l rule: less_induct)
  case less
  show ?case
  proof (cases "at < to")
    case True
    let ?sz = "min kChunkSize (to - at)"
    have "PreadAll [] f ?sz at = (Inr (take ?sz (drop at f)), [])"
      using less.prems True by (intro PreadAll_clean) auto
    moreover have "\<exists>e. find_last_chunks [] f (at + kChunkSize) to l' = (Inr e, [])" for l'
      using less.prems True by (intro less.hyps) (auto simp: kChunkSize_def)
    ultimately show ?thesis
      using True by (subst find_last_chunks.simps) (simp add: Let_def)
  qed (simp add: find_last_chunks.simps)
qed

lemma FindLastNonZero_zeroes:
  assumes "off \<le> length f" "\<And>i. off \<le> i \<Longrightarrow> i < length f \<Longrightarrow> f ! i = 0"
  shows "FindLastNonZero [] f off (length f) = (Inr off, [])"
proof -
  obtain e where e: "FindLastNonZero [] f off (length f) = (Inr e, [])"
    using find_last_clean [of "length f" f off off] by (auto simp: FindLastNonZero_def)
  have "e = off"
  proof (rule ccontr)
    assume "e \<noteq> off"
    then have "off \<le> e - 1" "e - 1 < length f" "f ! (e - 1) \<noteq> 0"
      using FindLastNonZero_answer(1,2) [OF e] by auto
    then show False using assms(2) by blast
  qed
  then show ?thesis using e by simp
qed

lemma scan_finish_zeroes:
  assumes "c_offset c \<le> length (w_file w)"
    and "\<And>i. c_offset c \<le> i \<Longrightarrow> i < length (w_file w) \<Longrightarrow> w_file w ! i = 0"
  shows "scan_finish (fault_free w) a None c (length (w_file w)) =
    FinishScan (fault_free w) (WalScanResult_default\<lparr>sr_frontier := c_frontier c,
      sr_frames_skipped := c_frames_skipped c, sr_bytes_skipped := c_bytes_skipped c,
      sr_records := c_records c\<rparr>) (c_offset c)"
  using FindLastNonZero_zeroes [OF assms]
  by (cases a) (simp_all add: scan_finish_def repair_tail_def Let_def WalScanResult_default_def)

section \<open>Hopping over the frames of a log\<close>

definition hop_bucket :: "(LogRecords \<Rightarrow> bytes) \<Rightarrow> bucket \<Rightarrow> hop \<Rightarrow> hop" where
  "hop_bucket pack b h =
     (let p = pack (snd b)
      in \<lparr>h_at = h_at h + kHeaderSize + length p, h_frontier = fst b, h_have_frame = True,
          h_frames_skipped = h_frames_skipped h + 1,
          h_bytes_skipped = h_bytes_skipped h + kHeaderSize + length p,
          h_guard = Some (h_at h, length p, frame_header (fst b) p)\<rparr>)"

text \<open>Where the frame loop resumes after a hop.\<close>

definition hop_scan :: "hop \<Rightarrow> scan" where
  "hop_scan h = \<lparr>c_offset = h_at h, c_frontier = h_frontier h, c_have_frame = h_have_frame h,
     c_frames_skipped = h_frames_skipped h, c_bytes_skipped = h_bytes_skipped h, c_records = []\<rparr>"

lemma hop_scan_bucket:
  "fst b \<le> m \<Longrightarrow> hop_scan (hop_bucket pack b h) = scan_bucket pack m b (hop_scan h)"
  by (simp add: hop_scan_def hop_bucket_def scan_bucket_def Let_def)

lemma hop_scan_fold:
  "\<forall>b\<in>set bs. fst b \<le> m \<Longrightarrow>
   hop_scan (fold (hop_bucket pack) bs h) = fold (scan_bucket pack m) bs (hop_scan h)"
  by (induction bs arbitrary: h) (auto simp: hop_scan_bucket)

lemma hop_loop_bucket:
  assumes "f = pre @ encode_frame e (pack rs) @ rest" "h_at h = length pre"
    and "bucket_ok pack (e, rs)" "h_have_frame h \<Longrightarrow> h_frontier h \<le> e"
  shows "hop_loop m [] f (length f) h =
    (if e > m then (Hopped h, []) else hop_loop m [] f (length f) (hop_bucket pack (e, rs) h))"
proof -
  let ?p = "pack rs"
  have len: "length ?p \<le> kMaxPayloadSize" and ok: "e \<noteq> 0"
    using assms(3) by (auto simp: bucket_ok_def)
  note hd = frame_header_fields [OF len, of e]
  have rd: "PreadAll [] f kHeaderSize (h_at h) = (Inr (frame_header e ?p), [])"
    using PreadAll_clean [of "h_at h" kHeaderSize f]
      frame_at_offset(1) [where pre = pre and e = e and p = ?p and rest = rest]
    by (simp add: assms(1,2) frame_header_at_def)
  have fit: "h_at h < length f" "\<not> length f - h_at h < kHeaderSize"
    "\<not> h_at h + kHeaderSize + length ?p > length f"
    by (simp_all add: assms(1,2) kHeaderSize_def)
  have "(h_have_frame h \<and> e < h_frontier h) = False" using assms(4) by (auto dest: leD)
  then show ?thesis
    using fit rd ok hd by (subst hop_loop.simps) (auto simp: hop_bucket_def Let_def)
qed

lemma hop_loop_log:
  assumes "f = pre @ encode_log pack bs @ rest" "h_at h = length pre" "log_ok pack bs"
    and "\<forall>b\<in>set bs. fst b \<le> m" "h_have_frame h \<Longrightarrow> \<forall>b\<in>set bs. h_frontier h \<le> fst b"
  shows "hop_loop m [] f (length f) h = hop_loop m [] f (length f) (fold (hop_bucket pack) bs h)"
  using assms
proof (induction bs arbitrary: pre h)
  case (Cons b bs)
  obtain e rs where b: "b = (e, rs)" by force
  have "hop_loop m [] f (length f) h = hop_loop m [] f (length f) (hop_bucket pack (e, rs) h)"
    using Cons.prems
      hop_loop_bucket [where f = f and pre = pre and rest = "encode_log pack bs @ rest"
        and e = e and pack = pack and rs = rs and h = h and m = m]
    by (auto simp: b log_ok_Cons not_less)
  also have "\<dots> = hop_loop m [] f (length f) (fold (hop_bucket pack) bs (hop_bucket pack (e, rs) h))"
    using Cons.prems by (intro Cons.IH [where pre = "pre @ encode_frame e (pack rs)"])
      (auto simp: b log_ok_Cons hop_bucket_def Let_def)
  finally show ?case by (simp add: b)
qed simp

lemma hop_loop_zeroes:
  assumes "h_at h \<le> length f" "\<And>i. h_at h \<le> i \<Longrightarrow> i < length f \<Longrightarrow> f ! i = 0"
  shows "hop_loop m [] f (length f) h \<in> {(Hopped h, []), (HopFailed None, [])}"
proof (cases "h_at h + kHeaderSize \<le> length f")
  case False
  then show ?thesis by (subst hop_loop.simps) auto
next
  case True
  have "take kHeaderSize (drop (h_at h) f) = replicate kHeaderSize 0"
    using True assms(2) by (intro nth_equalityI) auto
  then have "PreadAll [] f kHeaderSize (h_at h) = (Inr (replicate kHeaderSize 0), [])"
    using PreadAll_clean [OF True] by simp
  moreover have "h_at h < length f" "\<not> length f - h_at h < kHeaderSize"
    using True by (auto simp: kHeaderSize_def)
  ultimately show ?thesis
    by (subst hop_loop.simps) (simp add: zero_header)
qed

lemma hop_fold_at: "h_at (fold (hop_bucket pack) bs h) = h_at h + length (encode_log pack bs)"
  by (induction bs arbitrary: h) (auto simp: hop_bucket_def Let_def)

lemma nth_zeroes: "length pre \<le> i \<Longrightarrow> i < length pre + n \<Longrightarrow> (pre @ replicate n 0) ! i = (0 :: byte)"
  by (simp add: nth_append)

text \<open>The hop over a well-formed log stops at the first frame above \<open>m\<close> or gives up near the end of
  the file, and the frame it ends on holds its checksum.\<close>

lemma hop_loop_stops:
  assumes f: "f = encode_log pack cs @ encode_log pack ds @ replicate n 0"
    and ok: "log_ok pack (cs @ ds)" and h: "h_at h = length (encode_log pack cs)"
    and "h_have_frame h \<Longrightarrow> \<forall>b\<in>set ds. h_frontier h \<le> fst b" "ds \<noteq> [] \<Longrightarrow> fst (hd ds) > m"
  shows "hop_loop m [] f (length f) h \<in> {(Hopped h, []), (HopFailed None, [])}"
proof (cases ds)
  case Nil
  then show ?thesis using nth_zeroes [of "encode_log pack cs"] by (intro hop_loop_zeroes) (auto simp: f h)
next
  case (Cons d ds')
  obtain e rs where d: "d = (e, rs)" by force
  have "bucket_ok pack (e, rs)" using ok Cons d by (auto simp: log_ok_def)
  then show ?thesis
    using hop_loop_bucket [where f = f and pre = "encode_log pack cs" and e = e and pack = pack
        and rs = rs and h = h and m = m and rest = "encode_log pack ds' @ replicate n 0"] assms Cons d
    by auto
qed

lemma guard_holds:
  assumes "f = pre @ encode_frame e p @ rest" "length p \<le> kMaxPayloadSize"
  shows "PreadAll [] f (length p) (length pre + kHeaderSize) = (Inr p, [])"
  using PreadAll_clean [of "length pre + kHeaderSize" "length p" f]
    frame_at_offset [where pre = pre and e = e and p = p and rest = rest] assms
  by (simp add: frame_header_fields frame_payload_at_def)

lemma scan_begin_hopped:
  assumes "m \<noteq> 0" "hop_loop m [] f (length f) hop_start = (Hopped h, [])"
    and h: "h = fold (hop_bucket pack) cs hop_start" and f: "f = encode_log pack cs @ rest"
    and ok: "log_ok pack cs"
  shows "scan_begin m [] f (length f) = (Inr (hop_scan h), [])"
proof (cases cs rule: rev_cases)
  case Nil
  then show ?thesis
    using assms(1,2) by (simp add: scan_begin_def HopCoveredFrames_def h hop_start_def hop_scan_def)
next
  case (snoc cs' b)
  obtain e rs where b: "b = (e, rs)" by force
  let ?p = "pack rs"
  have len: "length ?p \<le> kMaxPayloadSize" using ok snoc b by (auto simp: log_ok_def bucket_ok_def)
  have "h_guard h = Some (length (encode_log pack cs'), length ?p, frame_header e ?p)"
    by (simp add: h snoc b hop_bucket_def hop_fold_at Let_def) (simp add: hop_start_def)
  moreover have "PreadAll [] f (length ?p) (length (encode_log pack cs') + kHeaderSize) = (Inr ?p, [])"
    using len by (intro guard_holds [where e = e and rest = rest]) (simp_all add: f snoc b)
  ultimately show ?thesis
    using assms(1,2) frame_header_fields(4) [OF len, of e]
    by (simp add: scan_begin_def HopCoveredFrames_def hop_scan_def)
qed

lemma scan_begin_log:
  assumes f: "f = encode_log pack bs @ replicate n 0" and ok: "log_ok pack bs"
  shows "\<exists>cs ds. bs = cs @ ds \<and>
    scan_begin m [] f (length f) = (Inr (fold (scan_bucket pack m) cs scan_start), [])"
proof (cases "m = 0")
  case True
  then show ?thesis by (intro exI [of _ "[]"] exI [of _ bs]) (simp add: scan_begin_def)
next
  case False
  define cs where "cs = takeWhile (\<lambda>b. fst b \<le> m) bs"
  define ds where "ds = dropWhile (\<lambda>b. fst b \<le> m) bs"
  define h where "h = fold (hop_bucket pack) cs hop_start"
  have split: "bs = cs @ ds" by (simp add: cs_def ds_def)
  have le: "\<forall>b\<in>set cs. fst b \<le> m" by (auto simp: cs_def dest: set_takeWhileD)
  have gt: "ds \<noteq> [] \<Longrightarrow> fst (hd ds) > m"
    using hd_dropWhile [of "\<lambda>b. fst b \<le> m" bs] by (auto simp: ds_def)
  have okc: "log_ok pack cs" using ok by (auto simp: split log_ok_def sorted_append)
  have at: "h_at h = length (encode_log pack cs)" by (simp add: h_def hop_fold_at hop_start_def)
  have loop: "hop_loop m [] f (length f) hop_start = hop_loop m [] f (length f) h"
    unfolding h_def using okc le
    by (intro hop_loop_log [where pre = "[]" and rest = "encode_log pack ds @ replicate n 0"])
      (auto simp: f split hop_start_def)
  have scan: "hop_scan h = fold (scan_bucket pack m) cs scan_start"
    using hop_scan_fold [OF le] by (simp add: h_def hop_scan_def hop_start_def scan_start_def)
  have "\<forall>b\<in>set ds. h_frontier h \<le> fst b" if "h_have_frame h"
  proof -
    have "cs \<noteq> []" "h_frontier h = fst (last cs)"
      using arg_cong [OF scan, of c_have_frame] arg_cong [OF scan, of c_frontier] that
      by (auto simp: scan_fold_fields hop_scan_def scan_start_def split: if_splits)
    then show ?thesis using ok by (auto simp: split log_ok_def sorted_append)
  qed
  then have hop: "hop_loop m [] f (length f) h \<in> {(Hopped h, []), (HopFailed None, [])}"
    using ok at gt by (intro hop_loop_stops [where cs = cs and ds = ds]) (auto simp: f split)
  have guard: "scan_begin m [] f (length f) = (Inr (hop_scan h), [])"
    if "hop_loop m [] f (length f) h = (Hopped h, [])"
    using that loop False okc
    by (intro scan_begin_hopped [where cs = cs and rest = "encode_log pack ds @ replicate n 0"])
      (auto simp: h_def f split)
  show ?thesis
    using hop guard loop scan split False
    by (auto simp: scan_begin_def HopCoveredFrames_def intro: exI [of _ "[]"])
qed

section \<open>An instance that holds a log\<close>

definition wal_log :: "(LogRecords \<Rightarrow> bytes) \<Rightarrow> wal \<Rightarrow> bucket list \<Rightarrow> bool" where
  "wal_log pack w bs \<longleftrightarrow>
     w_state w = Ready \<and> log_ok pack bs \<and>
     w_write_offset w = length (encode_log pack bs) \<and>
     w_write_offset w \<le> length (w_file w) \<and>
     take (w_write_offset w) (w_file w) = encode_log pack bs \<and>
     list_all (\<lambda>b. b = 0) (drop (w_write_offset w) (w_file w)) \<and>
     w_frontier w = log_frontier bs \<and>
     w_initialised_size w = length (w_file w) \<and> length (w_file w) \<le> off_t_max \<and>
     w_initial_capacity_bytes w < 2 ^ 64"

lemma wal_log_file:
  "wal_log pack w bs \<Longrightarrow>
   w_file w = encode_log pack bs @ replicate (length (w_file w) - length (encode_log pack bs)) 0"
proof -
  assume a: "wal_log pack w bs"
  have "drop (w_write_offset w) (w_file w) = replicate (length (w_file w) - w_write_offset w) 0"
    using a by (intro nth_equalityI) (auto simp: wal_log_def list_all_length)
  moreover have "take (w_write_offset w) (w_file w) = encode_log pack bs"
    "w_write_offset w = length (encode_log pack bs)" using a by (auto simp: wal_log_def)
  ultimately show ?thesis
    using append_take_drop_id [of "w_write_offset w" "w_file w"] by metis
qed

text \<open>The scan of a file that holds a log, fault-free up to the capacity work that ends it.\<close>

lemma scan_log_result:
  assumes f: "w_file w = encode_log pack bs @ replicate n 0" and ok: "log_ok pack bs"
    and mp: "msgpack_inverts pack unpack bs" and st: "w_state w \<noteq> Failed"
  shows "\<exists>r. ScanAndRepair unpack (fault_free w) m =
      FinishScan (fault_free (w\<lparr>w_initialised_size := max (w_initialised_size w) (length (w_file w))\<rparr>))
        r (length (encode_log pack bs)) \<and>
    sr_status r = ScanOk \<and> sr_records r = concat (map snd (filter (\<lambda>b. \<not> fst b \<le> m) bs)) \<and>
    sr_frontier r = log_frontier bs \<and> \<not> sr_tail_truncated r"
proof -
  define F where "F = w_file w"
  define w0 where "w0 = w\<lparr>w_initialised_size := max (w_initialised_size w) (length F)\<rparr>"
  obtain cs ds where bs: "bs = cs @ ds" and
    sb: "scan_begin m [] F (length F) = (Inr (fold (scan_bucket pack m) cs scan_start), [])"
    using scan_begin_log [OF f ok, of m] unfolding F_def by blast
  define c where "c = fold (scan_bucket pack m) bs scan_start"
  let ?c0 = "fold (scan_bucket pack m) cs scan_start"
  note fields = scan_fold_fields [of pack m bs scan_start, folded c_def]
  have pr: "\<forall>b\<in>set ds. c_frontier ?c0 \<le> fst b" if "c_have_frame ?c0"
    using that ok by (auto simp: bs log_ok_def sorted_append scan_fold_fields scan_start_def)
  have "scan_loop unpack m [] F (length F) ?c0 =
      scan_loop unpack m [] F (length F) (fold (scan_bucket pack m) ds ?c0)"
    using ok mp pr
    by (intro scan_loop_log [where pre = "encode_log pack cs" and rest = "replicate n 0"])
      (auto simp: F_def f bs log_ok_def sorted_append msgpack_inverts_def scan_fold_fields scan_start_def)
  also have "fold (scan_bucket pack m) ds ?c0 = c" by (simp add: c_def bs)
  finally have sl: "scan_loop unpack m [] F (length F) ?c0 = scan_loop unpack m [] F (length F) c" .
  have z: "c_offset c \<le> length F" "\<And>i. c_offset c \<le> i \<Longrightarrow> i < length F \<Longrightarrow> F ! i = 0"
    using nth_zeroes [of "encode_log pack bs" _ n] by (auto simp: fields scan_start_def F_def f)
  obtain a where a: "scan_loop unpack m [] F (length F) c = (StopAt a None c, [])"
    using scan_loop_zeroes [OF z] by blast
  have "ScanAndRepair unpack (fault_free w) m = scan_finish (fault_free w0) a None c (length F)"
    using st sb sl a by (simp add: ScanAndRepair_def Let_def F_def w0_def fault_free_def set_pread_def clean_io_def)
  also have "\<dots> = FinishScan (fault_free w0) (WalScanResult_default\<lparr>sr_frontier := c_frontier c,
      sr_frames_skipped := c_frames_skipped c, sr_bytes_skipped := c_bytes_skipped c,
      sr_records := c_records c\<rparr>) (c_offset c)"
    using scan_finish_zeroes [of c w0 a] z by (simp add: w0_def F_def)
  finally show ?thesis
    by (auto simp: fields scan_start_def WalScanResult_default_def log_frontier_def w0_def F_def)
qed

end
