(* ===== verification/WalAppend.thy ===== *)
theory WalAppend
  imports WalLog
begin

text \<open>
  Appending to a log and reading it back: \<open>AppendGroup\<close> extends the bucket list a log holds by the
  eligible buckets or leaves the log it found in front of the write offset, and a reopened log is
  scanned to exactly what it holds.
\<close>

section \<open>Encoding a group\<close>

definition eligible :: "epoch_number \<Rightarrow> bucket list \<Rightarrow> bucket list" where
  "eligible target buckets = takeWhile (\<lambda>b. fst b \<le> target) buckets"

lemma eligible_simps [simp]:
  "eligible target [] = []"
  "eligible target (b # bs) = (if fst b \<le> target then b # eligible target bs else [])"
  by (simp_all add: eligible_def)

lemma set_eligible: "b \<in> set (eligible target bs) \<Longrightarrow> b \<in> set bs \<and> fst b \<le> target"
  by (auto simp: eligible_def dest: set_takeWhileD)

lemma sorted_eligible:
  "sorted_wrt (<) (map fst bs) \<Longrightarrow> sorted_wrt (<) (map fst (eligible target bs))"
  by (induction bs) (auto dest: set_eligible)

lemma encode_group_Inr:
  assumes "encode_group pack fr target buckets g l = Inr (g', l')"
  shows "g' = g @ encode_log pack (eligible target buckets)"
    "l' = (if eligible target buckets = [] then l else fst (last (eligible target buckets)))"
    "\<forall>b\<in>set (eligible target buckets). bucket_ok pack b \<and> fr \<le> fst b"
  using assms
  by (induction pack fr target buckets g l rule: encode_group.induct)
     (auto simp: Let_def bucket_ok_def split: if_splits)

lemma encode_group_Inl:
  assumes "encode_group pack fr target buckets g l = Inl e"
  shows "(e = EINVAL \<or> e = EOVERFLOW) \<and>
    list_ex (\<lambda>b. \<not> bucket_ok pack b \<or> fst b < fr) (eligible target buckets)"
  using assms
  by (induction pack fr target buckets g l rule: encode_group.induct)
     (auto simp: Let_def bucket_ok_def not_less kMaxPayloadSize_def split: if_splits)

lemma sorted_le_last: "sorted xs \<Longrightarrow> x \<in> set xs \<Longrightarrow> x \<le> last xs"
  by (induction xs rule: rev_induct) (auto simp: sorted_append)

lemma log_frontier_append:
  "log_frontier (bs @ cs) = (if cs = [] then log_frontier bs else fst (last cs))"
  by (simp add: log_frontier_def)

lemma log_ok_append:
  assumes "log_ok pack bs" "sorted_wrt (<) (map fst cs)"
    and "\<forall>c\<in>set cs. bucket_ok pack c \<and> log_frontier bs \<le> fst c"
  shows "log_ok pack (bs @ cs)"
proof -
  have "sorted (map fst cs)"
    using assms(2) by (rule strict_sorted_imp_sorted)
  moreover have "fst b \<le> fst c" if "b \<in> set bs" "c \<in> set cs" for b c
  proof -
    have "bs \<noteq> []" "fst b \<in> set (map fst bs)" using that(1) by auto
    then have "fst b \<le> fst (last bs)"
      using assms(1) sorted_le_last [of "map fst bs" "fst b"] by (simp add: log_ok_def last_map)
    then show ?thesis using assms(3) that by (auto simp: log_frontier_def split: if_splits)
  qed
  ultimately show ?thesis
    using assms by (auto simp: log_ok_def sorted_append list_all_iff)
qed

section \<open>Appending\<close>

lemma patch_log: "patch (l @ replicate n 0) (length l) d = l @ d @ replicate (n - length d) (0 :: byte)"
  by (simp add: patch_def)

lemma drop_patch_log:
  "drop (length l + length d) (patch (l @ replicate n 0) (length l) d) = replicate (n - length d) (0 :: byte)"
  by (simp add: patch_log)

text \<open>What a failed append leaves: the log in front of the write offset, a prefix of the group, and
  zeroes.\<close>

definition torn_after :: "(LogRecords \<Rightarrow> bytes) \<Rightarrow> bucket list \<Rightarrow> bucket list \<Rightarrow> bytes \<Rightarrow> bool" where
  "torn_after pack bs cs f \<longleftrightarrow>
     (\<exists>k n. f = encode_log pack bs @ take k (encode_log pack cs) @ replicate n 0)"

lemma write_group_effect:
  assumes F: "w_file w = l @ replicate n 0" "w_write_offset w = length l"
    and lim: "w_initialised_size w = length (w_file w)" "length (w_file w) \<le> off_t_max"
      "length l + length g \<le> off_t_max"
    and "write_group w g e = (r, w')"
  shows "\<exists>k m. w_file w' = l @ take k g @ replicate m 0 \<and>
    (if r = AppendOk
     then k = length g \<and> w_write_offset w' = length l + length g \<and> w_frontier w' = e \<and>
       w_state w' = w_state w \<and> w_initialised_size w' = length (w_file w') \<and>
       length (w_file w') \<le> off_t_max \<and> w_initial_capacity_bytes w' = w_initial_capacity_bytes w
     else (\<exists>x. r = AppendError x) \<and> w_state w' = Failed \<and> w_write_offset w' = length l \<and>
       w_frontier w' = w_frontier w)"
proof -
  obtain x f s where wr: "WriteAllAt (io_pwrite (w_io w)) (w_file w) g (length l) = (x, f, s)"
    by (metis prod_cases3)
  obtain k where k: "k \<le> length g" "f = patch (w_file w) (length l) (take k g)"
      "x = None \<longrightarrow> k = length g"
    using pwrite_loop_effect [OF wr [unfolded WriteAllAt_def]] by blast
  have f: "f = l @ take k g @ replicate (n - length (take k g)) 0"
    using k(2) by (simp add: F(1) patch_log)
  obtain y s' where y: "FsyncRetryingOnInterrupt (io_fdatasync (w_io w)) = (y, s')" by force
  show ?thesis
    using assms(6) wr y k(1,3) F lim
    by - (rule exI [of _ k], rule exI [of _ "n - length (take k g)"],
       auto simp: write_group_def f split: option.splits)
qed

lemma write_group_log:
  assumes F: "w_file w = encode_log pack bs @ replicate n 0" "w_write_offset w = length (encode_log pack bs)"
    and lim: "w_initialised_size w = length (w_file w)" "length (w_file w) \<le> off_t_max"
      "length (encode_log pack bs) + length (encode_log pack cs) \<le> off_t_max"
    and rd: "w_state w = Ready" "w_initial_capacity_bytes w < 2 ^ 64"
    and ok: "log_ok pack (bs @ cs)" "cs \<noteq> []"
    and W: "write_group w (encode_log pack cs) (fst (last cs)) = (r, w')"
  shows "case r of
      AppendOk \<Rightarrow> wal_log pack w' (bs @ cs)
    | AppendError e \<Rightarrow> w_state w' = Failed \<and> w_write_offset w' = w_write_offset w \<and>
        w_frontier w' = w_frontier w \<and> torn_after pack bs cs (w_file w')
    | AppendAbort \<Rightarrow> False"
proof -
  note wg = write_group_effect [OF F lim W]
  show ?thesis
  proof (cases r)
    case AppendOk
    then obtain m where "w_file w' = encode_log pack (bs @ cs) @ replicate m 0"
      using wg by auto
    then show ?thesis
      using AppendOk wg rd ok by (auto simp: wal_log_def log_frontier_append list_all_iff)
  qed (use wg F(2) in \<open>auto simp: torn_after_def\<close>)
qed

lemma AppendGroup_effect:
  assumes w: "wal_log pack w bs" and sorted: "sorted_wrt (<) (map fst buckets)"
    and sz: "length (encode_log pack (eligible target buckets)) < 2 ^ 64"
    and A: "AppendGroup pack w buckets target = (r, w')"
  shows "case r of
      AppendOk \<Rightarrow> wal_log pack w' (bs @ eligible target buckets)
    | AppendError e \<Rightarrow>
        (w' = w \<and> (e = EINVAL \<or> e = EOVERFLOW) \<and>
           list_ex (\<lambda>b. \<not> bucket_ok pack b \<or> fst b < log_frontier bs) (eligible target buckets)) \<or>
        (w_state w' = Failed \<and> w_write_offset w' = w_write_offset w \<and> w_frontier w' = w_frontier w \<and>
           list_all (bucket_ok pack) (eligible target buckets) \<and>
           torn_after pack bs (eligible target buckets) (w_file w'))
    | AppendAbort \<Rightarrow> False"
proof -
  let ?L = "encode_log pack bs" and ?cs = "eligible target buckets"
  have ready: "w_state w = Ready" "w_write_offset w = length ?L" "w_frontier w = log_frontier bs"
      "w_initialised_size w = length (w_file w)" and
    lim: "length ?L \<le> off_t_max" "length (w_file w) \<le> off_t_max" "w_initial_capacity_bytes w < 2 ^ 64"
    using w by (auto simp: wal_log_def)
  show ?thesis
  proof (cases "encode_group pack (log_frontier bs) target buckets [] (log_frontier bs)")
    case (Inl e)
    then show ?thesis
      using A ready encode_group_Inl [OF Inl] by (auto simp: AppendGroup_def)
  next
    case (Inr gl)
    obtain l where gl: "gl = (encode_log pack ?cs, l)"
        "l = (if ?cs = [] then log_frontier bs else fst (last ?cs))"
      using encode_group_Inr(1,2) [of pack _ target buckets "[]"] Inr by (cases gl) fastforce
    have bok: "\<forall>b\<in>set ?cs. bucket_ok pack b \<and> log_frontier bs \<le> fst b"
      using encode_group_Inr(3) Inr gl by blast
    have ok: "log_ok pack (bs @ ?cs)"
      using w sorted bok by (intro log_ok_append sorted_eligible) (auto simp: wal_log_def)
    show ?thesis
    proof (cases "encode_log pack ?cs = []")
      case True
      then have "?cs = []" by (cases ?cs) auto
      then show ?thesis using A ready Inr gl w by (simp add: AppendGroup_def split: if_splits)
    next
      case False
      obtain r1 w1 where c: "EnsureCapacityFor w (length ?L) (length (encode_log pack ?cs)) = (r1, w1)"
        by force
      note eff = EnsureCapacityFor_effect [OF c ready(4) lim(1,2) sz lim(3)]
      obtain n where F: "w_file w1 = ?L @ replicate n 0"
        using eff wal_log_file [OF w] by (metis append.assoc replicate_add)
      show ?thesis
      proof (cases r1)
        case (Some e)
        then have "r = AppendError e" "w' = w1\<lparr>w_state := Failed\<rparr>"
          using A ready Inr gl c False by (simp_all add: AppendGroup_def)
        moreover have "torn_after pack bs ?cs (w_file w1)"
          unfolding torn_after_def F by (rule exI [of _ 0], rule exI [of _ n]) simp
        ultimately show ?thesis using eff bok by (simp add: same_log_def list_all_iff)
      next
        case None
        define w2 where "w2 = (if w_initialised_size w1 \<noteq> w_initialised_size w
            then w1\<lparr>w_extension_count := w_extension_count w1 + 1\<rparr> else w1)"
        have w2: "w_file w2 = ?L @ replicate n 0" "w_write_offset w2 = length ?L"
          "w_initialised_size w2 = length (w_file w2)" "length (w_file w2) \<le> off_t_max"
          "length ?L + length (encode_log pack ?cs) \<le> off_t_max" "w_frontier w2 = w_frontier w"
          "w_state w2 = Ready" "w_initial_capacity_bytes w2 < 2 ^ 64"
          using F eff None ready lim by (auto simp: w2_def same_log_def)
        have "write_group w2 (encode_log pack ?cs) l = (r, w')"
          using A ready Inr gl(1) c False None by (simp add: AppendGroup_def w2_def)
        moreover have "l = fst (last ?cs)" "?cs \<noteq> []" using gl(2) False by auto
        ultimately show ?thesis
          using write_group_log [OF w2(1-5,7,8) ok] w2(2,6) ready bok
          by (auto simp: list_all_iff split: append_outcome.splits)
      qed
    qed
  qed
qed

section \<open>Reopening\<close>

lemma Wal_open_fields:
  "Wal_open calls io existing cap = Inr w \<Longrightarrow>
   w_file w = (case existing of Some f \<Rightarrow> f | None \<Rightarrow> []) \<and> w_state w = Unscanned \<and>
   w_initialised_size w = length (w_file w) \<and> w_initial_capacity_bytes w = cap"
  by (auto simp: Wal_open_def open_log_def Let_def split: prod.splits option.splits sum.splits if_splits)

lemma wal_log_fault_free [simp]: "wal_log pack (fault_free w) bs = wal_log pack w bs"
  by (simp add: wal_log_def)

lemma FinishScan_log:
  assumes F: "w_file w = encode_log pack bs @ replicate n 0" "log_ok pack bs"
    and lim: "w_initialised_size w = length (w_file w)" "length (w_file w) \<le> off_t_max"
      "w_initial_capacity_bytes w < 2 ^ 64"
    and r: "sr_frontier r = log_frontier bs"
    and FS: "FinishScan w r (length (encode_log pack bs)) = (res, w')"
  shows "sr_status res = ScanIoError \<or> (res = r \<and> wal_log pack w' bs)"
proof -
  let ?L = "encode_log pack bs"
  obtain x w1 where c: "EnsureCapacityFor w (length ?L) 0 = (x, w1)" by force
  have "length ?L \<le> off_t_max" using F lim by simp
  note eff = EnsureCapacityFor_effect [OF c lim(1) this lim(2) _ lim(3), simplified]
  show ?thesis
  proof (cases x)
    case None
    obtain k where "w_file w1 = ?L @ replicate (n + k) 0"
      using eff F(1) by (metis append.assoc replicate_add)
    moreover have "same_log w w1" "w_initialised_size w1 = length (w_file w1)"
        "length (w_file w1) \<le> off_t_max"
      using eff None by auto
    ultimately show ?thesis
      using FS c None F(2) lim(3) r
      by (auto simp: FinishScan_def wal_log_def same_log_def list_all_iff)
  qed (use FS c in \<open>auto simp: FinishScan_def IoFailure_def\<close>)
qed

lemma reopen_log:
  assumes "f = encode_log pack bs @ replicate n 0" "log_ok pack bs" "msgpack_inverts pack unpack bs"
    and "length f \<le> off_t_max" "cap < 2 ^ 64"
    and op: "Wal_open calls io existing cap = Inr w" "(case existing of Some g \<Rightarrow> g | None \<Rightarrow> []) = f"
    and sc: "ScanAndRepair unpack w m = (res, w')"
  shows "sr_status res = ScanIoError \<or>
    (sr_status res = ScanOk \<and> sr_records res = concat (map snd (filter (\<lambda>b. \<not> fst b \<le> m) bs)) \<and>
     sr_frontier res = log_frontier bs \<and> \<not> sr_tail_truncated res \<and> wal_log pack w' bs)"
proof (cases "sr_status res = ScanIoError")
  case False
  note o = Wal_open_fields [OF op(1), unfolded op(2)]
  have same: "w\<lparr>w_initialised_size := max (w_initialised_size w) (length (w_file w))\<rparr> = w"
    using o by simp
  obtain r where r: "ScanAndRepair unpack (fault_free w) m = FinishScan (fault_free w) r (length (encode_log pack bs))"
      "sr_status r = ScanOk" "sr_records r = concat (map snd (filter (\<lambda>b. \<not> fst b \<le> m) bs))"
      "sr_frontier r = log_frontier bs" "\<not> sr_tail_truncated r"
    using scan_log_result [OF _ assms(2,3), of w n m] o assms(1) unfolding same by auto
  have "ScanAndRepair unpack (fault_free w) m = (res, fault_free w')"
    using ScanAndRepair_transparent [OF sc] False by simp
  then have "FinishScan (fault_free w) r (length (encode_log pack bs)) = (res, fault_free w')"
    using r by simp
  then have "res = r \<and> wal_log pack (fault_free w') bs"
    using FinishScan_log [of "fault_free w" pack bs n r res "fault_free w'"] assms o r False by simp
  then show ?thesis using r by simp
qed simp

section \<open>The log as a device\<close>

text \<open>What the flusher relies on: an append that reports success extends what the device holds by the
  eligible buckets, and an append to a device that holds a log returns.\<close>

primrec append_groups ::
  "('w \<Rightarrow> bucket list \<Rightarrow> epoch_number \<Rightarrow> append_outcome \<times> 'w) \<Rightarrow> (bucket list \<times> epoch_number) list
     \<Rightarrow> 'w \<Rightarrow> append_outcome \<times> 'w" where
  "append_groups app [] w = (AppendOk, w)"
| "append_groups app (g # gs) w =
     (case app w (fst g) (snd g) of
        (AppendOk, w') \<Rightarrow> append_groups app gs w'
      | (r, w') \<Rightarrow> (r, w'))"

definition appended :: "(bucket list \<times> epoch_number) list \<Rightarrow> bucket list" where
  "appended gs = concat (map (\<lambda>g. eligible (snd g) (fst g)) gs)"

locale log_device =
  fixes app :: "'w \<Rightarrow> bucket list \<Rightarrow> epoch_number \<Rightarrow> append_outcome \<times> 'w"
    and holds :: "'w \<Rightarrow> bucket list \<Rightarrow> bool"
    and fits :: "bucket list \<Rightarrow> bool"
  assumes append_ok: "holds w bs \<Longrightarrow> sorted_wrt (<) (map fst buckets) \<Longrightarrow> fits (eligible t buckets) \<Longrightarrow>
      app w buckets t = (AppendOk, w') \<Longrightarrow> holds w' (bs @ eligible t buckets)"
    and append_returns: "holds w bs \<Longrightarrow> fst (app w buckets t) \<noteq> AppendAbort"
begin

lemma append_groups_holds:
  assumes "holds w bs" "append_groups app gs w = (AppendOk, w')"
    and "\<forall>g\<in>set gs. sorted_wrt (<) (map fst (fst g)) \<and> fits (eligible (snd g) (fst g))"
  shows "holds w' (bs @ appended gs)"
  using assms
proof (induction gs arbitrary: w bs)
  case (Cons g gs)
  obtain w1 where w1: "app w (fst g) (snd g) = (AppendOk, w1)"
      "append_groups app gs w1 = (AppendOk, w')"
    using Cons.prems(2) by (auto split: prod.splits append_outcome.splits)
  have "holds w1 (bs @ eligible (snd g) (fst g))"
    using Cons.prems w1 by (intro append_ok) auto
  then show ?case
    using Cons.IH [OF _ w1(2), of "bs @ eligible (snd g) (fst g)"] Cons.prems(3)
    by (simp add: appended_def)
qed (simp add: appended_def)

end

definition fits_memory :: "(LogRecords \<Rightarrow> bytes) \<Rightarrow> bucket list \<Rightarrow> bool" where
  "fits_memory pack bs \<longleftrightarrow> length (encode_log pack bs) < 2 ^ 64"

lemma AppendGroup_returns: "w_state w = Ready \<Longrightarrow> fst (AppendGroup pack w buckets t) \<noteq> AppendAbort"
  by (auto simp: AppendGroup_def write_group_def split: sum.splits prod.splits option.splits)

interpretation waldev: log_device "AppendGroup pack" "wal_log pack" "fits_memory pack" for pack
proof
  fix w bs buckets t w'
  assume "wal_log pack w bs" "sorted_wrt (<) (map fst buckets)" "fits_memory pack (eligible t buckets)"
    "AppendGroup pack w buckets t = (AppendOk, w')"
  then show "wal_log pack w' (bs @ eligible t buckets)"
    using AppendGroup_effect [of pack w bs buckets t AppendOk w'] by (simp add: fits_memory_def)
next
  fix w bs buckets t
  assume "wal_log pack w bs"
  then show "fst (AppendGroup pack w buckets t) \<noteq> AppendAbort"
    by (intro AppendGroup_returns) (simp add: wal_log_def)
qed

section \<open>Properties\<close>

text \<open>C7. The log round trip. A new log is opened and scanned, any number of groups are appended
  successfully, and the file is reopened and scanned again, with any initial capacity, any faults and
  any \<open>min_epoch\<close>. The scan reports an I/O error or it succeeds, discards nothing, and returns exactly
  the records that were appended with an epoch above \<open>min_epoch\<close>, in order, and the last epoch appended
  as the frontier. In particular hopping over covered frames answers as the full scan does.\<close>

theorem log_round_trip:
  assumes "Wal_open calls io None cap = Inr w0" "ScanAndRepair unpack w0 m0 = (res0, w1)"
    and "sr_status res0 = ScanOk"
    and "append_groups (AppendGroup pack) gs w1 = (AppendOk, w2)"
    and "\<forall>g\<in>set gs. sorted_wrt (<) (map fst (fst g)) \<and> fits_memory pack (eligible (snd g) (fst g))"
    and "msgpack_inverts pack unpack (appended gs)" "cap < 2 ^ 64" "cap' < 2 ^ 64"
    and "Wal_open calls' io' (Some (w_file w2)) cap' = Inr w3" "ScanAndRepair unpack w3 m = (res, w4)"
  shows "sr_status res = ScanIoError \<or>
    (sr_status res = ScanOk \<and>
     sr_records res = concat (map snd (filter (\<lambda>b. \<not> fst b \<le> m) (appended gs))) \<and>
     sr_frontier res = log_frontier (appended gs) \<and> \<not> sr_tail_truncated res \<and>
     wal_log pack w4 (appended gs))"
proof -
  have "wal_log pack w1 []"
    using reopen_log [of "[]" pack "[]" 0 unpack cap calls io None w0 m0 res0 w1] assms(1-3,7)
    by (simp add: log_ok_def msgpack_inverts_def off_t_max_def)
  then have w2: "wal_log pack w2 (appended gs)"
    using waldev.append_groups_holds assms(4,5) by fastforce
  then show ?thesis
    using reopen_log [OF wal_log_file [OF w2] _ assms(6) _ assms(8,9) _ assms(10)]
    by (simp add: wal_log_def)
qed

lemma Wal_open_clean:
  "Wal_open [] clean_io existing cap =
    Inr \<lparr>w_file = (case existing of Some f \<Rightarrow> f | None \<Rightarrow> []), w_io = clean_io,
      w_initial_capacity_bytes = cap, w_state = Unscanned, w_write_offset = 0, w_frontier = 0,
      w_initialised_size = length (case existing of Some f \<Rightarrow> f | None \<Rightarrow> []), w_extension_count = 0\<rparr>"
  by (cases existing) (simp_all add: Wal_open_def open_log_def open_exclusive_def FsyncDirectory_def EEXIST_def
      clean_io_def)

lemma EnsureCapacityFor_0: "w_initial_capacity_bytes w = 0 \<Longrightarrow> EnsureCapacityFor w e 0 = (None, w)"
  by (simp add: EnsureCapacityFor_def capacity_plan_def)

text \<open>Without faults and without preallocation the scan of a log succeeds.\<close>

lemma scan_log_clean:
  assumes "w_file w = encode_log pack bs @ replicate n 0" "log_ok pack bs"
    "msgpack_inverts pack unpack bs" "w_state w \<noteq> Failed" "w_initial_capacity_bytes w = 0"
    "w_io w = clean_io"
  shows "sr_status (fst (ScanAndRepair unpack w m)) = ScanOk"
proof -
  have "fault_free w = w" using assms(6) by (simp add: fault_free_def)
  then show ?thesis
    using scan_log_result [OF assms(1-4), of m] assms(5)
    by (auto simp: FinishScan_def EnsureCapacityFor_0)
qed

definition example_record :: LogRecord where
  "example_record = \<lparr>lr_epoch = 1, lr_key_value_pairs = []\<rparr>"

theorem log_round_trip_witness:
  "\<exists>w0 res0 w1 w2 w3 res w4. Wal_open [] clean_io None 0 = Inr w0
    \<and> ScanAndRepair (\<lambda>_. Some ([example_record], 1)) w0 0 = (res0, w1)
    \<and> append_groups (AppendGroup (\<lambda>_. [7])) [([(1, [example_record])], 1)] w1 = (AppendOk, w2)
    \<and> Wal_open [] clean_io (Some (w_file w2)) 0 = Inr w3
    \<and> ScanAndRepair (\<lambda>_. Some ([example_record], 1)) w3 0 = (res, w4)
    \<and> sr_status res = ScanOk \<and> sr_records res = [example_record] \<and> sr_frontier res = 1"
proof -
  let ?pack = "\<lambda>_ :: LogRecords. [7 :: byte]" and ?unpack = "\<lambda>_ :: bytes. Some ([example_record], 1 :: nat)"
  let ?gs = "[([(1, [example_record])], 1)] :: (bucket list \<times> epoch_number) list"
  have app: "appended ?gs = [(1, [example_record])]" by (simp add: appended_def)
  have ok: "log_ok ?pack (appended ?gs)" "msgpack_inverts ?pack ?unpack (appended ?gs)"
    unfolding app by (simp_all add: log_ok_def bucket_ok_def msgpack_inverts_def example_record_def kMaxPayloadSize_def)
  obtain w0 where w0: "Wal_open [] clean_io None 0 = Inr w0" "w_file w0 = []" "w_state w0 = Unscanned"
      "w_initial_capacity_bytes w0 = 0" "w_io w0 = clean_io" "w_initialised_size w0 = 0" "w_write_offset w0 = 0"
    by (simp add: Wal_open_clean)
  obtain res0 w1 where r0: "ScanAndRepair ?unpack w0 0 = (res0, w1)" by force
  have w1: "sr_status res0 = ScanOk" "w_state w1 = Ready" "w_file w1 = []" "w_write_offset w1 = 0"
      "w_frontier w1 = 0" "w_io w1 = clean_io" "w_initial_capacity_bytes w1 = 0" "w_initialised_size w1 = 0"
    using r0 w0
    by (auto simp: ScanAndRepair_def scan_begin_def scan_loop.simps [of _ _ _ "[]"] scan_start_def Let_def
        scan_finish_def FinishScan_def EnsureCapacityFor_0 set_pread_def WalScanResult_default_def clean_io_def)
  obtain r w2 where r: "append_groups (AppendGroup ?pack) ?gs w1 = (r, w2)" by force
  have w2: "r = AppendOk" "w_file w2 = encode_log ?pack (appended ?gs) @ replicate 0 0"
    unfolding app using r w1
    by (auto simp: AppendGroup_def example_record_def kMaxPayloadSize_def EnsureCapacityFor_def
        capacity_plan_def write_group_def WriteAllAt_def pwrite_loop_clean kSsizeMax_def patch_def kHeaderSize_def
        split: if_splits)
  obtain w3 where w3: "Wal_open [] clean_io (Some (w_file w2)) 0 = Inr w3" "w_file w3 = w_file w2"
      "w_state w3 = Unscanned" "w_initial_capacity_bytes w3 = 0" "w_io w3 = clean_io"
    by (simp add: Wal_open_clean)
  obtain res w4 where sc: "ScanAndRepair ?unpack w3 0 = (res, w4)" by force
  have "sr_status res = ScanOk"
    using scan_log_clean [of w3 ?pack "appended ?gs" 0 ?unpack 0] w3 w2 ok sc by simp
  moreover have "sr_records res = [example_record] \<and> sr_frontier res = 1"
    using log_round_trip [OF w0(1) r0 w1(1) r [unfolded w2(1)] _ ok(2) _ _ w3(1) sc] \<open>sr_status res = ScanOk\<close>
    by (simp add: fits_memory_def app log_frontier_def kHeaderSize_def)
  ultimately show ?thesis using w0(1) r0 r w2(1) w3(1) sc by blast
qed


end
