(* ===== verification/WalRepair.thy ===== *)
theory WalRepair
  imports WalAppend
begin

text \<open>
  Repair: what a scan that succeeds has established of an arbitrary file, and that a group whose write
  stopped half-way is recognised, discarded and leaves the log it was appended to.
\<close>

section \<open>Frames from bytes\<close>

lemma drop_split: "drop n h = take k (drop n h) @ drop (n + k) h"
  by (metis add.commute append_take_drop_id drop_drop)

text \<open>Twenty bytes without a header anomaly whose checksum field holds are the header of a frame.\<close>

lemma header_bytes:
  assumes len: "length h = kHeaderSize" and ok: "header_anomaly h = None"
    and p: "length p = header_payload_size h" and crc: "frame_crc h p = header_crc h"
  shows "h = frame_header (header_epoch h) p"
proof -
  have l20: "length h = 20" using len by (simp add: kHeaderSize_def)
  note an = ok [unfolded header_anomaly_None]
  have a: "take 4 h = PutLe32 kMagic"
    using an l20 PutLe32_GetLe32 [of "take 4 h"] by (simp add: GetLe32_take header_magic_def)
  have b: "take 2 (drop 4 h) = PutLe16 kVersion"
    using an l20 PutLe16_GetLe16 [of "take 2 (drop 4 h)"] by (simp add: GetLe16_take header_version_def)
  have c: "take 2 (drop 6 h) = PutLe16 kFlags"
    using an l20 PutLe16_GetLe16 [of "take 2 (drop 6 h)"] by (simp add: GetLe16_take header_flags_def)
  have "of_nat (length p) = GetLe32 (drop 8 h)" by (simp add: p header_payload_size_def)
  then have d: "take 4 (drop 8 h) = PutLe32 (of_nat (length p))"
    using l20 PutLe32_GetLe32 [of "take 4 (drop 8 h)"] by (simp add: GetLe32_take)
  have e: "take 4 (drop 12 h) = PutLe32 (header_epoch h)"
    using l20 PutLe32_GetLe32 [of "take 4 (drop 12 h)"] by (simp add: GetLe32_take header_epoch_def)
  have g: "drop 16 h = PutLe32 (header_crc h)"
    using l20 PutLe32_GetLe32 [of "drop 16 h"] by (simp add: header_crc_def)
  have "h = take 4 h @ take 2 (drop 4 h) @ take 2 (drop 6 h) @ take 4 (drop 8 h) @ take 4 (drop 12 h)
      @ drop 16 h"
    using drop_split [of 0 h 4] drop_split [of 4 h 2] drop_split [of 6 h 2] drop_split [of 8 h 4]
      drop_split [of 12 h 4] by simp
  then have h: "h = frame_fields (header_epoch h) p @ PutLe32 (header_crc h)"
    unfolding a b c d e g frame_fields_def header_constants_def by simp
  then have "take 16 h = frame_fields (header_epoch h) p"
    by (metis append_eq_conv_conj length_frame_fields)
  then have "header_crc h = frame_crc (frame_fields (header_epoch h) p) p"
    using crc by (simp add: frame_crc_def)
  then show ?thesis using h by (simp add: frame_header_def)
qed

definition encode_frames :: "(epoch_number \<times> bytes) list \<Rightarrow> bytes" where
  "encode_frames fs = concat (map (\<lambda>(e, p). encode_frame e p) fs)"

lemma encode_frames_simps [simp]:
  "encode_frames [] = []" "encode_frames ((e, p) # fs) = encode_frame e p @ encode_frames fs"
  by (simp_all add: encode_frames_def)

text \<open>A run of frames: epochs from \<open>lo\<close> on that do not decrease and are not zero, and payloads that
  decode to the records \<open>rss\<close>.\<close>

definition frame_run ::
  "(bytes \<Rightarrow> (LogRecords \<times> nat) option) \<Rightarrow> epoch_number \<Rightarrow> (epoch_number \<times> bytes) list
     \<Rightarrow> LogRecords list \<Rightarrow> bool" where
  "frame_run unpack lo fs rss \<longleftrightarrow>
     list_all2 (\<lambda>(e, p) rs. decode_payload unpack e p = Inr rs) fs rss \<and>
     sorted (map fst fs) \<and> list_all (\<lambda>(e, _). lo \<le> e \<and> e \<noteq> 0) fs"

lemma frame_run_Cons:
  "frame_run unpack lo ((e, p) # fs) (rs # rss) \<longleftrightarrow>
     decode_payload unpack e p = Inr rs \<and> lo \<le> e \<and> e \<noteq> 0 \<and> frame_run unpack e fs rss"
  by (auto simp: frame_run_def list_all_iff)

lemma frame_run_Nil [simp]: "frame_run unpack lo [] []"
  by (simp add: frame_run_def)

definition scan_floor :: "scan \<Rightarrow> epoch_number" where
  "scan_floor c = (if c_have_frame c then c_frontier c else 0)"

text \<open>A frame at an offset that is whole and whose checksum holds, whatever its epoch and length.\<close>

definition complete_frame :: "bytes \<Rightarrow> nat \<Rightarrow> bool" where
  "complete_frame f off \<longleftrightarrow>
     off + kHeaderSize \<le> length f \<and> header_anomaly (frame_header_at f off) = None \<and>
     off + kHeaderSize + header_payload_size (frame_header_at f off) \<le> length f \<and>
     frame_crc (frame_header_at f off) (frame_payload_at f off) = header_crc (frame_header_at f off)"

lemma intact_complete: "intact_frame f off \<Longrightarrow> complete_frame f off"
  by (simp add: intact_frame_def complete_frame_def)

lemma complete_frame_reads:
  assumes "complete_frame f off"
  shows "PreadAll [] f kHeaderSize off = (Inr (frame_header_at f off), [])"
    "PreadAll [] f (header_payload_size (frame_header_at f off)) (off + kHeaderSize) =
      (Inr (frame_payload_at f off), [])"
  using assms PreadAll_clean [of off kHeaderSize f]
    PreadAll_clean [of "off + kHeaderSize" "header_payload_size (frame_header_at f off)" f]
  by (simp_all add: complete_frame_def frame_header_at_def frame_payload_at_def)

lemma complete_frame_bytes:
  assumes "complete_frame f off"
  shows "take (off + kHeaderSize + header_payload_size (frame_header_at f off)) f =
    take off f @ encode_frame (header_epoch (frame_header_at f off)) (frame_payload_at f off)"
proof -
  let ?h = "frame_header_at f off" and ?p = "frame_payload_at f off"
  have "length ?h = kHeaderSize" "length ?p = header_payload_size ?h"
    using assms by (auto simp: complete_frame_def frame_header_at_def frame_payload_at_def)
  then have "?h = frame_header (header_epoch ?h) ?p"
    using assms by (intro header_bytes) (auto simp: complete_frame_def)
  moreover have "take (off + kHeaderSize + header_payload_size ?h) f = take off f @ ?h @ ?p"
    by (simp add: take_add frame_header_at_def frame_payload_at_def)
  ultimately show ?thesis
    by (simp add: encode_frame_split)
qed

lemma scan_loop_not_complete:
  assumes "scan_loop unpack m [] f (length f) c = (StopAt a broken c', s)"
    and "\<not> complete_frame f (c_offset c)" "c_offset c \<le> length f"
  shows "c' = c \<and> (a = None \<longrightarrow> c_offset c = length f) \<and>
    (\<forall>e. broken = Some e \<longrightarrow>
       e = c_offset c + kHeaderSize + header_payload_size (frame_header_at f (c_offset c)))"
proof (cases "c_offset c + kHeaderSize \<le> length f")
  case False
  then show ?thesis using assms by (subst (asm) scan_loop.simps) (auto split: if_splits)
next
  case True
  let ?o = "c_offset c" and ?h = "frame_header_at f (c_offset c)"
  have r1: "PreadAll [] f kHeaderSize ?o = (Inr ?h, [])"
    using PreadAll_clean [OF True] by (simp add: frame_header_at_def)
  have lt: "?o < length f" "\<not> length f - ?o < kHeaderSize" using True by (auto simp: kHeaderSize_def)
  show ?thesis
  proof (cases "header_anomaly ?h = None \<and> ?o + kHeaderSize + header_payload_size ?h \<le> length f")
    case False
    have "scan_loop unpack m [] f (length f) c =
      (case header_anomaly ?h of
         Some x \<Rightarrow> (if HeaderIsTornPrefix ?h then (StopAt (Some x) None c, [])
                    else (StopCorrupt (BadHeader x), []))
       | None \<Rightarrow> (StopAt (Some EndsInsidePayload) None c, []))"
      using False lt r1 by (subst scan_loop.simps) (auto simp: Let_def split: option.splits)
    then show ?thesis using assms(1) by (auto split: option.splits if_splits)
  next
    case fit: True
    have r2: "PreadAll [] f (header_payload_size ?h) (?o + kHeaderSize) = (Inr (frame_payload_at f ?o), [])"
      using PreadAll_clean [of "?o + kHeaderSize" "header_payload_size ?h" f] fit
      by (simp add: frame_payload_at_def)
    show ?thesis
      using assms(1,2) True fit
      by (auto simp: scan_loop_frame [OF r1 r2 conjunct1 [OF fit] conjunct2 [OF fit]] complete_frame_def Let_def)
  qed
qed

lemma scan_loop_sound:
  assumes "scan_loop unpack 0 [] f (length f) c = (StopAt a broken c', s)" "c_offset c \<le> length f"
  shows "\<exists>fs rss. frame_run unpack (scan_floor c) fs rss \<and>
    take (c_offset c') f = take (c_offset c) f @ encode_frames fs \<and>
    c_records c' = c_records c @ concat rss \<and>
    c_frontier c' = (if fs = [] then c_frontier c else fst (last fs)) \<and>
    c_offset c' \<le> length f \<and>
    (if a = None then c_offset c' = length f else \<not> intact_frame f (c_offset c'))"
  using assms
proof (induction "length f - c_offset c" arbitrary: c rule: less_induct)
  case less
  let ?o = "c_offset c"
  show ?case
  proof (cases "complete_frame f ?o")
    case False
    then show ?thesis
      using scan_loop_not_complete [OF less.prems(1) False less.prems(2)] less.prems(2)
      by (intro exI [of _ "[]"]) (auto dest: intact_complete)
  next
    case True
    define h where "h = frame_header_at f ?o"
    define p where "p = frame_payload_at f ?o"
    let ?next = "?o + kHeaderSize + header_payload_size h"
    have ok: "header_anomaly h = None" "?next \<le> length f" "frame_crc h p = header_crc h"
      using True by (auto simp: complete_frame_def h_def p_def)
    note rd = complete_frame_reads [OF True, folded h_def p_def]
    note step = scan_loop_frame [OF rd ok(1,2), of unpack 0]
    obtain rs where rs: "decode_payload unpack (header_epoch h) p = Inr rs"
      and ep: "header_epoch h \<noteq> 0" "scan_floor c \<le> header_epoch h"
      and rec: "scan_loop unpack 0 [] f (length f) (c\<lparr>c_records := c_records c @ rs,
          c_frontier := header_epoch h, c_have_frame := True, c_offset := ?next\<rparr>) = (StopAt a broken c', s)"
      using less.prems(1) ok(3) unfolding step
      by (auto simp: Let_def scan_floor_def not_less split: if_splits sum.splits)
    let ?c1 = "c\<lparr>c_records := c_records c @ rs,
          c_frontier := header_epoch h, c_have_frame := True, c_offset := ?next\<rparr>"
    have "length f - c_offset ?c1 < length f - ?o" using ok(2) by (simp add: kHeaderSize_def)
    then obtain fs rss where "frame_run unpack (scan_floor ?c1) fs rss"
        "take (c_offset c') f = take ?next f @ encode_frames fs"
        "c_records c' = c_records c @ rs @ concat rss"
        "c_frontier c' = (if fs = [] then header_epoch h else fst (last fs))"
        "c_offset c' \<le> length f"
        "if a = None then c_offset c' = length f else \<not> intact_frame f (c_offset c')"
      using less.hyps [OF _ rec] ok(2) by auto
    moreover have "take ?next f = take ?o f @ encode_frame (header_epoch h) p"
      using complete_frame_bytes [OF True] by (simp add: h_def p_def)
    ultimately show ?thesis
      using rs ep
      by (intro exI [of _ "(header_epoch h, p) # fs"] exI [of _ "rs # rss"])
        (auto simp: frame_run_Cons scan_floor_def)
  qed
qed

section \<open>Repair\<close>

lemma magic_last_byte:
  assumes "GetLe32 (drop off f) = kMagic" "off + 4 \<le> length f"
  shows "f ! (off + 3) \<noteq> 0"
proof -
  have "take 4 (drop off f) = PutLe32 kMagic"
    using assms PutLe32_GetLe32 [of "take 4 (drop off f)"] by (simp add: GetLe32_take)
  then have "take 4 (drop off f) ! 3 = PutLe32 kMagic ! 3" by simp
  then show ?thesis
    using assms(2) by (simp add: PutLe32_def kMagic_def)
qed

lemma no_intact_in_zeroes:
  assumes "\<And>i. e \<le> i \<Longrightarrow> i < length f \<Longrightarrow> f ! i = 0" "e < off + 4"
  shows "\<not> intact_frame f off"
proof
  assume i: "intact_frame f off"
  then have "off + 4 \<le> length f" by (simp add: intact_frame_def kHeaderSize_def)
  then show False
    using magic_last_byte [OF intact_frame_magic [OF i]] assms(1) [of "off + 3"] assms(2) by simp
qed

lemma repair_tail_sound:
  assumes R: "repair_tail (fault_free w) a broken off (length (w_file w)) = Inr (t, w')"
    and off: "off \<le> length (w_file w)"
  shows "\<exists>e\<ge>off. e \<le> length (w_file w) \<and> t = (off < e) \<and>
    w' = (fault_free w)\<lparr>w_file := patch (w_file w) off (replicate (e - off) 0)\<rparr> \<and>
    (\<forall>i. e \<le> i \<and> i < length (w_file w) \<longrightarrow> w_file w ! i = 0) \<and>
    (\<forall>off'>off. \<not> intact_frame (w_file w) off')"
proof -
  let ?f = "w_file w"
  obtain e where fl: "FindLastNonZero [] ?f off (length ?f) = (Inr e, [])"
    using find_last_clean [of "length ?f" ?f off off] by (auto simp: FindLastNonZero_def)
  note ans = FindLastNonZero_answer [OF fl order_refl]
  have e: "off \<le> e" "e \<le> length ?f" using ans(1,2) off by auto
  show ?thesis
  proof (cases "off < e")
    case False
    then have "e = off" "t = False" "w' = fault_free w"
      using R fl e by (simp_all add: repair_tail_def)
    then show ?thesis
      using ans(3) off no_intact_in_zeroes [of off ?f] by (intro exI [of _ off]) auto
  next
    case True
    obtain p s where se: "SearchForFrameAfter [] ?f off e (length ?f) = (p, s)" by force
    have tr: "(\<exists>x. p = ProbeIoError x) \<or> s = []"
      using search_chunks_transparent [of "[]" ?f "off + 1" e "length ?f" 0 p s] se
      by (simp add: SearchForFrameAfter_def)
    have p: "p = NoFrame" using R fl True se by (auto simp: repair_tail_def Let_def split: if_splits probe.splits)
    have w': "t = True" "w' = (fault_free w)\<lparr>w_file := patch ?f off (replicate (e - off) 0)\<rparr>"
      using R fl True se p tr
      by (auto simp: repair_tail_def Let_def WriteZeroesAndSync_def zero_chunks_clean split: if_splits)
    have "\<not> intact_frame ?f off'" if "off < off'" for off'
    proof (cases "off' + 4 \<le> e")
      case True
      then show ?thesis
        using search_chunks_NoFrame [of ?f "off + 1" e 0 s off'] se p that e(2)
        by (simp add: SearchForFrameAfter_def)
    next
      case False
      then show ?thesis using no_intact_in_zeroes [of e ?f off'] ans(3) by simp
    qed
    then show ?thesis using w' True e ans(3) by (intro exI [of _ e]) auto
  qed
qed

lemma FinishScan_sound:
  assumes FS: "FinishScan w r off = (res, w')" "sr_status res = ScanOk" "sr_status r = ScanOk"
    and lim: "w_initialised_size w = length (w_file w)" "length (w_file w) \<le> off_t_max"
      "w_initial_capacity_bytes w < 2 ^ 64" "off \<le> length (w_file w)"
  shows "res = r \<and> w_write_offset w' = off \<and> w_frontier w' = sr_frontier r \<and>
    (\<exists>k. w_file w' = w_file w @ replicate k 0)"
proof -
  obtain x w1 where c: "EnsureCapacityFor w off 0 = (x, w1)" by force
  have "off \<le> off_t_max" using lim by simp
  note eff = EnsureCapacityFor_effect [OF c lim(1) this lim(2) _ lim(3), simplified]
  show ?thesis
    using FS c eff by (cases x) (auto simp: FinishScan_def IoFailure_def)
qed

lemma patch_zero_tail:
  assumes "off \<le> e" "e \<le> length f" "\<And>i. e \<le> i \<Longrightarrow> i < length f \<Longrightarrow> f ! i = (0 :: byte)"
  shows "patch f off (replicate (e - off) 0) = take off f @ replicate (length f - off) 0"
proof -
  have "drop e f = replicate (length f - e) 0"
    using assms by (intro nth_equalityI) auto
  then show ?thesis
    using assms(1,2) append_take_drop_id [of off f]
    by (cases "e = off") (auto simp: patch_def simp flip: replicate_add)
qed

lemma scan_finish_sound:
  assumes SF: "scan_finish (fault_free w) a broken c (length (w_file w)) = (res, w')"
    and ok: "sr_status res = ScanOk"
    and off: "c_offset c \<le> length (w_file w)"
      "if a = None then c_offset c = length (w_file w) else \<not> intact_frame (w_file w) (c_offset c)"
    and lim: "w_initialised_size w = length (w_file w)" "length (w_file w) \<le> off_t_max"
      "w_initial_capacity_bytes w < 2 ^ 64"
  shows "w_write_offset w' = c_offset c \<and> w_frontier w' = c_frontier c \<and>
    sr_records res = c_records c \<and> sr_frontier res = c_frontier c \<and>
    (\<exists>k. w_file w' = take (c_offset c) (w_file w) @ replicate k 0) \<and>
    (\<forall>off'\<ge>c_offset c. \<not> intact_frame (w_file w) off')"
proof -
  let ?r = "WalScanResult_default\<lparr>sr_frontier := c_frontier c,
    sr_frames_skipped := c_frames_skipped c, sr_bytes_skipped := c_bytes_skipped c,
    sr_records := c_records c\<rparr>"
  show ?thesis
  proof (cases a)
    case None
    then have "\<forall>off'\<ge>c_offset c. \<not> intact_frame (w_file w) off'"
      using off by (auto simp: intact_frame_def kHeaderSize_def)
    moreover have "FinishScan (fault_free w) ?r (c_offset c) = (res, w')"
      using None SF by (simp add: scan_finish_def)
    note FinishScan_sound [OF this ok]
    ultimately show ?thesis
      using None lim off by (auto simp: WalScanResult_default_def)
  next
    case (Some an)
    let ?f = "w_file w"
    obtain t w2 where rt: "repair_tail (fault_free w) an broken (c_offset c) (length ?f) = Inr (t, w2)"
      using SF ok Some repair_tail_state
      by (cases "repair_tail (fault_free w) an broken (c_offset c) (length ?f)")
        (auto simp: scan_finish_def)
    obtain e where e: "c_offset c \<le> e" "e \<le> length ?f"
        "w2 = (fault_free w)\<lparr>w_file := patch ?f (c_offset c) (replicate (e - c_offset c) 0)\<rparr>"
        "\<forall>i. e \<le> i \<and> i < length ?f \<longrightarrow> ?f ! i = 0" "\<forall>off'>c_offset c. \<not> intact_frame ?f off'"
      using repair_tail_sound [OF rt off(1)] by auto
    have f2: "w_file w2 = take (c_offset c) ?f @ replicate (length ?f - c_offset c) 0"
      using e by (simp add: patch_zero_tail)
    have "\<forall>off'\<ge>c_offset c. \<not> intact_frame ?f off'"
      using e(5) off(2) Some by (metis le_neq_implies_less option.distinct(1))
    moreover have "length (w_file w2) = length ?f" using f2 off(1) by simp
    moreover have "FinishScan w2 (?r\<lparr>sr_tail_truncated := t\<rparr>) (c_offset c) = (res, w')"
      using Some SF rt by (simp add: scan_finish_def)
    note FinishScan_sound [OF this ok]
    ultimately show ?thesis
      using lim off(1) e(3) f2 by (auto simp: WalScanResult_default_def simp flip: replicate_add)
  qed
qed



section \<open>Interrupted writes\<close>

lemma GetLe32_bit:
  "bit (GetLe32 [a, b, c, d]) k \<longleftrightarrow>
     (if k < 8 then bit a k else if k < 16 then bit b (k - 8) else if k < 24 then bit c (k - 16)
      else bit d (k - 24))"
  by (auto simp: GetLe32_def bit_simps byte_bit_high dest: byte_bit_less)

lemma PutLe32_bytes:
  "\<exists>a b c d. PutLe32 v = [a, b, c, d] \<and> GetLe32 [a, b, c, d] = v"
  using GetLe32_Put_only [of v] by (auto simp: PutLe32_def)

lemma GetLe32_padded:
  assumes "i \<le> 4"
  shows "unat (GetLe32 (take i (PutLe32 v) @ replicate (4 - i) 0)) \<le> unat v"
proof -
  obtain a b c d where v: "PutLe32 v = [a, b, c, d]" "v = GetLe32 [a, b, c, d]"
    using PutLe32_bytes [of v] by metis
  have "GetLe32 (take i (PutLe32 v) @ replicate (4 - i) 0) = take_bit (8 * i) v"
  proof -
    consider "i = 0" | "i = 1" | "i = 2" | "i = 3" | "i = 4" using assms by linarith
    then show ?thesis
    proof cases
      case 1 then show ?thesis by (simp add: GetLe32_zeroes)
    next
      case 2
      have "GetLe32 [a, 0, 0, 0] = take_bit 8 v"
        by (rule bit_word_eqI) (auto simp: v(2) GetLe32_bit bit_take_bit_iff)
      then show ?thesis using 2 by (simp add: v(1) eval_nat_numeral)
    next
      case 3
      have "GetLe32 [a, b, 0, 0] = take_bit 16 v"
        by (rule bit_word_eqI) (auto simp: v(2) GetLe32_bit bit_take_bit_iff)
      then show ?thesis using 3 by (simp add: v(1) eval_nat_numeral)
    next
      case 4
      have "GetLe32 [a, b, c, 0] = take_bit 24 v"
        by (rule bit_word_eqI) (auto simp: v(2) GetLe32_bit bit_take_bit_iff)
      then show ?thesis using 4 by (simp add: v(1) eval_nat_numeral)
    next
      case 5 then show ?thesis by (simp add: v take_bit_word_eq_self)
    qed
  qed
  then show ?thesis
    by (simp add: unsigned_take_bit_eq take_bit_nat_less_eq_self)
qed

text \<open>The header of a frame of which only \<open>j\<close> bytes reached the file, the rest being zero.\<close>

definition torn_header :: "nat \<Rightarrow> epoch_number \<Rightarrow> bytes \<Rightarrow> bytes" where
  "torn_header j e p = take j (frame_header e p) @ replicate (kHeaderSize - j) 0"

lemma takeWhile_zip_prefix:
  "take j h = take j c \<Longrightarrow> j \<le> length h \<Longrightarrow> j \<le> length c \<Longrightarrow>
   j \<le> length (takeWhile (\<lambda>(x, y). x = y) (zip h c))"
proof (induction j arbitrary: h c)
  case (Suc j)
  then show ?case by (cases h; cases c) auto
qed simp

lemma takeWhile_zip_all:
  "length (takeWhile (\<lambda>(x, y). x = y) (zip h c)) = length c \<Longrightarrow> length c \<le> length h \<Longrightarrow>
   take (length c) h = c"
proof (induction c arbitrary: h)
  case (Cons x c)
  then show ?case by (cases h) (auto split: if_splits)
qed simp

lemma torn_header_prefix:
  assumes "j < 8" "take 8 (torn_header j e p) \<noteq> header_constants"
  shows "HeaderIsTornPrefix (torn_header j e p)"
proof -
  let ?h = "torn_header j e p"
  let ?m = "length (takeWhile (\<lambda>(x, y). x = y) (zip ?h header_constants))"
  have len: "length ?h = kHeaderSize" using assms(1) by (simp add: torn_header_def kHeaderSize_def)
  have "take j ?h = take j header_constants"
    using assms(1) by (simp add: torn_header_def frame_header_def frame_fields_def kHeaderSize_def)
  then have m: "j \<le> ?m"
    using assms(1) by (intro takeWhile_zip_prefix) (simp_all add: len kHeaderSize_def)
  have "?m \<noteq> 8"
    using takeWhile_zip_all [of ?h header_constants] assms(2) len by (auto simp: kHeaderSize_def)
  moreover have "drop ?m ?h = replicate (kHeaderSize - ?m) 0"
    using m by (simp add: torn_header_def kHeaderSize_def)
  ultimately show ?thesis
    by (simp add: HeaderIsTornPrefix_def len list_all_iff)
qed

lemma constants_no_anomaly:
  assumes "take 8 h = header_constants" "8 \<le> length h" "header_payload_size h \<le> kMaxPayloadSize"
  shows "header_anomaly h = None"
proof -
  have "h = header_constants @ drop 8 h"
    using assms(1) by (metis append_take_drop_id)
  then obtain r where "h = PutLe32 kMagic @ PutLe16 kVersion @ PutLe16 kFlags @ r"
    by (auto simp: header_constants_def)
  then show ?thesis
    using assms(3)
    by (simp add: header_anomaly_None header_magic_def header_version_def header_flags_def)
qed

lemma torn_field:
  assumes "length c = 8" "length l = 4" "length r = 8" "j < 20"
  shows "take 4 (drop 8 (take j (c @ l @ r) @ replicate (20 - j) 0)) =
    take (min 4 (j - 8)) l @ replicate (4 - min 4 (j - 8)) 0"
proof -
  consider "j \<le> 8" | "8 < j" "j \<le> 12" | "12 < j" by linarith
  then show ?thesis
  proof cases
    case 1 then show ?thesis using assms by (simp add: min_def)
  next
    case 2 then show ?thesis using assms by (simp add: min_def)
  next
    case 3 then show ?thesis using assms by (simp add: min_def)
  qed
qed

lemma torn_payload_size:
  assumes "j < kHeaderSize" "length p \<le> kMaxPayloadSize"
  shows "header_payload_size (torn_header j e p) \<le> length p"
proof -
  let ?v = "of_nat (length p) :: u32" and ?i = "min 4 (j - 8)"
  obtain r where "frame_header e p = header_constants @ PutLe32 ?v @ r" "length r = 8"
    by (simp add: frame_header_def frame_fields_def)
  then have "take 4 (drop 8 (torn_header j e p)) = take ?i (PutLe32 ?v) @ replicate (4 - ?i) 0"
    using torn_field [of header_constants "PutLe32 ?v" r j] assms(1)
    by (simp only: torn_header_def kHeaderSize_def length_PutLe length_header_constants)
  moreover have "GetLe32 (take 4 (drop 8 (torn_header j e p))) = GetLe32 (drop 8 (torn_header j e p))"
    by (rule GetLe32_take) simp
  ultimately have "header_payload_size (torn_header j e p) =
      unat (GetLe32 (take ?i (PutLe32 ?v) @ replicate (4 - ?i) 0))"
    by (simp only: header_payload_size_def)
  also have "\<dots> \<le> unat ?v" by (rule GetLe32_padded) simp
  also have "\<dots> = length p" using assms(2) by (rule max_payload_u32)
  finally show ?thesis .
qed

lemma torn_header_cases:
  assumes "j < kHeaderSize" "length p \<le> kMaxPayloadSize" "header_anomaly (torn_header j e p) \<noteq> None"
  shows "HeaderIsTornPrefix (torn_header j e p)"
proof -
  let ?h = "torn_header j e p"
  have len: "length ?h = kHeaderSize" using assms(1) by (simp add: torn_header_def)
  have "header_payload_size ?h \<le> kMaxPayloadSize"
    using torn_payload_size [OF assms(1,2)] assms(2) by (rule order_trans)
  then have "take 8 ?h \<noteq> header_constants"
    using constants_no_anomaly [of ?h] assms(3) len by (auto simp: kHeaderSize_def)
  moreover have "j < 8"
  proof (rule ccontr)
    assume "\<not> j < 8"
    then have "take 8 ?h = header_constants"
      using assms(1) by (simp add: torn_header_def frame_header_def frame_fields_def kHeaderSize_def)
    then show False using calculation by simp
  qed
  ultimately show ?thesis by (intro torn_header_prefix)
qed

lemma torn_frame_header:
  assumes "f = pre @ take j (encode_frame e p) @ replicate n 0" "length pre + kHeaderSize \<le> length f"
    "j \<le> length (encode_frame e p)"
  shows "frame_header_at f (length pre) = (if j < kHeaderSize then torn_header j e p else frame_header e p)"
  using assms by (auto simp: frame_header_at_def torn_header_def encode_frame_split min_def)

lemma scan_loop_torn_stops:
  assumes f: "f = pre @ take j (encode_frame e p) @ replicate n 0"
    and c: "c_offset c = length pre" and p: "length p \<le> kMaxPayloadSize"
    and j: "j < kHeaderSize + length p" and nc: "\<not> complete_frame f (length pre)"
    and sl: "scan_loop unpack m [] f (length f) c = (r, s)"
  shows "\<exists>a broken. r = StopAt a broken c"
proof (cases "length pre + kHeaderSize \<le> length f")
  case False
  then show ?thesis using sl c by (subst (asm) scan_loop.simps) (auto split: if_splits)
next
  case True
  let ?h = "frame_header_at f (length pre)"
  have r1: "PreadAll [] f kHeaderSize (length pre) = (Inr ?h, [])"
    using PreadAll_clean [OF True] by (simp add: frame_header_at_def)
  have lt: "length pre < length f" "\<not> length f - length pre < kHeaderSize" using True by (auto simp: kHeaderSize_def)
  have h: "?h = (if j < kHeaderSize then torn_header j e p else frame_header e p)"
    using torn_frame_header [OF f True] j by simp
  have torn: "HeaderIsTornPrefix ?h" if "header_anomaly ?h \<noteq> None"
    using that torn_header_cases [OF _ p] frame_header_fields(1) [OF p]
    unfolding h by (auto split: if_splits)
  show ?thesis
  proof (cases "header_anomaly ?h = None \<and> length pre + kHeaderSize + header_payload_size ?h \<le> length f")
    case False
    then show ?thesis
      using sl lt r1 c torn by (subst (asm) scan_loop.simps)
        (auto simp: Let_def split: option.splits if_splits)
  next
    case fit: True
    have r2: "PreadAll [] f (header_payload_size ?h) (length pre + kHeaderSize) =
        (Inr (frame_payload_at f (length pre)), [])"
      using PreadAll_clean [of "length pre + kHeaderSize" "header_payload_size ?h" f] fit
      by (simp add: frame_payload_at_def)
    have "frame_crc ?h (frame_payload_at f (length pre)) \<noteq> header_crc ?h"
      using nc True fit by (auto simp: complete_frame_def)
    then show ?thesis
      using sl c fit scan_loop_frame [of "[]" f c ?h "[]" "frame_payload_at f (length pre)" "[]" "length f" unpack m]
        r1 r2 by (auto simp: Let_def)
  qed
qed

lemma scan_loop_torn:
  assumes f: "f = pre @ take j (encode_frame e p) @ replicate n 0"
    and c: "c_offset c = length pre" and p: "length p \<le> kMaxPayloadSize"
    and j: "j < kHeaderSize + length p" and nc: "\<not> complete_frame f (length pre)"
  shows "\<exists>a broken. scan_loop unpack m [] f (length f) c = (StopAt a broken c, []) \<and>
    (\<forall>x. broken = Some x \<longrightarrow> length pre + j \<le> x) \<and> (a = None \<longrightarrow> length pre = length f)"
proof -
  let ?o = "length pre" and ?h = "frame_header_at f (length pre)"
  obtain r s where sl: "scan_loop unpack m [] f (length f) c = (r, s)" by force
  have "\<exists>a broken. r = StopAt a broken c"
    using scan_loop_torn_stops [OF f c p j nc sl] .
  then obtain a broken where r: "r = StopAt a broken c" by blast
  have s: "s = []" using scan_loop_transparent [OF sl] sl r by auto
  have "c_offset c \<le> length f" by (simp add: c f)
  note w = scan_loop_not_complete [OF sl [unfolded r] _ this]
  have "?o + j \<le> x" if "broken = Some x" for x
  proof -
    have x: "x = ?o + kHeaderSize + header_payload_size ?h" using w nc c that by auto
    show ?thesis
    proof (cases "j < kHeaderSize")
      case True then show ?thesis using x by simp
    next
      case False
      then have "?h = frame_header e p" using torn_frame_header [OF f] j by (simp add: f)
      then show ?thesis using x j frame_header_fields(2) [OF p] by simp
    qed
  qed
  then show ?thesis using sl r s w nc c by auto
qed

text \<open>The buckets whose frames lie whole within the first \<open>k\<close> bytes of a group.\<close>

fun whole_buckets :: "(LogRecords \<Rightarrow> bytes) \<Rightarrow> nat \<Rightarrow> bucket list \<Rightarrow> bucket list" where
  "whole_buckets pack k [] = []"
| "whole_buckets pack k (b # bs) =
     (let n = kHeaderSize + length (pack (snd b))
      in if n \<le> k then b # whole_buckets pack (k - n) bs else [])"

definition torn_at :: "(LogRecords \<Rightarrow> bytes) \<Rightarrow> nat \<Rightarrow> bucket list \<Rightarrow> bytes" where
  "torn_at pack k cs = drop (length (encode_log pack (whole_buckets pack k cs))) (take k (encode_log pack cs))"

lemma take_encode_log:
  "take k (encode_log pack cs) = encode_log pack (whole_buckets pack k cs) @ torn_at pack k cs"
  unfolding torn_at_def
proof (induction cs arbitrary: k)
  case (Cons b cs)
  obtain e rs where b: "b = (e, rs)" by force
  show ?case using Cons.IH [of "k - (kHeaderSize + length (pack rs))"] by (simp add: b Let_def)
qed simp

lemma whole_buckets_prefix: "\<exists>es. cs = whole_buckets pack k cs @ es"
  by (induction cs arbitrary: k) (auto simp: Let_def)

lemma torn_at_cases:
  "torn_at pack k cs = [] \<or> (\<exists>e rs es j. cs = whole_buckets pack k cs @ (e, rs) # es \<and>
     j < kHeaderSize + length (pack rs) \<and> torn_at pack k cs = take j (encode_frame e (pack rs)))"
proof (induction cs arbitrary: k)
  case (Cons b cs)
  obtain e rs where b: "b = (e, rs)" by force
  let ?n = "kHeaderSize + length (pack rs)"
  show ?case
  proof (cases "?n \<le> k")
    case True
    then have w: "whole_buckets pack k (b # cs) = b # whole_buckets pack (k - ?n) cs"
      and t: "torn_at pack k (b # cs) = torn_at pack (k - ?n) cs"
      by (simp_all add: b torn_at_def)
    from Cons.IH [of "k - ?n"] show ?thesis
    proof
      assume "\<exists>e rs es j. cs = whole_buckets pack (k - ?n) cs @ (e, rs) # es \<and>
        j < kHeaderSize + length (pack rs) \<and> torn_at pack (k - ?n) cs = take j (encode_frame e (pack rs))"
      then show ?thesis unfolding w t append_Cons by blast
    qed (simp add: t)
  next
    case False
    then have "torn_at pack k (b # cs) = take k (encode_frame e (pack rs))"
      and "whole_buckets pack k (b # cs) = []" by (simp_all add: b torn_at_def)
    then show ?thesis using False b by (metis append_Nil not_le_imp_less)
  qed
qed (simp add: torn_at_def)

lemma repair_tail_torn:
  assumes f: "w_file w = pre @ t @ replicate n 0" and t: "length t \<le> kHeaderSize + kMaxPayloadSize"
    and br: "\<forall>x. broken = Some x \<longrightarrow> length pre + length t \<le> x"
    and magic: "\<forall>off>length pre. off + 4 \<le> length pre + length t \<longrightarrow> GetLe32 (drop off (w_file w)) \<noteq> kMagic"
  shows "\<exists>tr. repair_tail (fault_free w) a broken (length pre) (length (w_file w)) =
    Inr (tr, (fault_free w)\<lparr>w_file := pre @ replicate (length t + n) 0\<rparr>)"
proof -
  let ?f = "w_file w" and ?o = "length pre"
  obtain e where fl: "FindLastNonZero [] ?f ?o (length ?f) = (Inr e, [])"
    using find_last_clean [of "length ?f" ?f ?o ?o] by (auto simp: FindLastNonZero_def)
  note ans = FindLastNonZero_answer [OF fl order_refl]
  have e: "?o \<le> e" "e \<le> ?o + length t" "e \<le> length ?f"
  proof -
    show "?o \<le> e" by (rule ans(1))
    show le: "e \<le> ?o + length t"
    proof (rule ccontr)
      assume "\<not> e \<le> ?o + length t"
      then have gt: "?o + length t < e" and ne: "e \<noteq> ?o" by auto
      have "e - 1 = (?o + length t) + (e - 1 - ?o - length t)" using gt by simp
      moreover have "e - 1 - ?o - length t < n" using ans(2) [OF ne] gt by (auto simp: f)
      ultimately have "?f ! (e - 1) = 0"
        using nth_append_length_plus [of "pre @ t" "replicate n 0" "e - 1 - ?o - length t"] by (simp add: f)
      then show False using ans(2) [OF ne] by blast
    qed
    then show "e \<le> length ?f" by (simp add: f)
  qed
  have zero: "patch ?f ?o (replicate (e - ?o) 0) = pre @ replicate (length t + n) 0"
    using patch_zero_tail [OF e(1,3) ans(3)] by (simp add: f)
  show ?thesis
  proof (cases "?o < e")
    case False
    then have "?f = pre @ replicate (length t + n) 0" using zero e(1) by simp
    then show ?thesis using fl False e(1) by (auto simp: repair_tail_def fault_free_def set_pread_def clean_io_def)
  next
    case True
    have nb: "\<not> (case broken of None \<Rightarrow> False | Some x \<Rightarrow> x < e)"
      using br e(2) by (auto split: option.splits)
    have "search_chunks [] ?f (?o + 1) e (length ?f) 0 = (NoFrame, [])"
      using magic e t by (intro search_chunks_no_magic) (auto simp: kProbeBudget_def kHeaderSize_def kMaxPayloadSize_def)
    then show ?thesis
      using fl True nb zero
      by (auto simp: repair_tail_def SearchForFrameAfter_def WriteZeroesAndSync_def zero_chunks_clean Let_def
          fault_free_def set_pread_def clean_io_def split: if_splits)
  qed
qed

text \<open>The frame loop over a log followed by an unfinished group stops at the end of the last whole
  frame, knowing no more of the rest than that it is no complete frame.\<close>

lemma scan_loop_unfinished:
  assumes f: "f = encode_log pack ds @ t @ replicate n 0" and ok: "log_ok pack (ds @ es)"
    and mp: "msgpack_inverts pack unpack ds" and nc: "\<not> complete_frame f (length (encode_log pack ds))"
    and t: "t = [] \<or> (\<exists>e rs es' j. es = (e, rs) # es' \<and> j < kHeaderSize + length (pack rs) \<and>
      t = take j (encode_frame e (pack rs)))"
  shows "\<exists>a broken. scan_loop unpack 0 [] f (length f) scan_start =
      (StopAt a broken (fold (scan_bucket pack 0) ds scan_start), []) \<and>
    (\<forall>x. broken = Some x \<longrightarrow> length (encode_log pack ds) + length t \<le> x) \<and>
    (a = None \<longrightarrow> length (encode_log pack ds) = length f)"
proof -
  let ?c = "fold (scan_bucket pack 0) ds scan_start" and ?o = "length (encode_log pack ds)"
  have sl: "scan_loop unpack 0 [] f (length f) scan_start = scan_loop unpack 0 [] f (length f) ?c"
    using ok mp
    by (intro scan_loop_log [where pre = "[]" and rest = "t @ replicate n 0"])
      (auto simp: f log_ok_def sorted_append scan_start_def)
  have off: "c_offset ?c = ?o" by (simp add: scan_fold_fields scan_start_def)
  from t show ?thesis
  proof
    assume t: "t = []"
    have "\<And>i. c_offset ?c \<le> i \<Longrightarrow> i < length f \<Longrightarrow> f ! i = 0"
      using nth_zeroes [of "encode_log pack ds" _ n] by (simp add: off f t)
    then obtain a where a: "scan_loop unpack 0 [] f (length f) ?c = (StopAt a None ?c, [])"
      using scan_loop_zeroes [of ?c f unpack 0] off f by auto
    have "a = None \<longrightarrow> ?o = length f"
      using scan_loop_not_complete [OF a] nc off f by auto
    then show ?thesis using a sl by auto
  next
    assume "\<exists>e rs es' j. es = (e, rs) # es' \<and> j < kHeaderSize + length (pack rs) \<and>
      t = take j (encode_frame e (pack rs))"
    then obtain e rs es' j where es: "es = (e, rs) # es'" and j: "j < kHeaderSize + length (pack rs)"
      and t: "t = take j (encode_frame e (pack rs))" by blast
    have "length (pack rs) \<le> kMaxPayloadSize" using ok es by (auto simp: log_ok_def bucket_ok_def)
    then show ?thesis
      using scan_loop_torn [OF f [unfolded t] off _ j nc, of unpack 0] sl j by (auto simp: t)
  qed
qed

lemma scan_unfinished_result:
  assumes f: "w_file w = encode_log pack ds @ t @ replicate n 0" and ok: "log_ok pack (ds @ es)"
    and mp: "msgpack_inverts pack unpack ds" and nc: "\<not> complete_frame (w_file w) (length (encode_log pack ds))"
    and t: "t = [] \<or> (\<exists>e rs es' j. es = (e, rs) # es' \<and> j < kHeaderSize + length (pack rs) \<and>
      t = take j (encode_frame e (pack rs)))"
    and magic: "\<forall>off>length (encode_log pack ds). off + 4 \<le> length (encode_log pack ds) + length t \<longrightarrow>
      GetLe32 (drop off (w_file w)) \<noteq> kMagic"
    and st: "w_state w \<noteq> Failed" "w_initialised_size w = length (w_file w)"
  shows "\<exists>r. ScanAndRepair unpack (fault_free w) 0 =
      FinishScan ((fault_free w)\<lparr>w_file := encode_log pack ds @ replicate (length t + n) 0\<rparr>)
        r (length (encode_log pack ds)) \<and>
    sr_status r = ScanOk \<and> sr_records r = concat (map snd (filter (\<lambda>b. fst b \<noteq> 0) ds)) \<and>
    sr_frontier r = log_frontier ds"
proof -
  let ?f = "w_file w" and ?c = "fold (scan_bucket pack 0) ds scan_start"
  let ?w = "(fault_free w)\<lparr>w_file := encode_log pack ds @ replicate (length t + n) 0\<rparr>"
  obtain a broken where sl: "scan_loop unpack 0 [] ?f (length ?f) scan_start = (StopAt a broken ?c, [])"
    and br: "\<forall>x. broken = Some x \<longrightarrow> length (encode_log pack ds) + length t \<le> x"
    and a: "a = None \<longrightarrow> length (encode_log pack ds) = length ?f"
    using scan_loop_unfinished [OF f ok mp nc t] by blast
  note fields = scan_fold_fields [of pack 0 ds]
  have off: "c_offset ?c = length (encode_log pack ds)" by (simp add: fields scan_start_def)
  have tl: "length t \<le> kHeaderSize + kMaxPayloadSize"
    using t ok by (auto simp: log_ok_def bucket_ok_def)
  have same: "set_pread ((fault_free w)\<lparr>w_io := clean_io, w_initialised_size := length ?f\<rparr>) [] = fault_free w"
    using st by (simp add: fault_free_def set_pread_def clean_io_def)
  have "ScanAndRepair unpack (fault_free w) 0 = scan_finish (fault_free w) a broken ?c (length ?f)"
    using st sl by (simp add: ScanAndRepair_def scan_begin_def Let_def same)
  moreover have "\<exists>tr. scan_finish (fault_free w) a broken ?c (length ?f) =
      FinishScan ?w (WalScanResult_default\<lparr>sr_frontier := c_frontier ?c,
        sr_frames_skipped := c_frames_skipped ?c, sr_bytes_skipped := c_bytes_skipped ?c,
        sr_records := c_records ?c, sr_tail_truncated := tr\<rparr>) (length (encode_log pack ds))"
  proof (cases a)
    case None
    then have "?w = fault_free w" using a f by (simp add: fault_free_def)
    then show ?thesis using None
      by (intro exI [of _ False]) (simp add: scan_finish_def off WalScanResult_default_def)
  next
    case (Some an)
    obtain tr where "repair_tail (fault_free w) an broken (length (encode_log pack ds)) (length ?f) = Inr (tr, ?w)"
      using repair_tail_torn [OF f tl br magic] by blast
    then show ?thesis using Some
      by (intro exI [of _ tr]) (simp add: scan_finish_def off)
  qed
  ultimately show ?thesis
    by (auto simp: fields scan_start_def WalScanResult_default_def log_frontier_def word_le_0_iff)
qed



end
