(* ===== verification/PackedPrimaryKeys.thy ===== *)
theory PackedPrimaryKeys
  imports LdbPrelude "HOL-Library.List_Lexorder" "HOL-Library.Multiset"
begin

text \<open>
  \<^verbatim>\<open>src/types/packed_primary_keys.hpp\<close>: the immutable, sorted, deduplicated list of primary
  keys a secondary-index entry holds, packed as length-prefixed records in one allocation.

  A \<open>PackedPrimaryKeys::Ptr\<close> is an optional \<open>packed\<close> record (null is \<open>None\<close>). A cursor is
  the list of record bytes from the cursor to the limit, so \<open>cursor == limit\<close> is the empty list.
  \<open>std::length_error\<close> is \<open>LengthError\<close>; an assertion that does not hold is
  \<open>AssertFailed\<close>, and the lemmas show that no assertion fails on a list these operations built.
  Keys are byte strings under the unsigned lexicographic order of \<open>std::string_view\<close>.
\<close>

section \<open>Data\<close>

type_synonym pkey = bytes

record packed =
  pk_count :: nat
  pk_bytes :: nat
  pk_records :: bytes

datatype pk_error = LengthError | AssertFailed

type_synonym packed_ptr = "packed option"

definition uint32_max :: nat where
  "uint32_max = 4294967295"

definition CheckFitsUint32 :: "nat \<Rightarrow> pk_error + nat" where
  "CheckFitsUint32 n = (if n > uint32_max then Inl LengthError else Inr n)"

section \<open>The record codec\<close>

fun VarintSize :: "nat \<Rightarrow> nat" where
  "VarintSize n = (if n \<ge> 0x80 then Suc (VarintSize (n div 128)) else 1)"

definition EncodedRecordSize :: "pkey \<Rightarrow> nat" where
  "EncodedRecordSize key = VarintSize (length key) + length key"

fun WriteVarint :: "nat \<Rightarrow> bytes" where
  "WriteVarint n =
     (if n \<ge> 0x80 then ((of_nat n AND 0x7f) OR 0x80) # WriteVarint (n div 128) else [of_nat n])"

definition WriteRecord :: "pkey \<Rightarrow> bytes" where
  "WriteRecord key = WriteVarint (length key) @ key"

text \<open>The loop of \<open>DecodeRecord\<close>: the decoded length and the cursor after the prefix.\<close>

fun decode_length :: "bytes \<Rightarrow> nat \<Rightarrow> nat \<Rightarrow> (nat \<times> bytes) option" where
  "decode_length [] shift len = None"
| "decode_length (b # cursor) shift len =
     (let len' = len OR push_bit shift (unat (b AND 0x7f))
      in if b AND 0x80 = 0 then Some (len', cursor)
         else if shift + 7 < 64 then decode_length cursor (shift + 7) len'
         else None)"

text \<open>The key of the record at the cursor and the cursor of the next record; \<open>None\<close> when one of
  its assertions does not hold.\<close>

definition DecodeRecord :: "bytes \<Rightarrow> (pkey \<times> bytes) option" where
  "DecodeRecord start =
     (case decode_length start 0 0 of
        None \<Rightarrow> None
      | Some (len, cursor) \<Rightarrow>
          if len \<le> length cursor then Some (take len cursor, drop len cursor) else None)"

lemma decode_length_shorter:
  "decode_length bs shift len = Some (n, rest) \<Longrightarrow> length rest < length bs"
  by (induction bs shift len rule: decode_length.induct) (auto simp: Let_def split: if_splits)

lemma DecodeRecord_shorter: "DecodeRecord bs = Some (v, rest) \<Longrightarrow> length rest < length bs"
  by (auto simp: DecodeRecord_def split: option.splits if_splits dest!: decode_length_shorter)

section \<open>Operations\<close>

text \<open>\<open>FromSortedDeduped\<close> adds up the encoded sizes, checking after every key.\<close>

fun payload_size :: "pkey list \<Rightarrow> nat \<Rightarrow> pk_error + nat" where
  "payload_size [] acc = Inr acc"
| "payload_size (key # keys) acc =
     (case CheckFitsUint32 (acc + EncodedRecordSize key) of
        Inl e \<Rightarrow> Inl e
      | Inr acc' \<Rightarrow> payload_size keys acc')"

definition FromSortedDeduped :: "pkey list \<Rightarrow> pk_error + packed_ptr" where
  "FromSortedDeduped keys =
     (case payload_size keys 0 of
        Inl e \<Rightarrow> Inl e
      | Inr sz \<Rightarrow>
          (case CheckFitsUint32 (length keys) of
             Inl e \<Rightarrow> Inl e
           | Inr n \<Rightarrow>
               Inr (Some \<lparr>pk_count = n, pk_bytes = sz,
                          pk_records = concat (map WriteRecord keys)\<rparr>)))"

definition FromOne :: "pkey \<Rightarrow> pk_error + packed_ptr" where
  "FromOne key =
     (case CheckFitsUint32 (EncodedRecordSize key) of
        Inl e \<Rightarrow> Inl e
      | Inr sz \<Rightarrow> Inr (Some \<lparr>pk_count = 1, pk_bytes = sz, pk_records = WriteRecord key\<rparr>))"

text \<open>The search loop of \<open>Insert\<close>: \<open>Inr None\<close> when the key is present, otherwise the cursor
  at which the new record goes.\<close>

function insert_scan :: "bytes \<Rightarrow> pkey \<Rightarrow> pk_error + bytes option" where
  "insert_scan cursor key =
     (if cursor = [] then Inr (Some [])
      else case DecodeRecord cursor of
             None \<Rightarrow> Inl AssertFailed
           | Some (v, next_cursor) \<Rightarrow>
               if v = key then Inr None
               else if \<not> v < key then Inr (Some cursor)
               else insert_scan next_cursor key)"
  by pat_completeness auto
termination
  by (relation "measure (\<lambda>(cursor, _). length cursor)") (auto dest: DecodeRecord_shorter)

definition Insert :: "packed_ptr \<Rightarrow> pkey \<Rightarrow> pk_error + packed_ptr" where
  "Insert ptr key =
     (case ptr of
        None \<Rightarrow> FromOne key
      | Some keys \<Rightarrow>
          (case insert_scan (pk_records keys) key of
             Inl e \<Rightarrow> Inl e
           | Inr None \<Rightarrow> Inr ptr
           | Inr (Some insert_pos) \<Rightarrow>
               (case (CheckFitsUint32 (pk_count keys + 1),
                      CheckFitsUint32 (pk_bytes keys + EncodedRecordSize key)) of
                  (Inr n, Inr sz) \<Rightarrow>
                    (let prefix = take (length (pk_records keys) - length insert_pos)
                                    (pk_records keys)
                     in Inr (Some \<lparr>pk_count = n, pk_bytes = sz,
                               pk_records = prefix @ WriteRecord key @ insert_pos\<rparr>))
                | _ \<Rightarrow> Inl LengthError)))"

text \<open>The search loop of \<open>Erase\<close>: the cursors at and after the record to remove.\<close>

function erase_scan :: "bytes \<Rightarrow> pkey \<Rightarrow> pk_error + (bytes \<times> bytes) option" where
  "erase_scan cursor key =
     (if cursor = [] then Inr None
      else case DecodeRecord cursor of
             None \<Rightarrow> Inl AssertFailed
           | Some (v, next_cursor) \<Rightarrow>
               if v = key then Inr (Some (cursor, next_cursor))
               else if \<not> v < key then Inr None
               else erase_scan next_cursor key)"
  by pat_completeness auto
termination
  by (relation "measure (\<lambda>(cursor, _). length cursor)") (auto dest: DecodeRecord_shorter)

definition Erase :: "packed_ptr \<Rightarrow> pkey \<Rightarrow> pk_error + packed_ptr" where
  "Erase ptr key =
     (case ptr of
        None \<Rightarrow> Inr ptr
      | Some keys \<Rightarrow>
          if pk_count keys = 0 then Inr ptr
          else
            (case erase_scan (pk_records keys) key of
               Inl e \<Rightarrow> Inl e
             | Inr None \<Rightarrow> Inr ptr
             | Inr (Some (start, next_cursor)) \<Rightarrow>
                 (case CheckFitsUint32 (pk_count keys - 1) of
                    Inl e \<Rightarrow> Inl e
                  | Inr n \<Rightarrow>
                      (let prefix = take (length (pk_records keys) - length start)
                                      (pk_records keys)
                       in Inr (Some \<lparr>pk_count = n,
                                 pk_bytes = pk_bytes keys - (length start - length next_cursor),
                                 pk_records = prefix @ next_cursor\<rparr>)))))"

section \<open>The view\<close>

text \<open>Iteration from a cursor with a number of remaining records: the keys \<open>operator*\<close> yields
  until the iterator equals \<open>end()\<close>; \<open>None\<close> when an assertion does not hold on the way.\<close>

fun iterate :: "bytes \<Rightarrow> nat \<Rightarrow> pkey list option" where
  "iterate cursor 0 = (if cursor = [] then Some [] else None)"
| "iterate cursor (Suc remaining) =
     (case DecodeRecord cursor of
        None \<Rightarrow> None
      | Some (v, next_cursor) \<Rightarrow> map_option (Cons v) (iterate next_cursor remaining))"

definition view_size :: "packed_ptr \<Rightarrow> nat" where
  "view_size ptr = (case ptr of None \<Rightarrow> 0 | Some keys \<Rightarrow> pk_count keys)"

definition view_empty :: "packed_ptr \<Rightarrow> bool" where
  "view_empty ptr = (view_size ptr = 0)"

definition view_keys :: "packed_ptr \<Rightarrow> pkey list option" where
  "view_keys ptr =
     (case ptr of None \<Rightarrow> Some [] | Some keys \<Rightarrow> iterate (pk_records keys) (pk_count keys))"

text \<open>\<open>lower_bound\<close> walks the view to the first key that is not less; the result is the rest of
  the view from there, empty for \<open>end()\<close>.\<close>

fun lower_bound_from :: "pkey list \<Rightarrow> pkey \<Rightarrow> pkey list" where
  "lower_bound_from [] key = []"
| "lower_bound_from (v # vs) key = (if \<not> v < key then v # vs else lower_bound_from vs key)"

definition lower_bound :: "packed_ptr \<Rightarrow> pkey \<Rightarrow> pkey list option" where
  "lower_bound ptr key = map_option (\<lambda>vs. lower_bound_from vs key) (view_keys ptr)"

definition contains :: "packed_ptr \<Rightarrow> pkey \<Rightarrow> bool option" where
  "contains ptr key =
     map_option (\<lambda>rest. case rest of [] \<Rightarrow> False | v # _ \<Rightarrow> v = key) (lower_bound ptr key)"

fun all_equal :: "pkey list \<Rightarrow> pkey list \<Rightarrow> bool" where
  "all_equal (v # vs) (w # ws) = (if v \<noteq> w then False else all_equal vs ws)"
| "all_equal _ _ = True"

definition view_equals :: "packed_ptr \<Rightarrow> packed_ptr \<Rightarrow> bool option" where
  "view_equals a b =
     (if view_size a \<noteq> view_size b then Some False
      else case (view_keys a, view_keys b) of
             (Some ks, Some ls) \<Rightarrow> Some (all_equal ks ls)
           | _ \<Rightarrow> None)"

section \<open>The codec round trip\<close>


lemma unat_byte_take_bit_7: "unat (take_bit 7 (of_nat n :: byte)) = take_bit 7 n"
  by (simp only: unsigned_take_bit_eq unsigned_of_nat take_bit_take_bit) simp

lemma varint_low_byte: "unat ((((of_nat n AND 0x7f) OR 0x80) :: byte) AND 0x7f) = take_bit 7 n"
proof -
  have "((((of_nat n AND 0x7f) OR 0x80) :: byte) AND 0x7f) = take_bit 7 (of_nat n)"
    by (rule bit_word_eqI) (auto simp: bit_simps bit_numeral_rec less_Suc_eq numeral_eq_Suc)
  then show ?thesis
    by (simp only: unat_byte_take_bit_7)
qed

lemma varint_more: "(((of_nat n AND 0x7f) OR 0x80) :: byte) AND 0x80 \<noteq> 0"
proof -
  have "bit ((((of_nat n AND 0x7f) OR 0x80) :: byte) AND 0x80) 7"
    by (simp add: bit_simps bit_numeral_rec numeral_eq_Suc)
  then show ?thesis by fastforce
qed

lemma varint_last:
  assumes "n < 128"
  shows "(of_nat n :: byte) AND 0x80 = 0" "unat ((of_nat n :: byte) AND 0x7f) = n"
proof -
  have tb: "take_bit 7 n = n"
    using assms by (simp add: take_bit_nat_eq_self_iff)
  have w: "(of_nat n :: byte) = take_bit 7 (of_nat n)"
    by (rule word_unat_eq_iff [THEN iffD2]) (use assms in \<open>simp only: unat_byte_take_bit_7 tb unsigned_of_nat\<close>, simp add: take_bit_nat_eq_self_iff)
  have nb: "\<not> bit (of_nat n :: byte) 7"
    by (subst w) (simp add: bit_take_bit_iff)
  show "(of_nat n :: byte) AND 0x80 = 0"
    by (rule bit_word_eqI) (use nb in \<open>auto simp: bit_simps bit_numeral_rec less_Suc_eq numeral_eq_Suc\<close>)
  have "(of_nat n :: byte) AND 0x7f = take_bit 7 (of_nat n)"
    by (rule bit_word_eqI) (auto simp: bit_simps bit_numeral_rec less_Suc_eq numeral_eq_Suc)
  then show "unat ((of_nat n :: byte) AND 0x7f) = n"
    by (simp only: unat_byte_take_bit_7 tb)
qed

lemma varint_join: "push_bit s (take_bit 7 n) OR push_bit (s + 7) (n div 128) = push_bit s (n :: nat)"
proof -
  have "n div 128 = drop_bit 7 n" by (simp add: drop_bit_eq_div)
  then have "push_bit s (take_bit 7 n) OR push_bit (s + 7) (n div 128) = push_bit s (take_bit 7 n OR push_bit 7 (drop_bit 7 n))"
    by (simp add: push_bit_or add.commute)
  also have "take_bit 7 n OR push_bit 7 (drop_bit 7 n) = n"
  proof (rule bit_eqI)
    fix k
    show "bit (take_bit 7 n OR push_bit 7 (drop_bit 7 n)) k = bit n k"
      by (cases "k < 7") (auto simp: bit_simps)
  qed
  finally show ?thesis .
qed

lemma decode_length_WriteVarint:
  "shift + 7 * VarintSize n < 71 \<Longrightarrow>
   decode_length (WriteVarint n @ rest) shift len = Some (len OR push_bit shift n, rest)"
proof (induction n arbitrary: shift len rule: WriteVarint.induct)
  case (1 n)
  show ?case
  proof (cases "n \<ge> 128")
    case True
    have "VarintSize n = Suc (VarintSize (n div 128))" "VarintSize (n div 128) \<ge> 1"
      using True by (auto simp: VarintSize.simps [of n] VarintSize.simps [of "n div 128"])
    then have "shift + 7 + 7 * VarintSize (n div 128) < 71" "shift + 7 < 64"
      using 1(2) by linarith+
    then show ?thesis
      using 1(1) [of "shift + 7"] True
      by (simp add: WriteVarint.simps [of n] varint_more varint_low_byte Let_def or.assoc varint_join
               del: WriteVarint.simps)
  next
    case False
    then show ?thesis
      by (simp add: WriteVarint.simps [of n] varint_last Let_def del: WriteVarint.simps)
  qed
qed

lemma length_WriteVarint [simp]: "length (WriteVarint n) = VarintSize n"
  by (induction n rule: WriteVarint.induct) simp

lemma VarintSize_uint32: "n \<le> uint32_max \<Longrightarrow> VarintSize n \<le> 5"
  unfolding uint32_max_def
  apply (subst VarintSize.simps) apply (subst VarintSize.simps)
  apply (subst VarintSize.simps) apply (subst VarintSize.simps) apply (subst VarintSize.simps)
  by (auto simp: div_mult2_eq [symmetric] simp del: VarintSize.simps)

declare VarintSize.simps [simp del] WriteVarint.simps [simp del] insert_scan.simps [simp del] erase_scan.simps [simp del]

section \<open>What a list represents\<close>

text \<open>The canonical packed form of a finite set of keys, and that a pointer holds it: the
  invariant of the representation. A null pointer holds the empty set.\<close>

definition pack_records :: "pkey list \<Rightarrow> bytes" where
  "pack_records ks = concat (map WriteRecord ks)"

definition packed_size :: "pkey set \<Rightarrow> nat" where
  "packed_size S = (\<Sum>k\<in>S. EncodedRecordSize k)"

definition pack_set :: "pkey set \<Rightarrow> packed" where
  "pack_set S = \<lparr>pk_count = card S, pk_bytes = packed_size S,
                 pk_records = pack_records (sorted_list_of_set S)\<rparr>"

definition packs :: "packed_ptr \<Rightarrow> pkey set \<Rightarrow> bool" where
  "packs ptr S \<longleftrightarrow> finite S \<and> packed_size S \<le> uint32_max \<and>
     (case ptr of None \<Rightarrow> S = {} | Some p \<Rightarrow> p = pack_set S)"

lemma pack_records_simps [simp]:
  "pack_records [] = []" "pack_records (k # ks) = WriteRecord k @ pack_records ks"
  "pack_records (ks @ ls) = pack_records ks @ pack_records ls"
  by (simp_all add: pack_records_def)

lemma length_WriteRecord [simp]: "length (WriteRecord k) = EncodedRecordSize k"
  by (simp add: WriteRecord_def EncodedRecordSize_def)

lemma VarintSize_pos [simp]: "0 < VarintSize n"
  by (subst VarintSize.simps) simp

lemma EncodedRecordSize_pos [simp]: "0 < EncodedRecordSize k"
  by (simp add: EncodedRecordSize_def)

lemma WriteRecord_neq_Nil [simp]: "WriteRecord k \<noteq> []"
  using length_WriteRecord [of k] EncodedRecordSize_pos [of k] by force

lemma DecodeRecord_WriteRecord:
  assumes "EncodedRecordSize key \<le> uint32_max"
  shows "DecodeRecord (WriteRecord key @ rest) = Some (key, rest)"
proof -
  have "VarintSize (length key) \<le> 5"
    using assms by (intro VarintSize_uint32) (simp add: EncodedRecordSize_def)
  then show ?thesis
    by (simp add: DecodeRecord_def WriteRecord_def decode_length_WriteVarint)
qed

lemma length_pack_records: "distinct ks \<Longrightarrow> length (pack_records ks) = packed_size (set ks)"
  by (induction ks) (auto simp: packed_size_def)

lemma packed_size_insert:
  "finite S \<Longrightarrow> k \<notin> S \<Longrightarrow> packed_size (insert k S) = EncodedRecordSize k + packed_size S"
  by (simp add: packed_size_def)

lemma packed_size_mono: "finite T \<Longrightarrow> S \<subseteq> T \<Longrightarrow> packed_size S \<le> packed_size T"
  by (simp add: packed_size_def sum_mono2)

lemma packed_size_member: "finite S \<Longrightarrow> k \<in> S \<Longrightarrow> EncodedRecordSize k \<le> packed_size S"
  using packed_size_mono [of S "{k}"] by (simp add: packed_size_def)

lemma card_le_packed_size: "finite S \<Longrightarrow> card S \<le> packed_size S"
proof (induction S rule: finite_induct)
  case (insert k S)
  have "card (insert k S) = Suc (card S)" "0 < EncodedRecordSize k"
    using insert.hyps by simp_all
  then show ?case
    using insert packed_size_insert [of S k] by linarith
qed (simp add: packed_size_def)

lemma insert_scan_pack:
  assumes "sorted ks" "\<forall>k\<in>set ks. EncodedRecordSize k \<le> uint32_max"
  shows "insert_scan (pack_records ks) key =
    Inr (if key \<in> set ks then None else Some (pack_records (dropWhile (\<lambda>v. v < key) ks)))"
  using assms
proof (induction ks)
  case (Cons k ks)
  then show ?case
    by (subst insert_scan.simps) (auto simp: DecodeRecord_WriteRecord)
qed (simp add: insert_scan.simps)

lemma erase_scan_pack:
  assumes "sorted ks" "\<forall>k\<in>set ks. EncodedRecordSize k \<le> uint32_max"
  shows "erase_scan (pack_records ks) key =
    Inr (if key \<in> set ks
         then Some (pack_records (dropWhile (\<lambda>v. v < key) ks),
                    pack_records (tl (dropWhile (\<lambda>v. v < key) ks)))
         else None)"
  using assms
proof (induction ks)
  case (Cons k ks)
  then show ?case
    by (subst erase_scan.simps) (auto simp: DecodeRecord_WriteRecord)
qed (simp add: erase_scan.simps)

lemma insort_split:
  "sorted ks \<Longrightarrow> insort key ks = takeWhile (\<lambda>v. v < key) ks @ key # dropWhile (\<lambda>v. v < key) ks"
  by (induction ks) (auto simp: not_less less_le_not_le)

lemma dropWhile_less_member:
  "sorted ks \<Longrightarrow> key \<in> set ks \<Longrightarrow>
   dropWhile (\<lambda>v. v < key) ks = key # tl (dropWhile (\<lambda>v. v < key) ks)"
  by (induction ks) (auto simp: not_less)

lemma remove1_split:
  "sorted ks \<Longrightarrow> key \<in> set ks \<Longrightarrow>
   remove1 key ks = takeWhile (\<lambda>v. v < key) ks @ tl (dropWhile (\<lambda>v. v < key) ks)"
  by (induction ks) (auto simp: not_less)

lemma pack_take_split:
  "take (length (pack_records ks) - length (pack_records (dropWhile P ks))) (pack_records ks)
     = pack_records (takeWhile P ks)"
proof -
  have "pack_records ks = pack_records (takeWhile P ks) @ pack_records (dropWhile P ks)"
    by (metis pack_records_simps(3) takeWhile_dropWhile_id)
  then show ?thesis by simp
qed

lemma FromOne_pack:
  "FromOne key = (if EncodedRecordSize key \<le> uint32_max then Inr (Some (pack_set {key}))
                  else Inl LengthError)"
  by (simp add: FromOne_def CheckFitsUint32_def pack_set_def packed_size_def)

lemma Insert_canonical:
  assumes "packs ptr S"
  shows "Insert ptr key =
    (if key \<in> S then Inr ptr
     else if packed_size (insert key S) \<le> uint32_max then Inr (Some (pack_set (insert key S)))
     else Inl LengthError)"
proof (cases ptr)
  case None
  then show ?thesis
    using assms by (simp add: Insert_def FromOne_pack packs_def packed_size_def)
next
  case (Some p)
  have fin: "finite S" and p: "p = pack_set S" and sz: "packed_size S \<le> uint32_max"
    using assms Some by (auto simp: packs_def)
  let ?ks = "sorted_list_of_set S"
  have enc: "\<forall>k\<in>set ?ks. EncodedRecordSize k \<le> uint32_max"
    using fin sz packed_size_member le_trans by fastforce
  have scan: "insert_scan (pack_records ?ks) key =
      Inr (if key \<in> S then None else Some (pack_records (dropWhile (\<lambda>v. v < key) ?ks)))"
    using insert_scan_pack [OF _ enc] fin by simp
  show ?thesis
  proof (cases "key \<in> S")
    case True
    then show ?thesis by (simp add: Insert_def Some p pack_set_def scan)
  next
    case False
    have "card S + 1 \<le> packed_size (insert key S)"
      using card_le_packed_size [of "insert key S"] fin False by simp
    moreover have "sorted_list_of_set (insert key S) = insort key ?ks"
      using fin False by simp
    ultimately show ?thesis
      using False fin
      by (simp add: Insert_def Some scan CheckFitsUint32_def pack_set_def p pack_take_split
            packed_size_insert insort_split Let_def add.commute)
  qed
qed

lemma Erase_canonical:
  assumes "packs ptr S"
  shows "Erase ptr key = Inr (if key \<in> S then Some (pack_set (S - {key})) else ptr)"
proof (cases ptr)
  case None
  then show ?thesis using assms by (simp add: Erase_def packs_def)
next
  case (Some p)
  have fin: "finite S" and p: "p = pack_set S" and sz: "packed_size S \<le> uint32_max"
    using assms Some by (auto simp: packs_def)
  let ?ks = "sorted_list_of_set S"
  have enc: "\<forall>k\<in>set ?ks. EncodedRecordSize k \<le> uint32_max"
    using fin sz packed_size_member le_trans by fastforce
  have scan: "erase_scan (pack_records ?ks) key =
      Inr (if key \<in> S then Some (pack_records (dropWhile (\<lambda>v. v < key) ?ks),
                    pack_records (tl (dropWhile (\<lambda>v. v < key) ?ks))) else None)"
    using erase_scan_pack [OF _ enc] fin by simp
  show ?thesis
  proof (cases "key \<in> S")
    case False
    then show ?thesis by (simp add: Erase_def Some p pack_set_def scan)
  next
    case True
    let ?d = "dropWhile (\<lambda>v. v < key) ?ks"
    have "card S - 1 \<le> uint32_max"
      using card_le_packed_size [OF fin] sz by simp
    moreover have "sorted_list_of_set (S - {key}) = takeWhile (\<lambda>v. v < key) ?ks @ tl ?d"
      using fin True remove1_split [of ?ks key] by (simp add: sorted_list_of_set_remove)
    moreover have "length (pack_records ?d) = EncodedRecordSize key + length (pack_records (tl ?d))"
      using dropWhile_less_member [of ?ks key] fin True
      by (metis length_WriteRecord length_append pack_records_simps(2) set_sorted_list_of_set
          sorted_sorted_list_of_set)
    moreover have "packed_size S = EncodedRecordSize key + packed_size (S - {key})"
      using packed_size_insert [of "S - {key}" key] fin True by (simp add: insert_absorb)
    moreover have "card S \<noteq> 0" using fin True by auto
    moreover note pack_take_split [of ?ks "\<lambda>v. v < key"]
    ultimately show ?thesis
      using True fin
      by (simp add: Erase_def Some scan CheckFitsUint32_def pack_set_def p Let_def)
  qed
qed

lemma iterate_pack:
  "\<forall>k\<in>set ks. EncodedRecordSize k \<le> uint32_max \<Longrightarrow>
   iterate (pack_records ks) (length ks) = Some ks"
  by (induction ks) (auto simp: DecodeRecord_WriteRecord)

lemma view_keys_packs: "packs ptr S \<Longrightarrow> view_keys ptr = Some (sorted_list_of_set S)"
proof (cases ptr)
  case (Some p)
  assume "packs ptr S"
  then have fin: "finite S" and p: "p = pack_set S" and sz: "packed_size S \<le> uint32_max"
    using Some by (auto simp: packs_def)
  have "\<forall>k\<in>set (sorted_list_of_set S). EncodedRecordSize k \<le> uint32_max"
    using fin sz packed_size_member le_trans by fastforce
  then show ?thesis
    using iterate_pack [of "sorted_list_of_set S"] by (simp add: view_keys_def Some p pack_set_def)
qed (simp add: view_keys_def packs_def)

lemma contains_packs: "packs ptr S \<Longrightarrow> contains ptr key = Some (key \<in> S)"
proof -
  assume a: "packs ptr S"
  have "(case lower_bound_from ks key of [] \<Rightarrow> False | v # _ \<Rightarrow> v = key) = (key \<in> set ks)"
    if "sorted ks" for ks
    using that by (induction ks) auto
  moreover have "finite S" using a by (simp add: packs_def)
  ultimately show ?thesis
    using view_keys_packs [OF a] by (simp add: contains_def lower_bound_def)
qed

lemma all_equal_iff: "length ks = length ls \<Longrightarrow> all_equal ks ls = (ks = ls)"
  by (induction ks ls rule: list_induct2) auto

lemma view_equals_packs:
  assumes "packs a S" "packs b T"
  shows "view_equals a b = Some (S = T)"
proof -
  have sz: "view_size c = card U" if "packs c U" for c U
    using that by (auto simp: view_size_def packs_def pack_set_def split: option.splits)
  have "finite S" "finite T" using assms by (auto simp: packs_def)
  then show ?thesis
    using assms by (auto simp: view_equals_def sz view_keys_packs all_equal_iff
        dest: sorted_list_of_set_inject)
qed

lemma payload_size_eq:
  "acc \<le> uint32_max \<Longrightarrow> payload_size ks acc =
   (if acc + length (pack_records ks) \<le> uint32_max then Inr (acc + length (pack_records ks))
    else Inl LengthError)"
  by (induction ks arbitrary: acc) (auto simp: CheckFitsUint32_def)

lemma FromSortedDeduped_canonical:
  assumes "sorted_wrt (<) keys"
  shows "FromSortedDeduped keys =
    (if packed_size (set keys) \<le> uint32_max then Inr (Some (pack_set (set keys)))
     else Inl LengthError)"
proof -
  have d: "distinct keys" and s: "sorted keys"
    using assms by (auto simp: strict_sorted_iff)
  have "length keys \<le> packed_size (set keys)"
    using card_le_packed_size [of "set keys"] distinct_card [OF d] by simp
  moreover have "sorted_list_of_set (set keys) = keys"
    using d s by (simp add: sorted_list_of_set.idem_if_sorted_distinct)
  ultimately show ?thesis
    using distinct_card [OF d]
    by (simp add: FromSortedDeduped_def payload_size_eq length_pack_records [OF d] CheckFitsUint32_def
          pack_set_def pack_records_def [symmetric])
qed

section \<open>The contract of a key list\<close>

datatype 'k key_delta = AddKey 'k | RemoveKey 'k

primrec delta_key :: "'k key_delta \<Rightarrow> 'k" where
  "delta_key (AddKey k) = k"
| "delta_key (RemoveKey k) = k"

primrec delta_set :: "'k key_delta \<Rightarrow> 'k set \<Rightarrow> 'k set" where
  "delta_set (AddKey k) S = insert k S"
| "delta_set (RemoveKey k) S = S - {k}"

primrec apply_deltas ::
  "('p \<Rightarrow> 'k \<Rightarrow> 'e + 'p) \<Rightarrow> ('p \<Rightarrow> 'k \<Rightarrow> 'e + 'p) \<Rightarrow> 'k key_delta list \<Rightarrow> 'p \<Rightarrow> 'e + 'p" where
  "apply_deltas ins del [] p = Inr p"
| "apply_deltas ins del (d # ds) p =
     (case (case d of AddKey k \<Rightarrow> ins p k | RemoveKey k \<Rightarrow> del p k) of
        Inl e \<Rightarrow> Inl e
      | Inr q \<Rightarrow> apply_deltas ins del ds q)"

lemma delta_set_commute:
  "delta_key d \<noteq> delta_key e \<Longrightarrow> delta_set d (delta_set e S) = delta_set e (delta_set d S)"
  by (cases d; cases e) auto

lemma fold_delta_set_perm:
  "mset ds = mset es \<Longrightarrow> distinct (map delta_key ds) \<Longrightarrow> fold delta_set ds S = fold delta_set es S"
proof -
  assume m: "mset ds = mset es" and d: "distinct (map delta_key ds)"
  show ?thesis
  proof (rule fold_multiset_equiv [OF _ m, THEN fun_cong])
    fix x y
    assume "x \<in> set ds" "y \<in> set ds"
    then show "delta_set x \<circ> delta_set y = delta_set y \<circ> delta_set x"
      using d delta_set_commute [of x y]
      by (cases "x = y") (auto simp: fun_eq_iff distinct_map dest: inj_onD)
  qed
qed

locale key_list =
  fixes ins :: "'p \<Rightarrow> 'k \<Rightarrow> 'e + 'p"
    and del :: "'p \<Rightarrow> 'k \<Rightarrow> 'e + 'p"
    and holds :: "'p \<Rightarrow> 'k set \<Rightarrow> bool"
  assumes ins_law: "holds p S \<Longrightarrow> ins p k = Inr q \<Longrightarrow> holds q (insert k S)"
    and del_law: "holds p S \<Longrightarrow> \<exists>q. del p k = Inr q \<and> holds q (S - {k})"
begin

lemma delta_law:
  "holds p S \<Longrightarrow> (case d of AddKey k \<Rightarrow> ins p k | RemoveKey k \<Rightarrow> del p k) = Inr q \<Longrightarrow>
   holds q (delta_set d S)"
  using ins_law [of p S] del_law [of p S] by (cases d) (simp, metis delta_set.simps(2) key_delta.simps(6) sum.inject(2))

lemma apply_deltas_holds:
  "holds p S \<Longrightarrow> apply_deltas ins del ds p = Inr q \<Longrightarrow> holds q (fold delta_set ds S)"
proof (induction ds arbitrary: p S)
  case (Cons d ds)
  then show ?case
    using delta_law [of p S d] by (auto split: sum.splits)
qed simp

lemma apply_deltas_perm:
  assumes "holds p S" "mset ds = mset es" "distinct (map delta_key ds)"
    and "apply_deltas ins del ds p = Inr q" "apply_deltas ins del es p = Inr r"
  shows "\<exists>T. holds q T \<and> holds r T"
  using apply_deltas_holds [OF assms(1,4)] apply_deltas_holds [OF assms(1,5)]
    fold_delta_set_perm [OF assms(2,3)] by auto

end

lemma packs_Insert: "packs ptr S \<Longrightarrow> Insert ptr key = Inr q \<Longrightarrow> packs q (insert key S)"
  using Insert_canonical [of ptr S key]
  by (cases "key \<in> S") (auto simp: packs_def insert_absorb split: if_splits)

lemma packs_Erase: "packs ptr S \<Longrightarrow> \<exists>q. Erase ptr key = Inr q \<and> packs q (S - {key})"
proof -
  assume a: "packs ptr S"
  then have "packed_size (S - {key}) \<le> uint32_max"
    using packed_size_mono [of S "S - {key}"] by (auto simp: packs_def)
  then show ?thesis
    using a Erase_canonical [OF a, of key] by (cases "key \<in> S") (auto simp: packs_def)
qed

interpretation pkl: key_list Insert Erase packs
  using packs_Insert packs_Erase by unfold_locales auto

section \<open>Properties\<close>

text \<open>C23. \<open>Insert\<close> on a list that holds S returns a list that holds S and the key (the same
  pointer when the key is present), whose iteration yields the keys in order and whose
  \<open>contains\<close> is membership; it fails only with \<open>std::length_error\<close>, when the key is new and the
  encoded records would not fit 32 bits. No assertion of the codec fails.\<close>

theorem Insert_correct:
  assumes "packs ptr S"
  shows "case Insert ptr key of
      Inr ptr' \<Rightarrow> packs ptr' (insert key S) \<and> (key \<in> S \<longrightarrow> ptr' = ptr)
                  \<and> view_keys ptr' = Some (sorted_list_of_set (insert key S))
                  \<and> (\<forall>k. contains ptr' k = Some (k = key \<or> k \<in> S))
    | Inl e \<Rightarrow> e = LengthError \<and> key \<notin> S \<and> uint32_max < packed_size (insert key S)"
proof (cases "Insert ptr key")
  case (Inl e)
  then show ?thesis using Insert_canonical [OF assms, of key] by (auto split: if_splits)
next
  case (Inr q)
  then have q: "packs q (insert key S)" using packs_Insert [OF assms] by simp
  show ?thesis
    using Inr Insert_canonical [OF assms, of key] q view_keys_packs [OF q] contains_packs [OF q] by auto
qed

theorem Insert_correct_witness:
  "packs (Some (pack_set {[2]})) {[2]} \<and>
   Insert (Some (pack_set {[2]})) [1, 5] = Inr (Some \<lparr>pk_count = 2, pk_bytes = 5, pk_records = [2, 1, 5, 1, 2]\<rparr>)
   \<and> view_keys (Some \<lparr>pk_count = 2, pk_bytes = 5, pk_records = [2, 1, 5, 1, 2]\<rparr>) = Some [[1, 5], [2]]"
proof -
  have p: "packs (Some (pack_set {[2]})) {[2]}"
    by (simp add: packs_def packed_size_def EncodedRecordSize_def VarintSize.simps uint32_max_def)
  have i: "Insert (Some (pack_set {[2]})) [1, 5] = Inr (Some \<lparr>pk_count = 2, pk_bytes = 5, pk_records = [2, 1, 5, 1, 2]\<rparr>)"
    by (simp add: Insert_def pack_set_def packed_size_def EncodedRecordSize_def VarintSize.simps uint32_max_def
     insert_scan.simps DecodeRecord_def WriteRecord_def WriteVarint.simps CheckFitsUint32_def)
  show ?thesis
    using Insert_correct [OF p, of "[1, 5]"] p i by (simp add: sorted_list_of_set_nonempty)
qed
text \<open>\<open>Erase\<close> on a list that holds S never fails; its result holds S without the key (the
  same pointer when the key is absent), is iterated in order, and answers \<open>contains\<close> accordingly.\<close>

theorem Erase_correct:
  assumes "packs ptr S"
  shows "\<exists>ptr'. Erase ptr key = Inr ptr' \<and> packs ptr' (S - {key}) \<and> (key \<notin> S \<longrightarrow> ptr' = ptr)
    \<and> view_keys ptr' = Some (sorted_list_of_set (S - {key}))
    \<and> (\<forall>k. contains ptr' k = Some (k \<noteq> key \<and> k \<in> S))"
proof -
  obtain q where e: "Erase ptr key = Inr q" and q: "packs q (S - {key})"
    using packs_Erase [OF assms] by blast
  then show ?thesis
    using Erase_canonical [OF assms, of key] view_keys_packs [OF q] contains_packs [OF q] by auto
qed

theorem Erase_correct_witness:
  "packs (Some (pack_set {[2], [7]})) {[2], [7]} \<and>
   (\<exists>q. Erase (Some (pack_set {[2], [7]})) [2] = Inr q \<and> view_keys q = Some [[7]])"
proof -
  have p: "packs (Some (pack_set {[2], [7]})) {[2], [7]}"
    by (simp add: packs_def packed_size_def EncodedRecordSize_def VarintSize.simps uint32_max_def)
  have d: "{[2], [7]} - {[2 :: byte]} = {[7]}" by auto
  show ?thesis
    using Erase_correct [OF p, of "[2]"] p by (auto simp: d)
qed

text \<open>A list built by \<open>FromSortedDeduped\<close> from strictly increasing keys iterates to exactly
  those keys; the build fails, with \<open>std::length_error\<close>, exactly when the encoded records do not fit
  32 bits. Two such lists compare equal exactly when their keys are the same.\<close>

theorem FromSortedDeduped_roundtrip:
  assumes "sorted_wrt (<) keys" "sorted_wrt (<) keys'"
  shows "case FromSortedDeduped keys of
      Inr ptr \<Rightarrow> view_keys ptr = Some keys \<and> view_size ptr = length keys \<and>
        (\<forall>ptr'. FromSortedDeduped keys' = Inr ptr' \<longrightarrow> view_equals ptr ptr' = Some (keys = keys'))
    | Inl e \<Rightarrow> e = LengthError \<and> uint32_max < packed_size (set keys)"
proof (cases "packed_size (set keys) \<le> uint32_max")
  case False
  then show ?thesis by (simp add: FromSortedDeduped_canonical [OF assms(1)])
next
  case True
  have canon: "sorted_list_of_set (set ks) = ks" "card (set ks) = length ks"
    if "sorted_wrt (<) ks" for ks :: "pkey list"
    using that by (auto simp: strict_sorted_iff sorted_list_of_set.idem_if_sorted_distinct
        distinct_card)
  have p: "packs (Some (pack_set (set keys))) (set keys)"
    using True by (simp add: packs_def)
  have "set keys = set keys' \<longleftrightarrow> keys = keys'"
    using canon(1) [OF assms(1)] canon(1) [OF assms(2)] by metis
  then have "view_equals (Some (pack_set (set keys))) ptr' = Some (keys = keys')"
    if "FromSortedDeduped keys' = Inr ptr'" for ptr'
    using that view_equals_packs [OF p, of ptr' "set keys'"] FromSortedDeduped_canonical [OF assms(2)]
    by (auto simp: packs_def split: if_splits)
  then show ?thesis
    using True view_keys_packs [OF p] canon [OF assms(1)]
    by (simp add: FromSortedDeduped_canonical [OF assms(1)] view_size_def pack_set_def)
qed

theorem FromSortedDeduped_roundtrip_witness:
  "sorted_wrt (<) [[1 :: byte], [1, 0], [3]] \<and>
   (case FromSortedDeduped [[1], [1, 0], [3]] of
      Inr ptr \<Rightarrow> view_keys ptr = Some [[1], [1, 0], [3]] \<and> view_size ptr = 3
    | Inl e \<Rightarrow> False)"
proof -
  have s: "sorted_wrt (<) [[1 :: byte], [1, 0], [3]]" by simp
  have ps: "packed_size (set [[1 :: byte], [1, 0], [3]]) = 7"
    by (simp add: packed_size_def EncodedRecordSize_def VarintSize.simps)
  show ?thesis
    using FromSortedDeduped_roundtrip [OF s s] s ps
    by (auto simp: uint32_max_def split: sum.splits)
qed

text \<open>Add and remove deltas on pairwise different primary keys commute: applied in any order
  to the same list, two runs that succeed end in lists with the same keys. This is why concurrent
  transactions may install their deltas on one secondary entry without conflicting.\<close>

theorem key_deltas_commute:
  assumes "packs ptr S" "mset ds = mset es" "distinct (map delta_key ds)"
    and "apply_deltas Insert Erase ds ptr = Inr q" "apply_deltas Insert Erase es ptr = Inr r"
  shows "view_equals q r = Some True \<and> view_keys q = view_keys r"
proof -
  obtain T where "packs q T" "packs r T"
    using pkl.apply_deltas_perm [OF assms] by blast
  then show ?thesis
    by (simp add: view_equals_packs view_keys_packs)
qed

theorem key_deltas_commute_witness:
  "\<exists>q r. apply_deltas Insert Erase [AddKey [1], RemoveKey [2]] (Some (pack_set {[2]})) = Inr q
    \<and> apply_deltas Insert Erase [RemoveKey [2], AddKey [1]] (Some (pack_set {[2]})) = Inr r
    \<and> view_equals q r = Some True"
proof -
  note ev = pack_set_def packed_size_def EncodedRecordSize_def VarintSize.simps uint32_max_def
     insert_scan.simps erase_scan.simps DecodeRecord_def WriteRecord_def WriteVarint.simps
     CheckFitsUint32_def
  have p: "packs (Some (pack_set {[2]})) {[2]}"
    by (simp add: packs_def ev)
  let ?l = "Inr (Some \<lparr>pk_count = 1, pk_bytes = 2, pk_records = [1, 1]\<rparr>) :: pk_error + packed_ptr"
  have "apply_deltas Insert Erase [AddKey [1], RemoveKey [2]] (Some (pack_set {[2]})) = ?l"
    "apply_deltas Insert Erase [RemoveKey [2], AddKey [1]] (Some (pack_set {[2]})) = ?l"
    by (simp_all add: Insert_def Erase_def ev)
  then show ?thesis
    using key_deltas_commute [OF p, of "[AddKey [1], RemoveKey [2]]" "[RemoveKey [2], AddKey [1]]"]
    by auto
qed

end
