(* ===== verification/DataItems.thy ===== *)
theory DataItems
  imports LogRecords PackedPrimaryKeys
begin

text \<open>
  \<^verbatim>\<open>src/types/data_buffer.hpp\<close> in heap mode, \<^verbatim>\<open>src/types/data_item.hpp\<close> in its slim layout and
  \<^verbatim>\<open>src/types/snapshot.hpp\<close>: the versioned row, the entry of a secondary index and the write a
  transaction carries. A source \<open>(const std::byte* v, size_t s)\<close> is the bytes it names, or
  \<open>None\<close> for a null \<open>v\<close>.
\<close>

section \<open>Buffers\<close>

record heap_buffer =
  hb_value :: bytes
  hb_size :: nat
  hb_capacity :: nat

definition heap_empty :: heap_buffer where
  "heap_empty = \<lparr>hb_value = [], hb_size = 0, hb_capacity = 0\<rparr>"

definition heap_Reset :: "heap_buffer \<Rightarrow> bytes option \<Rightarrow> heap_buffer" where
  "heap_Reset b v =
     (case v of
        None \<Rightarrow> b\<lparr>hb_size := 0\<rparr>
      | Some bs \<Rightarrow>
          if bs = [] then b\<lparr>hb_size := 0\<rparr>
          else let b' = (if hb_capacity b < length bs
                         then b\<lparr>hb_value := replicate (length bs) 0, hb_capacity := length bs\<rparr> else b)
               in b'\<lparr>hb_size := length bs, hb_value := bs @ drop (length bs) (hb_value b')\<rparr>)"

definition toString :: "heap_buffer \<Rightarrow> bytes" where
  "toString b = take (hb_size b) (hb_value b)"

definition heap_copy :: "heap_buffer \<Rightarrow> heap_buffer \<Rightarrow> heap_buffer" where
  "heap_copy b rhs = heap_Reset b (if hb_value rhs = [] then None else Some (toString rhs))"

definition heap_IsEmpty :: "heap_buffer \<Rightarrow> bool" where
  "heap_IsEmpty b \<longleftrightarrow> hb_size b = 0"

text \<open>The allocation is as long as the capacity says and holds at least the payload.\<close>

definition heap_ok :: "heap_buffer \<Rightarrow> bool" where
  "heap_ok b \<longleftrightarrow> length (hb_value b) = hb_capacity b \<and> hb_size b \<le> hb_capacity b"

lemma heap_ok_empty [simp]: "heap_ok heap_empty" "toString heap_empty = []"
  by (simp_all add: heap_ok_def heap_empty_def toString_def)

lemma heap_ok_Reset [simp]: "heap_ok b \<Longrightarrow> heap_ok (heap_Reset b v)"
  by (auto simp: heap_ok_def heap_Reset_def Let_def split: option.splits)

lemma toString_Reset [simp]: "toString (heap_Reset b v) = (case v of None \<Rightarrow> [] | Some bs \<Rightarrow> bs)"
  by (auto simp: heap_Reset_def toString_def Let_def split: option.splits)

lemma toString_copy [simp]: "toString (heap_copy b rhs) = toString rhs"
  by (simp add: heap_copy_def) (simp add: toString_def)

lemma length_toString: "heap_ok b \<Longrightarrow> length (toString b) = hb_size b"
  by (simp add: heap_ok_def toString_def)

lemma heap_IsEmpty_iff: "heap_ok b \<Longrightarrow> heap_IsEmpty b \<longleftrightarrow> toString b = []"
  using length_toString [of b] by (auto simp: heap_IsEmpty_def)

section \<open>Data items\<close>

record data_item =
  di_transaction_id :: TransactionId
  di_buffer :: heap_buffer
  di_primary_keys :: packed_ptr

definition DataItem_default :: data_item where
  "DataItem_default =
     \<lparr>di_transaction_id = TransactionId_default, di_buffer = heap_empty, di_primary_keys = None\<rparr>"

definition IsInitialized :: "data_item \<Rightarrow> bool" where
  "IsInitialized d \<longleftrightarrow>
     hb_size (di_buffer d) \<noteq> 0 \<or> (case di_primary_keys d of None \<Rightarrow> False | Some p \<Rightarrow> pk_count p \<noteq> 0)"

definition IsPrimaryInitialized :: "data_item \<Rightarrow> bool" where
  "IsPrimaryInitialized d \<longleftrightarrow> hb_size (di_buffer d) \<noteq> 0"

definition primary_keys_vector :: "data_item \<Rightarrow> pkey list option" where
  "primary_keys_vector d = view_keys (di_primary_keys d)"

text \<open>No adjacent pair fails to be strictly ascending.\<close>

fun IsSortedDeduped :: "pkey list \<Rightarrow> bool" where
  "IsSortedDeduped (a # b # ks) \<longleftrightarrow> a < b \<and> IsSortedDeduped (b # ks)"
| "IsSortedDeduped ks \<longleftrightarrow> True"

definition SetPrimaryKeys :: "data_item \<Rightarrow> pkey list \<Rightarrow> pk_error + data_item" where
  "SetPrimaryKeys d ks =
     (if \<not> IsSortedDeduped ks then Inl AssertFailed
      else case FromSortedDeduped ks of Inl e \<Rightarrow> Inl e | Inr p \<Rightarrow> Inr (d\<lparr>di_primary_keys := p\<rparr>))"

definition DataItem_assign :: "data_item \<Rightarrow> data_item \<Rightarrow> data_item" where
  "DataItem_assign d rhs =
     d\<lparr>di_transaction_id := di_transaction_id rhs, di_buffer := heap_copy (di_buffer d) (di_buffer rhs),
       di_primary_keys := di_primary_keys rhs\<rparr>"

definition DataItem_Reset :: "data_item \<Rightarrow> bytes option \<Rightarrow> TransactionId \<Rightarrow> data_item" where
  "DataItem_Reset d v tid =
     (let d' = d\<lparr>di_buffer := heap_Reset (di_buffer d) v\<rparr>
      in if \<not> IsEmpty tid then d'\<lparr>di_transaction_id := tid\<rparr> else d')"

definition AddSecondaryIndexValue :: "data_item \<Rightarrow> pkey \<Rightarrow> pk_error + data_item" where
  "AddSecondaryIndexValue d v =
     (case Insert (di_primary_keys d) v of Inl e \<Rightarrow> Inl e | Inr p \<Rightarrow> Inr (d\<lparr>di_primary_keys := p\<rparr>))"

definition RemoveSecondaryIndexValue :: "data_item \<Rightarrow> pkey \<Rightarrow> pk_error + data_item" where
  "RemoveSecondaryIndexValue d v =
     (case Erase (di_primary_keys d) v of Inl e \<Rightarrow> Inl e | Inr p \<Rightarrow> Inr (d\<lparr>di_primary_keys := p\<rparr>))"

lemma IsSortedDeduped_iff: "IsSortedDeduped ks \<longleftrightarrow> sorted_wrt (<) ks"
proof (induction ks rule: IsSortedDeduped.induct)
  case (1 a b ks)
  then show ?case by (auto intro: less_trans)
qed simp_all

section \<open>Snapshots\<close>

record SecondaryIndexDelta =
  sd_primary_key :: pkey
  sd_op :: SecondaryIndexOp

record snapshot =
  sn_key :: bytes
  sn_data_item_copy :: data_item
  sn_index_cache :: "nat option"
  sn_is_read_modify_write :: bool
  sn_table_name :: bytes
  sn_index_name :: bytes
  sn_index_type :: u32
  sn_is_insert :: bool
  sn_secondary_index_deltas :: "SecondaryIndexDelta list"

type_synonym write_set = "snapshot list"

definition Snapshot ::
  "bytes \<Rightarrow> bytes option \<Rightarrow> nat option \<Rightarrow> bytes \<Rightarrow> bytes \<Rightarrow> TransactionId \<Rightarrow> u32 \<Rightarrow> snapshot" where
  "Snapshot k v i tn idx ver it =
     \<lparr>sn_key = k,
      sn_data_item_copy = (if v = None then DataItem_default else DataItem_Reset DataItem_default v ver),
      sn_index_cache = i, sn_is_read_modify_write = False, sn_table_name = tn, sn_index_name = idx,
      sn_index_type = it, sn_is_insert = False, sn_secondary_index_deltas = []\<rparr>"

fun record_delta ::
  "SecondaryIndexDelta list \<Rightarrow> pkey \<Rightarrow> SecondaryIndexOp \<Rightarrow> SecondaryIndexDelta list" where
  "record_delta [] pk op = [\<lparr>sd_primary_key = pk, sd_op = op\<rparr>]"
| "record_delta (d # ds) pk op =
     (if sd_primary_key d = pk then d\<lparr>sd_op := op\<rparr> # ds else d # record_delta ds pk op)"

definition RecordSecondaryIndexDelta :: "snapshot \<Rightarrow> pkey \<Rightarrow> SecondaryIndexOp \<Rightarrow> snapshot" where
  "RecordSecondaryIndexDelta s pk op =
     s\<lparr>sn_secondary_index_deltas := record_delta (sn_secondary_index_deltas s) pk op\<rparr>"

definition Compare :: "snapshot \<Rightarrow> snapshot \<Rightarrow> bool" where
  "Compare left right =
     (if sn_table_name left \<noteq> sn_table_name right then sn_table_name left < sn_table_name right
      else if sn_index_name left \<noteq> sn_index_name right then sn_index_name left < sn_index_name right
      else sn_key left < sn_key right)"

definition delta_map :: "SecondaryIndexDelta list \<Rightarrow> pkey \<Rightarrow> SecondaryIndexOp option" where
  "delta_map ds = map_of (map (\<lambda>d. (sd_primary_key d, sd_op d)) ds)"

lemma record_delta_map: "delta_map (record_delta ds pk op) = (delta_map ds)(pk \<mapsto> op)"
  by (induction ds) (auto simp: delta_map_def fun_eq_iff)

lemma record_delta_keys:
  "set (map sd_primary_key (record_delta ds pk op)) = insert pk (set (map sd_primary_key ds))"
  by (induction ds) auto

lemma record_delta_distinct:
  "distinct (map sd_primary_key ds) \<Longrightarrow> distinct (map sd_primary_key (record_delta ds pk op))"
proof (induction ds)
  case (Cons d ds)
  then show ?case using record_delta_keys [of ds pk op] by auto
qed simp

text \<open>\<open>Compare\<close> is the strict lexicographic order of the location a write names.\<close>

definition location :: "snapshot \<Rightarrow> bytes \<times> bytes \<times> bytes" where
  "location s = (sn_table_name s, sn_index_name s, sn_key s)"

lemma Compare_irrefl [simp]: "\<not> Compare s s"
  by (simp add: Compare_def)

lemma Compare_trans: "Compare a b \<Longrightarrow> Compare b c \<Longrightarrow> Compare a c"
  by (auto simp: Compare_def split: if_splits)

lemma Compare_total: "Compare a b \<or> Compare b a \<or> location a = location b"
  by (auto simp: Compare_def location_def)

end
