(* ===== verification/Loggers.thy ===== *)
theory Loggers
  imports WalAppend DataItems
begin

text \<open>
  \<^verbatim>\<open>src/recovery/impl/thread_local_logger.cpp\<close> and the durability part of
  \<^verbatim>\<open>src/recovery/logger.cpp\<close>: the per-thread buffers of log records, the flusher thread that writes
  them as groups, and the durability frontier that commits wait for.

  The nodes of the thread-key storage are listed in the order in which they were pushed; \<open>ForEach\<close>
  visits them from the last to the first. \<open>carry_\<close> is a \<open>std::map\<close>: a list of buckets with
  ascending epochs. A step of the flusher is one critical section or one call it makes while no other thread can
  reach what the call touches. \<open>std::abort\<close> sets \<open>lg_aborted\<close>.
\<close>

section \<open>Records\<close>

text \<open>The key-value pairs of one snapshot. A list that the packed-list operations built always
  decodes, so the empty default of \<open>primary_keys_vector\<close> is never taken for one.\<close>

definition snapshot_kvp :: "snapshot \<Rightarrow> bytes list \<Rightarrow> SecondaryIndexOp \<Rightarrow> bytes \<Rightarrow> KeyValuePair" where
  "snapshot_kvp s pks op spk =
     \<lparr>kv_key = sn_key s, kv_buffer = toString (di_buffer (sn_data_item_copy s)),
      kv_tid = di_transaction_id (sn_data_item_copy s), kv_table_name = sn_table_name s,
      kv_index_name = sn_index_name s, kv_index_type = sn_index_type s, kv_primary_keys = pks,
      kv_secondary_op = SecondaryIndexOp_code op, kv_secondary_primary_key = spk\<rparr>"

definition snapshot_kvps :: "snapshot \<Rightarrow> KeyValuePair list" where
  "snapshot_kvps s =
     (if sn_index_name s = []
      then [snapshot_kvp s (case primary_keys_vector (sn_data_item_copy s) of None \<Rightarrow> [] | Some ks \<Rightarrow> ks) OpNone []]
      else map (\<lambda>d. snapshot_kvp s [] (sd_op d) (sd_primary_key d)) (sn_secondary_index_deltas s))"

definition write_set_record :: "write_set \<Rightarrow> epoch_number \<Rightarrow> LogRecord" where
  "write_set_record ws epoch = \<lparr>lr_epoch = epoch, lr_key_value_pairs = concat (map snapshot_kvps ws)\<rparr>"

section \<open>State\<close>

text \<open>Where the flusher thread stands. \<open>FlusherBegins target\<close> enters \<open>FlushThrough\<close>, and
  \<open>FlusherCollects target durable_before k\<close> still has the nodes below \<open>k\<close> to swap.\<close>

datatype flusher =
    FlusherUnstarted
  | FlusherWaits
  | FlusherBegins epoch_number
  | FlusherCollects epoch_number epoch_number nat
  | FlusherAppends epoch_number
  | FlusherPublishes epoch_number
  | FlusherFails errno
  | FlusherReports errno
  | FlusherReturned

record thread_local_logger =
  tl_nodes :: "LogRecords list"
  tl_carry :: "bucket list"
  tl_wal :: wal
  tl_pending_closed :: epoch_number
  tl_stop_requested :: bool
  tl_failed :: bool
  tl_flusher :: flusher

datatype CommitDurability = Volatile | Async | Sync

datatype logger_state = Running | Stopped | LoggerFailed

datatype WaitResult = WaitDurable | WaitTimedOut | WaitStopped | WaitFailed

record logger =
  lg_durability :: CommitDurability
  lg_durable_epoch :: epoch_number
  lg_state :: logger_state
  lg_failure_errno :: "errno option"
  lg_process_fail_stop :: bool
  lg_backend :: thread_local_logger
  lg_aborted :: bool

section \<open>The durability frontier\<close>

definition PublishDurable :: "logger \<Rightarrow> epoch_number \<Rightarrow> logger" where
  "PublishDurable lg frontier =
     (if frontier < lg_durable_epoch lg then lg\<lparr>lg_aborted := True\<rparr>
      else if lg_state lg \<noteq> Running then lg
      else lg\<lparr>lg_durable_epoch := frontier\<rparr>)"

definition PublishFailure :: "logger \<Rightarrow> errno \<Rightarrow> logger" where
  "PublishFailure lg e =
     (let fail_stop = lg_process_fail_stop lg
      in if lg_state lg \<noteq> LoggerFailed
         then lg\<lparr>lg_state := LoggerFailed, lg_failure_errno := Some e, lg_aborted := lg_aborted lg \<or> fail_stop\<rparr>
         else if \<not> fail_stop then lg
         else lg\<lparr>lg_aborted := True\<rparr>)"

definition EnableProcessFailStop :: "logger \<Rightarrow> logger" where
  "EnableProcessFailStop lg = lg\<lparr>lg_process_fail_stop := True\<rparr>"

definition PublishStopped :: "logger \<Rightarrow> logger" where
  "PublishStopped lg = (if lg_state lg = Running then lg\<lparr>lg_state := Stopped\<rparr> else lg)"

text \<open>One evaluation of the wait: the answer, or \<open>None\<close> while the caller blocks. \<open>expired\<close> is that
  the deadline has passed.\<close>

definition WaitUntilDurable :: "logger \<Rightarrow> epoch_number \<Rightarrow> bool \<Rightarrow> WaitResult option" where
  "WaitUntilDurable lg commit_epoch expired =
     (if lg_durable_epoch lg \<ge> commit_epoch then Some WaitDurable
      else if lg_state lg \<noteq> Running
      then Some (if lg_state lg = Stopped then WaitStopped else WaitFailed)
      else if expired then Some WaitTimedOut
      else None)"

definition SetCommitDurability :: "logger \<Rightarrow> CommitDurability \<Rightarrow> logger" where
  "SetCommitDurability lg mode = lg\<lparr>lg_durability := mode\<rparr>"

datatype acknowledgement = Acknowledged | StillWaits | AckAborts

definition AwaitCommitDurability :: "logger \<Rightarrow> epoch_number \<Rightarrow> bool \<Rightarrow> acknowledgement" where
  "AwaitCommitDurability lg commit_epoch awaits_durability =
     (if \<not> awaits_durability then Acknowledged
      else case WaitUntilDurable lg commit_epoch False of
             None \<Rightarrow> StillWaits
           | Some WaitDurable \<Rightarrow> Acknowledged
           | Some _ \<Rightarrow> AckAborts)"

section \<open>Producers\<close>

text \<open>\<open>nodes_.Get()\<close>: a node beyond the last is the calling thread's first use of the storage.\<close>

definition node_push :: "LogRecords list \<Rightarrow> nat \<Rightarrow> LogRecord \<Rightarrow> LogRecords list" where
  "node_push nodes n record =
     (if n < length nodes then nodes[n := nodes ! n @ [record]] else nodes @ [[record]])"

definition Enqueue :: "logger \<Rightarrow> nat \<Rightarrow> write_set \<Rightarrow> epoch_number \<Rightarrow> bool \<times> logger" where
  "Enqueue lg n ws epoch =
     (let record = write_set_record ws epoch
      in if lr_key_value_pairs record = [] then (False, lg)
         else (True, lg\<lparr>lg_backend := (lg_backend lg)\<lparr>tl_nodes := node_push (tl_nodes (lg_backend lg)) n record\<rparr>\<rparr>))"

definition ScheduleFlush :: "logger \<Rightarrow> epoch_number \<Rightarrow> logger" where
  "ScheduleFlush lg closed =
     (let be = lg_backend lg
      in if tl_stop_requested be \<or> tl_failed be then lg
         else if closed > tl_pending_closed be then lg\<lparr>lg_backend := be\<lparr>tl_pending_closed := closed\<rparr>\<rparr>
         else lg)"

definition IsQuiescent :: "logger \<Rightarrow> bool" where
  "IsQuiescent lg \<longleftrightarrow>
     tl_failed (lg_backend lg) \<or> tl_pending_closed (lg_backend lg) \<le> lg_durable_epoch lg"

section \<open>The flusher\<close>

fun carry_add :: "bucket list \<Rightarrow> LogRecord \<Rightarrow> bucket list" where
  "carry_add [] r = [(lr_epoch r, [r])]"
| "carry_add ((e, rs) # bs) r =
     (if lr_epoch r = e then (e, rs @ [r]) # bs
      else if lr_epoch r < e then (lr_epoch r, [r]) # (e, rs) # bs
      else (e, rs) # carry_add bs r)"

text \<open>The records of one swapped buffer; \<open>None\<close> aborts on a record whose epoch was reported durable.\<close>

fun collect_node :: "epoch_number \<Rightarrow> LogRecords \<Rightarrow> bucket list \<Rightarrow> bucket list option" where
  "collect_node durable_before [] carry = Some carry"
| "collect_node durable_before (r # rs) carry =
     (if lr_epoch r \<le> durable_before then None else collect_node durable_before rs (carry_add carry r))"

text \<open>The end of \<open>FlushThrough\<close>: the group write, and what is carried forward after it.\<close>

definition flush_append ::
  "(LogRecords \<Rightarrow> bytes) \<Rightarrow> thread_local_logger \<Rightarrow> epoch_number \<Rightarrow> append_outcome \<times> thread_local_logger" where
  "flush_append pack be target =
     (case AppendGroup pack (tl_wal be) (tl_carry be) target of
        (AppendOk, w) \<Rightarrow>
          (AppendOk, be\<lparr>tl_wal := w, tl_carry := dropWhile (\<lambda>b. fst b \<le> target) (tl_carry be)\<rparr>)
      | (r, w) \<Rightarrow> (r, be\<lparr>tl_wal := w\<rparr>))"

definition set_flusher :: "logger \<Rightarrow> flusher \<Rightarrow> logger" where
  "set_flusher lg f = lg\<lparr>lg_backend := (lg_backend lg)\<lparr>tl_flusher := f\<rparr>\<rparr>"

definition StartFlusher :: "logger \<Rightarrow> logger" where
  "StartFlusher lg = set_flusher lg FlusherWaits"

text \<open>What the flusher does once its wait ends.\<close>

definition flusher_wake :: "logger \<Rightarrow> logger" where
  "flusher_wake lg =
     (let be = lg_backend lg; target = tl_pending_closed be;
          nothing_to_do = (target \<le> lg_durable_epoch lg)
      in if tl_failed be then set_flusher lg FlusherReturned
         else if tl_stop_requested be \<and> nothing_to_do then set_flusher lg FlusherReturned
         else if nothing_to_do then lg
         else set_flusher lg (FlusherBegins target))"

definition flusher_begin :: "logger \<Rightarrow> epoch_number \<Rightarrow> logger" where
  "flusher_begin lg target =
     set_flusher lg (FlusherCollects target (lg_durable_epoch lg) (length (tl_nodes (lg_backend lg))))"

definition flusher_collect :: "logger \<Rightarrow> epoch_number \<Rightarrow> epoch_number \<Rightarrow> nat \<Rightarrow> logger" where
  "flusher_collect lg target durable_before k =
     (let be = lg_backend lg
      in case k of
           0 \<Rightarrow> set_flusher lg (FlusherAppends target)
         | Suc j \<Rightarrow>
             (case collect_node durable_before (tl_nodes be ! j) (tl_carry be) of
                None \<Rightarrow> lg\<lparr>lg_aborted := True\<rparr>
              | Some carry \<Rightarrow>
                  lg\<lparr>lg_backend := be\<lparr>tl_nodes := (tl_nodes be)[j := []], tl_carry := carry,
                                     tl_flusher := FlusherCollects target durable_before j\<rparr>\<rparr>))"

definition flusher_append :: "(LogRecords \<Rightarrow> bytes) \<Rightarrow> logger \<Rightarrow> epoch_number \<Rightarrow> logger" where
  "flusher_append pack lg target =
     (case flush_append pack (lg_backend lg) target of
        (AppendOk, be) \<Rightarrow> lg\<lparr>lg_backend := be\<lparr>tl_flusher := FlusherPublishes target\<rparr>\<rparr>
      | (AppendError e, be) \<Rightarrow> lg\<lparr>lg_backend := be\<lparr>tl_flusher := FlusherFails e\<rparr>\<rparr>
      | (AppendAbort, be) \<Rightarrow> lg\<lparr>lg_backend := be, lg_aborted := True\<rparr>)"

text \<open>The steps of \<open>FlusherLoop\<close>. A group that does not fit in memory, or any other exception before the
  write, ends in the handler that reports \<open>EIO\<close>.\<close>

inductive flusher_step :: "(LogRecords \<Rightarrow> bytes) \<Rightarrow> logger \<Rightarrow> logger \<Rightarrow> bool" for pack where
  wake: "tl_flusher (lg_backend lg) = FlusherWaits \<Longrightarrow>
    tl_stop_requested (lg_backend lg) \<or> tl_failed (lg_backend lg) \<or>
      tl_pending_closed (lg_backend lg) > lg_durable_epoch lg \<Longrightarrow>
    flusher_step pack lg (flusher_wake lg)"
| begins: "tl_flusher (lg_backend lg) = FlusherBegins target \<Longrightarrow>
    flusher_step pack lg (flusher_begin lg target)"
| collect: "tl_flusher (lg_backend lg) = FlusherCollects target before k \<Longrightarrow>
    flusher_step pack lg (flusher_collect lg target before k)"
| append: "tl_flusher (lg_backend lg) = FlusherAppends target \<Longrightarrow>
    fits_memory pack (eligible target (tl_carry (lg_backend lg))) \<Longrightarrow>
    flusher_step pack lg (flusher_append pack lg target)"
| throws: "tl_flusher (lg_backend lg) = FlusherCollects target before k \<or>
      tl_flusher (lg_backend lg) = FlusherAppends target \<Longrightarrow>
    flusher_step pack lg (set_flusher lg (FlusherFails EIO))"
| publish: "tl_flusher (lg_backend lg) = FlusherPublishes target \<Longrightarrow>
    flusher_step pack lg (set_flusher (PublishDurable lg target) FlusherWaits)"
| fail: "tl_flusher (lg_backend lg) = FlusherFails e \<Longrightarrow>
    flusher_step pack lg
      (lg\<lparr>lg_backend := (lg_backend lg)\<lparr>tl_failed := True, tl_flusher := FlusherReports e\<rparr>\<rparr>)"
| report: "tl_flusher (lg_backend lg) = FlusherReports e \<Longrightarrow>
    flusher_step pack lg (set_flusher (PublishFailure lg e) FlusherReturned)"

text \<open>\<open>StopAndDrainFlusher\<close>: the request, and what follows once the flusher is joined.\<close>

definition request_stop :: "logger \<Rightarrow> logger" where
  "request_stop lg = lg\<lparr>lg_backend := (lg_backend lg)\<lparr>tl_stop_requested := True\<rparr>\<rparr>"

definition StopAndDrainFlusher :: "logger \<Rightarrow> logger option" where
  "StopAndDrainFlusher lg =
     (if tl_flusher (lg_backend lg) = FlusherUnstarted \<or> tl_flusher (lg_backend lg) = FlusherReturned
      then Some (PublishStopped lg) else None)"

end
