(* ===== verification/EpochFramework.thy ===== *)
theory EpochFramework
  imports LdbPrelude
begin

text \<open>
  \<^verbatim>\<open>src/util/epoch_framework.hpp\<close>, with the part of \<^verbatim>\<open>src/util/thread_key_storage.h\<close> it uses: worker
  threads that join and leave epochs, and the epoch writer that advances the global epoch.

  A step is one atomic access. The slots are the nodes of the thread-key storage in the order in which
  threads registered, so a thread is its index and \<open>ForEach\<close>, which walks from the head node back, visits
  the indices below the length it found in descending order. Time is abstracted: a timed wait of the
  writer may end at any moment.
\<close>

section \<open>State\<close>

definition THREAD_OFFLINE :: epoch_number where
  "THREAD_OFFLINE = 0xFFFFFFFF"

definition kEpochHighWater :: epoch_number where
  "kEpochHighWater = 0xFFFFFFFF - push_bit 20 1"

text \<open>Where a worker stands: outside, about to store what it loaded, about to reload, or online.\<close>

datatype worker = Outside | Loaded epoch_number | Published epoch_number | Online epoch_number

text \<open>Where the writer stands: waiting, scanning the slots below an index with the least epoch seen, about
  to decide, about to hand the advanced epoch to \<open>publish_target_\<close>, at the end of a round, gone, or
  stopped with the process. The flag is \<open>forced_wake\<close>.\<close>

datatype epoch_writer =
    WriterWaits
  | WriterScans nat epoch_number bool
  | WriterDecides epoch_number bool
  | WriterPublishes epoch_number epoch_number
  | WriterEnds epoch_number
  | WriterExited
  | WriterAborted

record epoch_framework =
  ef_start :: bool
  ef_stop :: bool
  ef_advance_requested :: bool
  ef_global_epoch :: epoch_number
  ef_slots :: "epoch_number list"
  ef_workers :: "worker list"
  ef_writer :: epoch_writer

definition EpochFramework_new :: epoch_framework where
  "EpochFramework_new =
     \<lparr>ef_start = False, ef_stop = False, ef_advance_requested = False, ef_global_epoch = 1,
      ef_slots = [], ef_workers = [], ef_writer = WriterWaits\<rparr>"

definition SetGlobalEpoch :: "epoch_framework \<Rightarrow> epoch_number \<Rightarrow> epoch_framework" where
  "SetGlobalEpoch s e = s\<lparr>ef_global_epoch := e\<rparr>"

section \<open>Workers\<close>

text \<open>The first \<open>Get\<close> of a thread pushes its node, with the initial payload.\<close>

definition tls_register :: "epoch_framework \<Rightarrow> epoch_framework" where
  "tls_register s =
     s\<lparr>ef_slots := ef_slots s @ [THREAD_OFFLINE], ef_workers := ef_workers s @ [Outside]\<rparr>"

definition GetMyThreadLocalEpoch :: "epoch_framework \<Rightarrow> nat \<Rightarrow> epoch_number" where
  "GetMyThreadLocalEpoch s t = ef_slots s ! t"

text \<open>The accesses of \<open>MakeMeOnline\<close>: the first load, the store, and the reload that decides.\<close>

definition online_load :: "epoch_framework \<Rightarrow> nat \<Rightarrow> epoch_framework" where
  "online_load s t = s\<lparr>ef_workers := (ef_workers s)[t := Loaded (ef_global_epoch s)]\<rparr>"

definition online_store :: "epoch_framework \<Rightarrow> nat \<Rightarrow> epoch_number \<Rightarrow> epoch_framework" where
  "online_store s t published =
     s\<lparr>ef_slots := (ef_slots s)[t := published], ef_workers := (ef_workers s)[t := Published published]\<rparr>"

definition online_reload :: "epoch_framework \<Rightarrow> nat \<Rightarrow> epoch_number \<Rightarrow> epoch_framework" where
  "online_reload s t published =
     s\<lparr>ef_workers := (ef_workers s)[t :=
         if ef_global_epoch s = published then Online published else Loaded (ef_global_epoch s)]\<rparr>"

definition MakeMeOffline :: "epoch_framework \<Rightarrow> nat \<Rightarrow> epoch_framework" where
  "MakeMeOffline s t =
     s\<lparr>ef_slots := (ef_slots s)[t := THREAD_OFFLINE], ef_workers := (ef_workers s)[t := Outside]\<rparr>"

definition RequestEpochAdvance :: "epoch_framework \<Rightarrow> epoch_framework" where
  "RequestEpochAdvance s =
     (if ef_global_epoch s \<ge> kEpochHighWater then s else s\<lparr>ef_advance_requested := True\<rparr>)"

text \<open>One evaluation of the wait of \<open>WaitGlobalEpochAtLeastUntil\<close>: the answer, or another round after
  requesting an advance. \<open>expired\<close> is that the timed wait ran into its deadline.\<close>

definition WaitGlobalEpochAtLeastUntil ::
  "epoch_framework \<Rightarrow> epoch_number \<Rightarrow> bool \<Rightarrow> bool option \<times> epoch_framework" where
  "WaitGlobalEpochAtLeastUntil s target expired =
     (if ef_global_epoch s \<ge> target then (Some True, s)
      else if target > kEpochHighWater then (Some False, s)
      else if ef_stop s then (Some False, s)
      else (if expired then Some (ef_global_epoch s \<ge> target) else None, s\<lparr>ef_advance_requested := True\<rparr>))"

definition Start :: "epoch_framework \<Rightarrow> epoch_framework" where
  "Start s = s\<lparr>ef_start := True\<rparr>"

definition Stop :: "epoch_framework \<Rightarrow> epoch_framework" where
  "Stop s = s\<lparr>ef_stop := True\<rparr>"

section \<open>The epoch writer\<close>

definition smallest_step :: "epoch_number \<Rightarrow> epoch_number \<Rightarrow> epoch_number" where
  "smallest_step min_epoch e = (if 0 < e \<and> e < min_epoch then e else min_epoch)"

definition GetSmallestEpoch :: "epoch_number list \<Rightarrow> epoch_number" where
  "GetSmallestEpoch slots = foldl smallest_step THREAD_OFFLINE (rev slots)"

datatype decision = SkipRound | AbortProcess | Advance | Hold

definition writer_decision :: "bool \<Rightarrow> bool \<Rightarrow> epoch_number \<Rightarrow> epoch_number \<Rightarrow> decision" where
  "writer_decision forced_wake stop old_epoch min_epoch =
     (if forced_wake \<and> \<not> stop \<and> old_epoch \<ge> kEpochHighWater then SkipRound
      else if min_epoch = THREAD_OFFLINE \<or> min_epoch = old_epoch
      then if old_epoch \<ge> kEpochHighWater then AbortProcess else Advance
      else Hold)"

text \<open>\<open>saw_stop\<close> is what the first load of \<open>stop_\<close> in the round returned; the flag is never cleared, so it
  may have been set since. The timed wait returns the value of its predicate.\<close>

definition writer_wake :: "epoch_framework \<Rightarrow> bool \<Rightarrow> epoch_framework" where
  "writer_wake s saw_stop =
     (if saw_stop then s\<lparr>ef_writer := WriterScans (length (ef_slots s)) THREAD_OFFLINE False\<rparr>
      else s\<lparr>ef_advance_requested := False,
             ef_writer := WriterScans (length (ef_slots s)) THREAD_OFFLINE
               (ef_advance_requested s \<or> ef_stop s)\<rparr>)"

definition writer_scan :: "epoch_framework \<Rightarrow> nat \<Rightarrow> epoch_number \<Rightarrow> bool \<Rightarrow> epoch_framework" where
  "writer_scan s k m forced_wake =
     s\<lparr>ef_writer := (case k of 0 \<Rightarrow> WriterDecides m forced_wake
        | Suc j \<Rightarrow> WriterScans j (smallest_step m (ef_slots s ! j)) forced_wake)\<rparr>"

definition writer_decide :: "epoch_framework \<Rightarrow> epoch_number \<Rightarrow> bool \<Rightarrow> epoch_framework" where
  "writer_decide s m forced_wake =
     (case writer_decision forced_wake (ef_stop s) (ef_global_epoch s) m of
        SkipRound \<Rightarrow> s\<lparr>ef_writer := WriterWaits\<rparr>
      | AbortProcess \<Rightarrow> s\<lparr>ef_writer := WriterAborted\<rparr>
      | Advance \<Rightarrow> s\<lparr>ef_global_epoch := ef_global_epoch s + 1,
                      ef_writer := WriterPublishes (ef_global_epoch s + 1) m\<rparr>
      | Hold \<Rightarrow> s\<lparr>ef_writer := WriterEnds m\<rparr>)"

definition writer_publish :: "epoch_framework \<Rightarrow> epoch_number \<Rightarrow> epoch_framework" where
  "writer_publish s m = s\<lparr>ef_writer := WriterEnds m\<rparr>"

definition writer_end :: "epoch_framework \<Rightarrow> epoch_number \<Rightarrow> epoch_framework" where
  "writer_end s m =
     s\<lparr>ef_writer := (if ef_stop s \<and> m = THREAD_OFFLINE then WriterExited else WriterWaits)\<rparr>"

section \<open>Steps\<close>

datatype epoch_action = Internal | Publish epoch_number

inductive epoch_step :: "epoch_framework \<Rightarrow> epoch_action \<Rightarrow> epoch_framework \<Rightarrow> bool" where
  register: "epoch_step s Internal (tls_register s)"
| load: "t < length (ef_workers s) \<Longrightarrow> ef_workers s ! t = Outside \<Longrightarrow> epoch_step s Internal (online_load s t)"
| store: "t < length (ef_workers s) \<Longrightarrow> ef_workers s ! t = Loaded p \<Longrightarrow>
    epoch_step s Internal (online_store s t p)"
| reload: "t < length (ef_workers s) \<Longrightarrow> ef_workers s ! t = Published p \<Longrightarrow>
    epoch_step s Internal (online_reload s t p)"
| offline: "t < length (ef_workers s) \<Longrightarrow> ef_workers s ! t = Online e \<Longrightarrow>
    epoch_step s Internal (MakeMeOffline s t)"
| request: "epoch_step s Internal (RequestEpochAdvance s)"
| await: "WaitGlobalEpochAtLeastUntil s target expired = (r, s') \<Longrightarrow> epoch_step s Internal s'"
| start: "epoch_step s Internal (Start s)"
| stop: "epoch_step s Internal (Stop s)"
| wake: "ef_writer s = WriterWaits \<Longrightarrow> ef_start s \<Longrightarrow> saw_stop \<longrightarrow> ef_stop s \<Longrightarrow>
    epoch_step s Internal (writer_wake s saw_stop)"
| scan: "ef_writer s = WriterScans k m forced \<Longrightarrow> epoch_step s Internal (writer_scan s k m forced)"
| decide: "ef_writer s = WriterDecides m forced \<Longrightarrow> epoch_step s Internal (writer_decide s m forced)"
| publish: "ef_writer s = WriterPublishes u m \<Longrightarrow> epoch_step s (Publish u) (writer_publish s m)"
| end_round: "ef_writer s = WriterEnds m \<Longrightarrow> epoch_step s Internal (writer_end s m)"

inductive_cases epoch_publishE: "epoch_step s (Publish u) s'"

section \<open>The invariant\<close>

text \<open>A worker that is online at \<open>e\<close> keeps the global epoch at \<open>e\<close> or one above. Once it is one above, a
  scan that has passed the worker's slot has seen an epoch no larger than \<open>e\<close>, so it cannot advance again.\<close>

definition worker_ok :: "epoch_number \<Rightarrow> epoch_number \<Rightarrow> worker \<Rightarrow> bool" where
  "worker_ok g slot w =
     (case w of
        Outside \<Rightarrow> slot = THREAD_OFFLINE
      | Loaded p \<Rightarrow> 0 < p \<and> p \<le> g \<and> (slot = THREAD_OFFLINE \<or> 0 < slot \<and> slot \<le> g)
      | Published p \<Rightarrow> slot = p \<and> 0 < p \<and> p \<le> g
      | Online e \<Rightarrow> slot = e \<and> 0 < e \<and> e \<le> g \<and> unat g \<le> unat e + 1)"

definition writer_ok :: "epoch_number \<Rightarrow> nat \<Rightarrow> epoch_number \<Rightarrow> epoch_writer \<Rightarrow> bool" where
  "writer_ok g t e w =
     (case w of
        WriterScans k m _ \<Rightarrow> k \<le> t \<and> e < g \<longrightarrow> m \<le> e
      | WriterDecides m _ \<Rightarrow> e < g \<longrightarrow> m \<le> e
      | _ \<Rightarrow> True)"

definition epoch_inv :: "epoch_framework \<Rightarrow> bool" where
  "epoch_inv s \<longleftrightarrow>
     0 < ef_global_epoch s \<and> ef_global_epoch s \<le> kEpochHighWater \<and>
     length (ef_slots s) = length (ef_workers s) \<and>
     (\<forall>t<length (ef_workers s). worker_ok (ef_global_epoch s) (ef_slots s ! t) (ef_workers s ! t) \<and>
        (\<forall>e. ef_workers s ! t = Online e \<longrightarrow> writer_ok (ef_global_epoch s) t e (ef_writer s))) \<and>
     (\<forall>k m f. ef_writer s = WriterScans k m f \<longrightarrow> k \<le> length (ef_slots s)) \<and>
     (\<forall>u m. ef_writer s = WriterPublishes u m \<longrightarrow> u = ef_global_epoch s)"

lemma high_water_simps:
  "kEpochHighWater = 0xFFEFFFFF" "kEpochHighWater < THREAD_OFFLINE"
  by (simp_all add: kEpochHighWater_def THREAD_OFFLINE_def)

lemma epoch_succ:
  assumes "g < kEpochHighWater"
  shows "unat (g + 1) = unat g + 1" "g < g + 1" "g + 1 \<le> kEpochHighWater" "0 < g + 1"
proof -
  have "unat g < unat (0xFFEFFFFF :: u32)" using assms by (simp add: high_water_simps word_less_nat_alt)
  then show u: "unat (g + 1) = unat g + 1" by (simp add: unat_word_ariths)
  then show "g < g + 1" "g + 1 \<le> kEpochHighWater" "0 < g + 1"
    using assms by (auto simp: word_less_nat_alt word_le_nat_alt)
qed

lemma smallest_step_le: "smallest_step m e \<le> m" "0 < e \<Longrightarrow> smallest_step m e \<le> e"
  by (auto simp: smallest_step_def)

lemma GetSmallestEpoch_scan:
  "foldl smallest_step m (rev (take (Suc j) slots)) =
     (if j < length slots then foldl smallest_step (smallest_step m (slots ! j)) (rev (take j slots))
      else foldl smallest_step m (rev slots))"
  by (simp add: take_Suc_conv_app_nth)

lemmas epoch_ops =
  tls_register_def online_load_def online_store_def online_reload_def MakeMeOffline_def
  RequestEpochAdvance_def Start_def Stop_def writer_wake_def writer_scan_def writer_decide_def
  writer_publish_def writer_end_def

lemma worker_ok_simps [simp]:
  "worker_ok g slot Outside \<longleftrightarrow> slot = THREAD_OFFLINE"
  "worker_ok g slot (Loaded p) \<longleftrightarrow> 0 < p \<and> p \<le> g \<and> (slot = THREAD_OFFLINE \<or> 0 < slot \<and> slot \<le> g)"
  "worker_ok g slot (Published p) \<longleftrightarrow> slot = p \<and> 0 < p \<and> p \<le> g"
  "worker_ok g slot (Online e) \<longleftrightarrow> slot = e \<and> 0 < e \<and> e \<le> g \<and> unat g \<le> unat e + 1"
  by (simp_all add: worker_ok_def)

lemma writer_ok_simps [simp]:
  "writer_ok g t e WriterWaits" "writer_ok g t e WriterExited" "writer_ok g t e WriterAborted"
  "writer_ok g t e (WriterPublishes u m)" "writer_ok g t e (WriterEnds m)"
  "writer_ok g t e (WriterScans k m f) \<longleftrightarrow> (k \<le> t \<and> e < g \<longrightarrow> m \<le> e)"
  "writer_ok g t e (WriterDecides m f) \<longleftrightarrow> (e < g \<longrightarrow> m \<le> e)"
  by (simp_all add: writer_ok_def)

lemma epoch_inv_workers:
  "epoch_inv s \<Longrightarrow> t < length (ef_workers s) \<Longrightarrow> worker_ok (ef_global_epoch s) (ef_slots s ! t) (ef_workers s ! t)"
  by (simp add: epoch_inv_def)

lemma epoch_inv_online:
  assumes "epoch_inv s" "t < length (ef_workers s)" "ef_workers s ! t = Online e"
  shows "ef_slots s ! t = e" "0 < e" "e \<le> ef_global_epoch s" "unat (ef_global_epoch s) \<le> unat e + 1"
    "writer_ok (ef_global_epoch s) t e (ef_writer s)"
  using assms epoch_inv_workers [OF assms(1,2)] by (auto simp: epoch_inv_def)

text \<open>Steps of one worker: the others and the writer are where they were.\<close>

lemma epoch_inv_worker:
  assumes inv: "epoch_inv s" and t: "t < length (ef_workers s)"
    and ok: "worker_ok (ef_global_epoch s) sl w"
    and new: "\<And>e. w = Online e \<Longrightarrow> ef_workers s ! t = Online e \<or> e = ef_global_epoch s"
  shows "epoch_inv (s\<lparr>ef_slots := (ef_slots s)[t := sl], ef_workers := (ef_workers s)[t := w]\<rparr>)"
proof -
  have "writer_ok (ef_global_epoch s) t e (ef_writer s)" if "w = Online e" for e
    using new [OF that] inv t by (cases "ef_writer s") (auto simp: epoch_inv_def)
  then show ?thesis using inv ok t by (auto simp: epoch_inv_def nth_list_update)
qed

lemma epoch_inv_advance:
  assumes inv: "epoch_inv s" and w: "ef_writer s = WriterDecides m f"
    and adv: "m = THREAD_OFFLINE \<or> m = ef_global_epoch s" and hw: "ef_global_epoch s < kEpochHighWater"
  shows "epoch_inv (s\<lparr>ef_global_epoch := ef_global_epoch s + 1,
    ef_writer := WriterPublishes (ef_global_epoch s + 1) m\<rparr>)"
proof -
  let ?g = "ef_global_epoch s"
  note succ = epoch_succ [OF hw]
  have "worker_ok (?g + 1) (ef_slots s ! t) (ef_workers s ! t)" if t: "t < length (ef_workers s)" for t
  proof (cases "ef_workers s ! t")
    case (Online e)
    note e = epoch_inv_online [OF inv t Online]
    have "\<not> e < ?g"
      using e(5) adv w high_water_simps(2) hw by auto
    then have "e = ?g" using e(3) by simp
    then show ?thesis using Online e succ by simp
  qed (use epoch_inv_workers [OF inv t] succ(2) in \<open>auto intro: order_trans [OF _ less_imp_le]\<close>)
  then show ?thesis using inv succ by (auto simp: epoch_inv_def)
qed

lemma epoch_inv_scan:
  assumes inv: "epoch_inv s" and w: "ef_writer s = WriterScans (Suc j) m f"
  shows "epoch_inv (s\<lparr>ef_writer := WriterScans j (smallest_step m (ef_slots s ! j)) f\<rparr>)"
proof -
  have "smallest_step m (ef_slots s ! j) \<le> e"
    if "t < length (ef_workers s)" "ef_workers s ! t = Online e" "j \<le> t" "e < ef_global_epoch s" for t e
  proof (cases "j = t")
    case True
    then show ?thesis using epoch_inv_online [OF inv that(1,2)] smallest_step_le(2) by metis
  next
    case False
    then have "m \<le> e" using epoch_inv_online(5) [OF inv that(1,2)] that w by simp
    then show ?thesis using smallest_step_le(1) order_trans by blast
  qed
  then show ?thesis using inv w by (auto simp: epoch_inv_def)
qed

lemma epoch_inv_await:
  "epoch_inv s \<Longrightarrow> WaitGlobalEpochAtLeastUntil s target expired = (r, s') \<Longrightarrow> epoch_inv s'"
  by (auto simp: WaitGlobalEpochAtLeastUntil_def epoch_inv_def split: if_splits)

lemma epoch_inv_decide:
  assumes inv: "epoch_inv s" and w: "ef_writer s = WriterDecides m f"
  shows "epoch_inv (writer_decide s m f)"
proof (cases "writer_decision f (ef_stop s) (ef_global_epoch s) m")
  case Advance
  then show ?thesis
    using epoch_inv_advance [OF inv w] by (auto simp: writer_decide_def writer_decision_def split: if_splits)
qed (use inv in \<open>auto simp: writer_decide_def epoch_inv_def\<close>)

text \<open>Steps that leave the epoch, the slots and the workers alone.\<close>

lemma epoch_inv_same:
  assumes "epoch_inv s" "ef_global_epoch s' = ef_global_epoch s" "ef_slots s' = ef_slots s"
    "ef_workers s' = ef_workers s"
    "ef_writer s' \<in> {ef_writer s, WriterWaits, WriterExited, WriterAborted}
       \<or> (\<exists>m. ef_writer s' = WriterEnds m)
       \<or> (\<exists>m f. ef_writer s' = WriterScans (length (ef_slots s)) m f)"
  shows "epoch_inv s'"
proof (cases "ef_writer s' = ef_writer s")
  case True
  show ?thesis using assms(1) unfolding epoch_inv_def assms(2-4) True .
next
  case False
  then show ?thesis
    using assms(1,5) unfolding epoch_inv_def assms(2-4) by (elim disjE exE) auto
qed

lemma epoch_inv_register: "epoch_inv s \<Longrightarrow> epoch_inv (tls_register s)"
  unfolding epoch_inv_def tls_register_def
  by (cases "ef_writer s") (auto simp: nth_append less_Suc_eq all_conj_distrib)

lemma epoch_inv_reload:
  assumes inv: "epoch_inv s" and t: "t < length (ef_workers s)" and w: "ef_workers s ! t = Published p"
  shows "epoch_inv (online_reload s t p)"
proof -
  let ?w = "if ef_global_epoch s = p then Online p else Loaded (ef_global_epoch s)"
  have p: "ef_slots s ! t = p" "0 < p" "p \<le> ef_global_epoch s"
    using epoch_inv_workers [OF inv t] w by simp_all
  have "0 < ef_global_epoch s" using inv by (simp add: epoch_inv_def)
  then have "worker_ok (ef_global_epoch s) p ?w" using p by simp
  then show ?thesis
    using epoch_inv_worker [OF inv t, of p ?w] p(1) [symmetric] by (simp add: online_reload_def split: if_splits)
qed

lemma epoch_inv_step:
  assumes step: "epoch_step s a s'" and inv: "epoch_inv s"
  shows "epoch_inv s'"
  using step
proof cases
  case register
  then show ?thesis using epoch_inv_register [OF inv] by simp
next
  case (load t)
  then show ?thesis
    using epoch_inv_worker [OF inv load(3), of "ef_slots s ! t" "Loaded (ef_global_epoch s)"]
      epoch_inv_workers [OF inv load(3)] inv by (simp add: online_load_def epoch_inv_def)
next
  case (store t p)
  then show ?thesis
    using epoch_inv_worker [OF inv store(3), of p "Published p"] epoch_inv_workers [OF inv store(3)]
    by (simp add: online_store_def)
next
  case (reload t p)
  then show ?thesis using epoch_inv_reload [OF inv] by simp
next
  case (offline t e)
  then show ?thesis
    using epoch_inv_worker [OF inv offline(3), of THREAD_OFFLINE Outside] by (simp add: MakeMeOffline_def)
next
  case (scan k m f)
  show ?thesis
  proof (cases k)
    case 0
    then show ?thesis using scan inv by (auto simp: writer_scan_def epoch_inv_def)
  next
    case (Suc j)
    then show ?thesis using epoch_inv_scan [OF inv] scan by (simp add: writer_scan_def)
  qed
next
  case (decide m f)
  then show ?thesis using epoch_inv_decide [OF inv] by simp
next
  case (await target expired r)
  then show ?thesis using epoch_inv_await [OF inv] by blast
qed (rule epoch_inv_same [OF inv]; auto simp: RequestEpochAdvance_def Start_def Stop_def
      writer_wake_def writer_publish_def writer_end_def)+

section \<open>Reachable states\<close>

text \<open>A framework before \<open>Start\<close>, its epoch possibly seeded by a recovery below the high-water mark.\<close>

definition epoch_init :: "epoch_framework \<Rightarrow> bool" where
  "epoch_init s \<longleftrightarrow>
     (\<exists>g. s = SetGlobalEpoch EpochFramework_new g \<and> 0 < g \<and> g < kEpochHighWater)"

definition epoch_moves :: "epoch_framework \<Rightarrow> epoch_framework \<Rightarrow> bool" where
  "epoch_moves s s' \<longleftrightarrow> (\<exists>a. epoch_step s a s')"

lemma epoch_init_inv: "epoch_init s \<Longrightarrow> epoch_inv s"
  by (auto simp: epoch_init_def epoch_inv_def SetGlobalEpoch_def EpochFramework_new_def)

interpretation es: inv_system epoch_init epoch_moves epoch_inv
  by unfold_locales (auto simp: epoch_moves_def intro: epoch_init_inv epoch_inv_step)

lemma epoch_monotone:
  assumes "epoch_inv s" "epoch_step s a s'"
  shows "ef_global_epoch s \<le> ef_global_epoch s'"
  using assms(2)
proof cases
  case (decide m f)
  then show ?thesis
    using epoch_succ(2) [of "ef_global_epoch s"]
    by (auto simp: writer_decide_def writer_decision_def not_le intro: less_imp_le split: if_splits)
next
  case (await target expired r)
  then show ?thesis by (auto simp: WaitGlobalEpochAtLeastUntil_def split: if_splits)
qed (auto simp: tls_register_def online_load_def online_store_def online_reload_def MakeMeOffline_def
    RequestEpochAdvance_def Start_def Stop_def writer_wake_def writer_scan_def writer_publish_def writer_end_def)

lemma epoch_run_monotone:
  assumes "epoch_moves\<^sup>*\<^sup>* s s'" "epoch_inv s"
  shows "epoch_inv s' \<and> ef_global_epoch s \<le> ef_global_epoch s'"
  using assms
proof (induction rule: rtranclp_induct)
  case (step y z)
  then show ?case using epoch_monotone [of y _ z] epoch_inv_step [of y _ z] by (force simp: epoch_moves_def)
qed simp

section \<open>Sync\<close>

text \<open>The accesses of \<open>Sync\<close>, with the number of advances already observed.\<close>

datatype sync = SyncLoad nat | SyncWait nat epoch_number | SyncReload nat | SyncReturned epoch_number

fun sync_step :: "epoch_framework \<Rightarrow> sync \<Rightarrow> sync" where
  "sync_step s (SyncLoad reload_count) = SyncWait reload_count (ef_global_epoch s)"
| "sync_step s (SyncWait reload_count current_epoch) =
     (if ef_stop s \<or> ef_global_epoch s \<noteq> current_epoch then SyncReload reload_count
      else SyncWait reload_count current_epoch)"
| "sync_step s (SyncReload reload_count) =
     (if ef_stop s then SyncReturned (ef_global_epoch s)
      else if reload_count + 1 = 2 then SyncReturned (ef_global_epoch s)
      else SyncLoad (reload_count + 1))"
| "sync_step s (SyncReturned e) = SyncReturned e"

inductive sync_moves :: "epoch_framework \<times> sync \<Rightarrow> epoch_framework \<times> sync \<Rightarrow> bool" where
  framework: "epoch_step s a s' \<Longrightarrow> sync_moves (s, y) (s', y)"
| caller: "sync_moves (s, y) (s, sync_step s y)"

text \<open>What the caller knows at each point of a call that began at \<open>g0\<close>, as long as nobody stopped the
  framework.\<close>

definition sync_knows :: "nat \<Rightarrow> epoch_framework \<times> sync \<Rightarrow> bool" where
  "sync_knows g0 x \<longleftrightarrow> epoch_inv (fst x) \<and>
     (ef_stop (fst x) \<or>
      (let g = unat (ef_global_epoch (fst x))
       in case snd x of
            SyncLoad n \<Rightarrow> n < 2 \<and> g0 + n \<le> g
          | SyncWait n c \<Rightarrow> n < 2 \<and> g0 + n \<le> unat c \<and> c \<le> ef_global_epoch (fst x)
          | SyncReload n \<Rightarrow> n < 2 \<and> g0 + n + 1 \<le> g
          | SyncReturned e \<Rightarrow> g0 + 2 \<le> unat e \<and> e \<le> ef_global_epoch (fst x)))"

lemma epoch_stop_stays: "epoch_step s a s' \<Longrightarrow> ef_stop s \<Longrightarrow> ef_stop s'"
  by (induction rule: epoch_step.induct)
    (auto simp: tls_register_def online_load_def online_store_def online_reload_def MakeMeOffline_def
      RequestEpochAdvance_def Start_def Stop_def writer_wake_def writer_scan_def writer_publish_def
      writer_end_def writer_decide_def WaitGlobalEpochAtLeastUntil_def split: if_splits decision.splits)

lemma sync_knows_step:
  assumes "sync_knows g0 x" "sync_moves x y"
  shows "sync_knows g0 y"
  using assms(2,1)
proof cases
  case (framework s a s' z)
  have inv: "epoch_inv s" using assms(1) framework by (simp add: sync_knows_def)
  have g: "ef_global_epoch s \<le> ef_global_epoch s'" using epoch_monotone [OF inv framework(3)] .
  then have "unat (ef_global_epoch s) \<le> unat (ef_global_epoch s')" by (simp add: word_le_nat_alt)
  then show ?thesis
    using assms(1) framework epoch_inv_step [OF framework(3) inv] epoch_stop_stays [OF framework(3)] g
    by (cases z) (auto simp: sync_knows_def Let_def)
next
  case (caller s z)
  have "unat c < unat (ef_global_epoch s)" if "c \<le> ef_global_epoch s" "ef_global_epoch s \<noteq> c" for c
    using that by (simp add: word_le_nat_alt word_unat_eq_iff)
  then show ?thesis using assms(1) caller
    by (cases z) (auto simp: sync_knows_def Let_def word_le_nat_alt word_unat_eq_iff)
qed

interpretation ss: inv_system "\<lambda>x. epoch_inv (fst x) \<and> unat (ef_global_epoch (fst x)) = g0 \<and> snd x = SyncLoad 0"
  sync_moves "sync_knows g0" for g0
proof
  fix x assume "epoch_inv (fst x) \<and> unat (ef_global_epoch (fst x)) = g0 \<and> snd x = SyncLoad 0"
  then show "sync_knows g0 x" by (simp add: sync_knows_def)
qed (rule sync_knows_step)

section \<open>A round of the writer\<close>

lemma epoch_moves_step: "epoch_moves\<^sup>*\<^sup>* s t \<Longrightarrow> epoch_step t a u \<Longrightarrow> epoch_moves\<^sup>*\<^sup>* s u"
  unfolding epoch_moves_def by (rule rtranclp.rtrancl_into_rtrancl) auto

lemma writer_scan_run:
  assumes "ef_writer s = WriterScans k m f" "k \<le> length (ef_slots s)"
  shows "epoch_moves\<^sup>*\<^sup>* s (s\<lparr>ef_writer := WriterDecides (foldl smallest_step m (rev (take k (ef_slots s)))) f\<rparr>)"
  using assms
proof (induction k arbitrary: s m)
  case 0
  then show ?case using epoch_step.scan [OF 0(1)] by (auto simp: writer_scan_def epoch_moves_def)
next
  case (Suc j)
  let ?s = "s\<lparr>ef_writer := WriterScans j (smallest_step m (ef_slots s ! j)) f\<rparr>"
  have "epoch_moves s ?s"
    using epoch_step.scan [OF Suc.prems(1)] by (auto simp: writer_scan_def epoch_moves_def)
  moreover have "epoch_moves\<^sup>*\<^sup>* ?s (?s\<lparr>ef_writer :=
      WriterDecides (foldl smallest_step (smallest_step m (ef_slots s ! j)) (rev (take j (ef_slots ?s)))) f\<rparr>)"
    using Suc.prems by (intro Suc.IH) auto
  ultimately show ?case
    using Suc.prems(2) by (simp add: take_Suc_conv_app_nth converse_rtranclp_into_rtranclp)
qed

text \<open>An uninterrupted round decides on the least epoch of the slots.\<close>

lemma writer_round_run:
  assumes "ef_writer s = WriterWaits" "ef_start s" "\<not> ef_stop s"
  shows "epoch_moves\<^sup>*\<^sup>* s (writer_decide (s\<lparr>ef_advance_requested := False,
      ef_writer := WriterDecides (GetSmallestEpoch (ef_slots s)) (ef_advance_requested s)\<rparr>)
      (GetSmallestEpoch (ef_slots s)) (ef_advance_requested s))"
proof -
  let ?s = "s\<lparr>ef_advance_requested := False,
    ef_writer := WriterScans (length (ef_slots s)) THREAD_OFFLINE (ef_advance_requested s)\<rparr>"
  have "epoch_moves s ?s"
    using epoch_step.wake [OF assms(1,2), of False] assms(3) by (auto simp: writer_wake_def epoch_moves_def)
  moreover have "epoch_moves\<^sup>*\<^sup>* ?s (?s\<lparr>ef_writer := WriterDecides (GetSmallestEpoch (ef_slots s)) (ef_advance_requested s)\<rparr>)"
    using writer_scan_run [of ?s] by (simp add: GetSmallestEpoch_def)
  ultimately show ?thesis
    by (simp add: epoch_moves_step [OF converse_rtranclp_into_rtranclp epoch_step.decide])
qed

lemma writer_round_advance:
  assumes "ef_writer s = WriterWaits" "ef_start s" "\<not> ef_stop s" "ef_global_epoch s < kEpochHighWater"
    and "GetSmallestEpoch (ef_slots s) = THREAD_OFFLINE \<or> GetSmallestEpoch (ef_slots s) = ef_global_epoch s"
  shows "epoch_moves\<^sup>*\<^sup>* s (s\<lparr>ef_advance_requested := False, ef_global_epoch := ef_global_epoch s + 1\<rparr>)"
proof -
  let ?m = "GetSmallestEpoch (ef_slots s)"
  let ?s = "s\<lparr>ef_advance_requested := False, ef_global_epoch := ef_global_epoch s + 1\<rparr>"
  have "writer_decision f (ef_stop s) (ef_global_epoch s) ?m = Advance" for f
    using assms(4,5) by (auto simp: writer_decision_def)
  then have "epoch_moves\<^sup>*\<^sup>* s (?s\<lparr>ef_writer := WriterPublishes (ef_global_epoch s + 1) ?m\<rparr>)"
    using writer_round_run [OF assms(1-3)] by (simp add: writer_decide_def)
  from epoch_moves_step [OF this epoch_step.publish [of _ "ef_global_epoch s + 1" ?m]]
  have "epoch_moves\<^sup>*\<^sup>* s (?s\<lparr>ef_writer := WriterEnds ?m\<rparr>)" by (simp add: writer_publish_def)
  from epoch_moves_step [OF this epoch_step.end_round [of _ ?m]]
  have "epoch_moves\<^sup>*\<^sup>* s (?s\<lparr>ef_writer := WriterWaits\<rparr>)" using assms(3) by (simp add: writer_end_def)
  moreover have "?s\<lparr>ef_writer := WriterWaits\<rparr> = ?s" using assms(1) by simp
  ultimately show ?thesis by simp
qed

lemma foldl_smallest:
  "foldl smallest_step m es \<le> m" "e \<in> set es \<Longrightarrow> 0 < e \<Longrightarrow> foldl smallest_step m es \<le> e"
  "foldl smallest_step m es = m \<or> foldl smallest_step m es \<in> set es \<and> 0 < foldl smallest_step m es"
proof (induction es arbitrary: m)
  case (Cons a es)
  { case 1 show ?case using Cons.IH(1) [of "smallest_step m a"] smallest_step_le(1) [of m a] by simp
  next
    case 2 then show ?case
      using Cons.IH(1,2) [of "smallest_step m a"] smallest_step_le(2) [of a m] by (auto intro: order_trans)
  next
    case 3 show ?case using Cons.IH(3) [of "smallest_step m a"] by (auto simp: smallest_step_def) }
qed simp_all

text \<open>The advance condition says that no slot lags behind the global epoch.\<close>

lemma smallest_no_lag:
  assumes "\<forall>e\<in>set slots. e = THREAD_OFFLINE \<or> 0 < e \<and> e \<le> g" "g < THREAD_OFFLINE"
  shows "(GetSmallestEpoch slots = THREAD_OFFLINE \<or> GetSmallestEpoch slots = g) \<longleftrightarrow>
    (\<forall>e\<in>set slots. e = THREAD_OFFLINE \<or> e = g)"
proof -
  have "0 < THREAD_OFFLINE" by (simp add: THREAD_OFFLINE_def)
  then have le: "GetSmallestEpoch slots \<le> e" if "e \<in> set slots" for e
    using foldl_smallest(2) [of e "rev slots" THREAD_OFFLINE] assms(1) that by (auto simp: GetSmallestEpoch_def)
  have cases: "GetSmallestEpoch slots = THREAD_OFFLINE \<or> GetSmallestEpoch slots \<in> set slots"
    using foldl_smallest(3) [of THREAD_OFFLINE "rev slots"] by (auto simp: GetSmallestEpoch_def)
  show ?thesis using le cases assms by fastforce
qed

section \<open>Properties\<close>

text \<open>C18. In every reachable state a worker that \<open>MakeMeOnline\<close> put online at an epoch keeps the global
  epoch at that epoch or one above it, its slot reads that epoch, and the counter has not passed the
  high-water mark, so it has never wrapped. This is what makes the epoch two below the global one
  closed.\<close>

theorem online_epoch_lags_at_most_one:
  assumes "epoch_init s0" "epoch_moves\<^sup>*\<^sup>* s0 s"
    and "t < length (ef_workers s)" "ef_workers s ! t = Online e"
  shows "ef_slots s ! t = e \<and> e \<le> ef_global_epoch s \<and> unat (ef_global_epoch s) \<le> unat e + 1 \<and>
    ef_global_epoch s \<le> kEpochHighWater"
  using epoch_inv_online [OF es.inv_reachable [OF assms(1,2)] assms(3,4)] es.inv_reachable [OF assms(1,2)]
  by (simp add: epoch_inv_def)

lemma epoch_init_new: "epoch_init (SetGlobalEpoch EpochFramework_new 1)"
  by (auto simp: epoch_init_def high_water_simps)

text \<open>A worker joins epoch 1, and the writer starts and advances past it.\<close>

lemma joined_run:
  "epoch_moves\<^sup>*\<^sup>* (SetGlobalEpoch EpochFramework_new 1)
     \<lparr>ef_start = True, ef_stop = False, ef_advance_requested = False, ef_global_epoch = 1,
      ef_slots = [1], ef_workers = [Online 1], ef_writer = WriterWaits\<rparr>" (is "epoch_moves\<^sup>*\<^sup>* ?s0 _")
proof -
  have "epoch_moves\<^sup>*\<^sup>* ?s0 (tls_register ?s0)"
    by (rule epoch_moves_step [OF rtranclp.rtrancl_refl epoch_step.register])
  then have "epoch_moves\<^sup>*\<^sup>* ?s0 (online_load (tls_register ?s0) 0)"
    by (rule epoch_moves_step [OF _ epoch_step.load])
      (simp_all add: tls_register_def SetGlobalEpoch_def EpochFramework_new_def)
  then have "epoch_moves\<^sup>*\<^sup>* ?s0 (online_store (online_load (tls_register ?s0) 0) 0 1)"
    by (rule epoch_moves_step [OF _ epoch_step.store])
      (simp_all add: online_load_def tls_register_def SetGlobalEpoch_def EpochFramework_new_def)
  then have "epoch_moves\<^sup>*\<^sup>* ?s0 (online_reload (online_store (online_load (tls_register ?s0) 0) 0 1) 0 1)"
    by (rule epoch_moves_step [OF _ epoch_step.reload])
      (simp_all add: online_store_def online_load_def tls_register_def SetGlobalEpoch_def EpochFramework_new_def)
  from epoch_moves_step [OF this epoch_step.start] show ?thesis
    by (simp add: Start_def online_reload_def online_store_def online_load_def tls_register_def
        SetGlobalEpoch_def EpochFramework_new_def)
qed

theorem online_epoch_lags_at_most_one_witness:
  "\<exists>s. epoch_moves\<^sup>*\<^sup>* (SetGlobalEpoch EpochFramework_new 1) s \<and> ef_workers s ! 0 = Online 1 \<and>
     ef_global_epoch s = 2 \<and> ef_slots s ! 0 = 1 \<and> unat (ef_global_epoch s) \<le> unat (1 :: epoch_number) + 1"
proof -
  define s where "s = \<lparr>ef_start = True, ef_stop = False, ef_advance_requested = False, ef_global_epoch = 1 + 1,
    ef_slots = [1], ef_workers = [Online 1], ef_writer = WriterWaits\<rparr>"
  have "epoch_moves\<^sup>*\<^sup>* (SetGlobalEpoch EpochFramework_new 1) s"
    using rtranclp_trans [OF joined_run writer_round_advance]
    by (simp add: s_def high_water_simps GetSmallestEpoch_def smallest_step_def THREAD_OFFLINE_def)
  moreover have "ef_workers s ! 0 = Online 1" "0 < length (ef_workers s)" by (simp_all add: s_def)
  ultimately show ?thesis
    using online_epoch_lags_at_most_one [OF epoch_init_new, of s 0 1] by (auto simp: s_def)
qed


lemma sync_framework_run: "epoch_moves\<^sup>*\<^sup>* s s' \<Longrightarrow> sync_moves\<^sup>*\<^sup>* (s, y) (s', y)"
proof (induction rule: rtranclp_induct)
  case (step t u)
  then show ?case using sync_moves.framework [of t _ u y]
    by (auto simp: epoch_moves_def intro: rtranclp.rtrancl_into_rtrancl)
qed simp

lemma sync_caller_step: "sync_moves\<^sup>*\<^sup>* x (s, y) \<Longrightarrow> sync_moves\<^sup>*\<^sup>* x (s, sync_step s y)"
  by (rule rtranclp.rtrancl_into_rtrancl) (auto intro: sync_moves.caller)


text \<open>C20. The writer is not held up by workers that are in the current epoch. When nobody has stopped the
  framework and the counter is below the high-water mark, a round that no worker interrupts advances
  the epoch by exactly one if every slot is offline or in the current epoch; if a worker lags, the
  round ends without advancing.\<close>

theorem writer_round_progress:
  assumes "epoch_init s0" "epoch_moves\<^sup>*\<^sup>* s0 s"
    and "ef_writer s = WriterWaits" "ef_start s" "\<not> ef_stop s" "ef_global_epoch s < kEpochHighWater"
  shows "if \<forall>e\<in>set (ef_slots s). e = THREAD_OFFLINE \<or> e = ef_global_epoch s
    then \<exists>s'. epoch_moves\<^sup>*\<^sup>* s s' \<and> ef_global_epoch s' = ef_global_epoch s + 1 \<and>
      ef_slots s' = ef_slots s \<and> ef_workers s' = ef_workers s \<and> ef_writer s' = WriterWaits
    else \<exists>s' m. epoch_moves\<^sup>*\<^sup>* s s' \<and> ef_global_epoch s' = ef_global_epoch s \<and>
      ef_slots s' = ef_slots s \<and> ef_workers s' = ef_workers s \<and> ef_writer s' = WriterEnds m"
proof -
  have inv: "epoch_inv s" by (rule es.inv_reachable [OF assms(1,2)])
  have off: "ef_global_epoch s < THREAD_OFFLINE" using assms(6) high_water_simps(2) by (rule less_trans)
  have "e = THREAD_OFFLINE \<or> 0 < e \<and> e \<le> ef_global_epoch s" if e: "e \<in> set (ef_slots s)" for e
  proof -
    obtain t where "t < length (ef_slots s)" "ef_slots s ! t = e" using e by (auto simp: in_set_conv_nth)
    moreover have "length (ef_slots s) = length (ef_workers s)" using inv by (simp add: epoch_inv_def)
    ultimately have t: "t < length (ef_workers s)" "ef_slots s ! t = e" by simp_all
    then show ?thesis using epoch_inv_workers [OF inv t(1)] by (cases "ef_workers s ! t") auto
  qed
  note lag = smallest_no_lag [of "ef_slots s", OF _ off]
  show ?thesis
  proof (cases "\<forall>e\<in>set (ef_slots s). e = THREAD_OFFLINE \<or> e = ef_global_epoch s")
    case True
    then have "GetSmallestEpoch (ef_slots s) = THREAD_OFFLINE \<or> GetSmallestEpoch (ef_slots s) = ef_global_epoch s"
      using lag \<open>\<And>e. e \<in> set (ef_slots s) \<Longrightarrow> e = THREAD_OFFLINE \<or> 0 < e \<and> e \<le> ef_global_epoch s\<close> by blast
    from writer_round_advance [OF assms(3-6) this] show ?thesis
      unfolding if_P [OF True] using assms(3)
      by (intro exI [of _ "s\<lparr>ef_advance_requested := False, ef_global_epoch := ef_global_epoch s + 1\<rparr>"]) simp
  next
    case False
    have "\<not> (GetSmallestEpoch (ef_slots s) = THREAD_OFFLINE \<or> GetSmallestEpoch (ef_slots s) = ef_global_epoch s)"
      using lag False \<open>\<And>e. e \<in> set (ef_slots s) \<Longrightarrow> e = THREAD_OFFLINE \<or> 0 < e \<and> e \<le> ef_global_epoch s\<close> by blast
    then have "writer_decision f (ef_stop s) (ef_global_epoch s) (GetSmallestEpoch (ef_slots s)) = Hold" for f
      using assms(6) by (auto simp: writer_decision_def)
    then show ?thesis unfolding if_not_P [OF False]
      using writer_round_run [OF assms(3-5)] by (fastforce simp: writer_decide_def)
  qed
qed

theorem writer_round_progress_witness:
  "\<exists>s'. epoch_moves\<^sup>*\<^sup>* \<lparr>ef_start = True, ef_stop = False, ef_advance_requested = False, ef_global_epoch = 1,
      ef_slots = [1], ef_workers = [Online 1], ef_writer = WriterWaits\<rparr> s' \<and> ef_global_epoch s' = 2"
  using writer_round_progress [OF epoch_init_new joined_run] by (auto simp: high_water_simps)

end
