(* ===== verification/Durability.thy ===== *)
theory Durability
  imports Loggers EpochFramework
begin

text \<open>
  The durability contract across components: the epoch framework of
  \<^verbatim>\<open>src/util/epoch_framework.hpp\<close>, the committing threads of \<^verbatim>\<open>src/database_impl.h\<close>, the logger with its
  flusher, and the write-ahead log, interleaved at their atomic steps.
\<close>

section \<open>The log a device keeps\<close>

definition log_kept :: "(LogRecords \<Rightarrow> bytes) \<Rightarrow> wal \<Rightarrow> bucket list \<Rightarrow> bool" where
  "log_kept pack w bs \<longleftrightarrow>
     log_ok pack bs \<and> take (length (encode_log pack bs)) (w_file w) = encode_log pack bs"

definition records_of :: "bucket list \<Rightarrow> LogRecords" where
  "records_of bs = concat (map snd bs)"

lemma records_of_simps [simp]:
  "records_of [] = []" "records_of (b # bs) = snd b @ records_of bs"
  "records_of (bs @ cs) = records_of bs @ records_of cs"
  by (simp_all add: records_of_def)

lemma wal_log_kept: "wal_log pack w bs \<Longrightarrow> log_kept pack w bs"
  by (auto simp: wal_log_def log_kept_def)

lemma torn_after_kept:
  "wal_log pack w bs \<Longrightarrow> torn_after pack bs cs (w_file w') \<Longrightarrow> log_kept pack w' bs"
  by (auto simp: wal_log_def torn_after_def log_kept_def)

section \<open>Buckets\<close>

definition carry_ok :: "bucket list \<Rightarrow> bool" where
  "carry_ok carry \<longleftrightarrow> sorted_wrt (<) (map fst carry) \<and>
     (\<forall>(e, rs)\<in>set carry. rs \<noteq> [] \<and> (\<forall>r\<in>set rs. lr_epoch r = e))"

lemma carry_ok_Nil [simp]: "carry_ok []"
  by (simp add: carry_ok_def)

lemma carry_add_epochs: "fst ` set (carry_add carry r) = insert (lr_epoch r) (fst ` set carry)"
  by (induction carry r rule: carry_add.induct) auto

lemma carry_ok_Cons [simp]:
  "carry_ok ((e, rs) # bs) \<longleftrightarrow>
     rs \<noteq> [] \<and> (\<forall>r\<in>set rs. lr_epoch r = e) \<and> (\<forall>b\<in>set bs. e < fst b) \<and> carry_ok bs"
  by (auto simp: carry_ok_def)

lemma carry_ok_append: "carry_ok (bs @ cs) \<Longrightarrow> carry_ok bs \<and> carry_ok cs"
  by (induction bs) auto

lemma carry_add_ok: "carry_ok carry \<Longrightarrow> carry_ok (carry_add carry r)"
proof (induction carry r rule: carry_add.induct)
  case (2 e rs bs r)
  have "e < fst b" if "e < lr_epoch r" "b \<in> set (carry_add bs r)" for b
  proof -
    have "fst b \<in> insert (lr_epoch r) (fst ` set bs)"
      using that(2) carry_add_epochs [of bs r] by blast
    then show ?thesis using that(1) 2(2) by auto
  qed
  then show ?case using 2 by (force intro: less_trans)
qed simp

lemma carry_add_records: "mset (records_of (carry_add carry r)) = mset (records_of carry) + {#r#}"
  by (induction carry r rule: carry_add.induct) auto

lemma carry_record_epoch: "carry_ok carry \<Longrightarrow> r \<in> set (records_of carry) \<Longrightarrow> lr_epoch r \<in> fst ` set carry"
  by (force simp: carry_ok_def records_of_def)

lemma collect_node_Some:
  assumes "collect_node before rs carry = Some carry'" "carry_ok carry"
  shows "carry_ok carry' \<and> mset (records_of carry') = mset (records_of carry) + mset rs"
  using assms
proof (induction rs arbitrary: carry)
  case (Cons r rs)
  then show ?case
    using carry_add_ok [of carry r] Cons.IH [of "carry_add carry r"]
    by (auto simp: carry_add_records split: if_splits)
qed simp

lemma collect_node_returns:
  "\<forall>r\<in>set rs. before < lr_epoch r \<Longrightarrow> \<exists>carry'. collect_node before rs carry = Some carry'"
  by (induction rs arbitrary: carry) auto

lemma carry_split:
  assumes "carry_ok carry"
  shows "carry = eligible target carry @ dropWhile (\<lambda>b. fst b \<le> target) carry"
    "carry_ok (dropWhile (\<lambda>b. fst b \<le> target) carry)"
    "r \<in> set (records_of (dropWhile (\<lambda>b. fst b \<le> target) carry)) \<Longrightarrow> target < lr_epoch r"
    "r \<in> set (records_of (eligible target carry)) \<Longrightarrow> lr_epoch r \<le> target"
proof -
  let ?d = "dropWhile (\<lambda>b. fst b \<le> target) carry"
  show split: "carry = eligible target carry @ ?d" by (simp add: eligible_def)
  have parts: "carry_ok (eligible target carry)" "carry_ok ?d"
    using assms carry_ok_append [of "eligible target carry" ?d] split [symmetric] by simp_all
  then show "carry_ok ?d" by simp
  have "target < fst b" if "b \<in> set ?d" for b
    using parts(2) that
  proof (cases ?d)
    case (Cons c cs)
    then have "target < fst c" using hd_dropWhile [of "\<lambda>b. fst b \<le> target" carry] by auto
    then show ?thesis using parts(2) that Cons by (auto simp: carry_ok_def)
  qed simp
  then show "target < lr_epoch r" if "r \<in> set (records_of ?d)"
    using carry_record_epoch [OF parts(2) that] by auto
  show "lr_epoch r \<le> target" if "r \<in> set (records_of (eligible target carry))"
    using carry_record_epoch [OF parts(1) that] set_eligible by fastforce
qed

section \<open>The logger's invariant\<close>

text \<open>\<open>hist\<close> lists every record enqueued so far and \<open>bs0\<close> the log that recovery found. While the flusher
  works, every enqueued record is in the log, in \<open>carry_\<close> or in a node, exactly once, and none that is not
  in the log has an epoch at or below the durable epoch.\<close>

definition late :: "epoch_number \<Rightarrow> LogRecords \<Rightarrow> bool" where
  "late t rs \<longleftrightarrow> (\<forall>r\<in>set rs. t < lr_epoch r)"

definition durable_in_log ::
  "(LogRecords \<Rightarrow> bytes) \<Rightarrow> bucket list \<Rightarrow> LogRecords \<Rightarrow> logger \<Rightarrow> bool" where
  "durable_in_log pack bs0 hist lg \<longleftrightarrow>
     (\<exists>bs. log_kept pack (tl_wal (lg_backend lg)) (bs0 @ bs) \<and>
       mset (filter (\<lambda>r. lr_epoch r \<le> lg_durable_epoch lg) hist) =
       mset (filter (\<lambda>r. lr_epoch r \<le> lg_durable_epoch lg) (records_of bs)))"

fun flusher_ok :: "epoch_number \<Rightarrow> LogRecords list \<Rightarrow> bucket list \<Rightarrow> flusher \<Rightarrow> bool" where
  "flusher_ok d nodes carry (FlusherBegins t) \<longleftrightarrow> d < t"
| "flusher_ok d nodes carry (FlusherCollects t before k) \<longleftrightarrow>
     before = d \<and> d < t \<and> k \<le> length nodes \<and> late t (concat (drop k nodes))"
| "flusher_ok d nodes carry (FlusherAppends t) \<longleftrightarrow> d < t \<and> late t (concat nodes)"
| "flusher_ok d nodes carry (FlusherPublishes t) \<longleftrightarrow>
     d < t \<and> late t (concat nodes) \<and> late t (records_of carry)"
| "flusher_ok d nodes carry _ \<longleftrightarrow> True"

fun flusher_target :: "epoch_number \<Rightarrow> flusher \<Rightarrow> epoch_number" where
  "flusher_target d (FlusherBegins t) = t"
| "flusher_target d (FlusherCollects t before k) = t"
| "flusher_target d (FlusherAppends t) = t"
| "flusher_target d (FlusherPublishes t) = t"
| "flusher_target d _ = d"

fun flusher_over :: "flusher \<Rightarrow> bool" where
  "flusher_over (FlusherFails e) \<longleftrightarrow> True"
| "flusher_over (FlusherReports e) \<longleftrightarrow> True"
| "flusher_over FlusherReturned \<longleftrightarrow> True"
| "flusher_over _ \<longleftrightarrow> False"

definition flush_inv :: "(LogRecords \<Rightarrow> bytes) \<Rightarrow> bucket list \<Rightarrow> LogRecords \<Rightarrow> logger \<Rightarrow> bool" where
  "flush_inv pack bs0 hist lg \<longleftrightarrow>
     (let be = lg_backend lg; d = lg_durable_epoch lg
      in carry_ok (tl_carry be) \<and> late d (records_of (tl_carry be)) \<and> late d (concat (tl_nodes be)) \<and>
         flusher_ok d (tl_nodes be) (tl_carry be) (tl_flusher be) \<and>
         (\<exists>bs. wal_log pack (tl_wal be) (bs0 @ bs) \<and>
           mset hist = mset (records_of bs) + mset (records_of (tl_carry be)) + mset (concat (tl_nodes be))))"

definition logger_inv ::
  "(LogRecords \<Rightarrow> bytes) \<Rightarrow> bucket list \<Rightarrow> nat \<Rightarrow> LogRecords \<Rightarrow> logger \<Rightarrow> bool" where
  "logger_inv pack bs0 c hist lg \<longleftrightarrow>
     (let be = lg_backend lg; d = lg_durable_epoch lg
      in unat d \<le> c \<and> unat (tl_pending_closed be) \<le> c \<and> unat (flusher_target d (tl_flusher be)) \<le> c \<and>
         (if flusher_over (tl_flusher be) then durable_in_log pack bs0 hist lg else flush_inv pack bs0 hist lg) \<and>
         (lg_aborted lg \<longrightarrow> lg_state lg = LoggerFailed \<and> lg_process_fail_stop lg) \<and>
         (lg_state lg \<noteq> Running \<longrightarrow> tl_flusher be = FlusherReturned \<or> tl_flusher be = FlusherUnstarted) \<and>
         (tl_flusher be = FlusherReturned \<longrightarrow> IsQuiescent lg \<and> (tl_stop_requested be \<or> tl_failed be)) \<and>
         (\<forall>e. tl_flusher be = FlusherReports e \<longrightarrow> tl_failed be))"

lemma late_simps [simp]:
  "late t []" "late t (r # rs) \<longleftrightarrow> t < lr_epoch r \<and> late t rs" "late t (rs @ ss) \<longleftrightarrow> late t rs \<and> late t ss"
  by (auto simp: late_def)

lemma late_mset: "mset rs = mset ss \<Longrightarrow> late t rs = late t ss"
  unfolding late_def by (metis set_mset_mset)

lemma late_filter: "late t rs \<Longrightarrow> filter (\<lambda>r. lr_epoch r \<le> t) rs = []"
  by (auto simp: late_def filter_empty_conv)

lemma late_concat_update:
  "n < length nodes \<Longrightarrow> late t (concat nodes) \<Longrightarrow> late t rs \<Longrightarrow> late t (concat (nodes[n := rs]))"
  unfolding late_def using set_update_subset_insert [of nodes n rs] by fastforce

lemma mset_concat_update:
  "n < length nodes \<Longrightarrow> mset (concat (nodes[n := rs])) + mset (nodes ! n) = mset (concat nodes) + mset rs"
proof (induction nodes arbitrary: n)
  case (Cons a nodes)
  then show ?case by (cases n) (auto simp: ac_simps)
qed simp

lemma flush_inv_durable: "flush_inv pack bs0 hist lg \<Longrightarrow> durable_in_log pack bs0 hist lg"
proof -
  assume inv: "flush_inv pack bs0 hist lg"
  let ?be = "lg_backend lg" and ?P = "\<lambda>r. lr_epoch r \<le> lg_durable_epoch lg"
  obtain bs where bs: "wal_log pack (tl_wal ?be) (bs0 @ bs)"
      "mset hist = mset (records_of bs) + mset (records_of (tl_carry ?be)) + mset (concat (tl_nodes ?be))"
    using inv by (auto simp: flush_inv_def Let_def)
  have "filter ?P (records_of (tl_carry ?be)) = []" "filter ?P (concat (tl_nodes ?be)) = []"
    using inv by (auto simp: flush_inv_def Let_def intro!: late_filter)
  then have "mset (filter ?P hist) = mset (filter ?P (records_of bs))"
    using arg_cong [OF bs(2), of "filter_mset ?P"] by (simp flip: mset_filter)
  then show ?thesis using wal_log_kept [OF bs(1)] by (auto simp: durable_in_log_def)
qed

lemma logger_inv_durable: "logger_inv pack bs0 c hist lg \<Longrightarrow> durable_in_log pack bs0 hist lg"
  by (auto simp: logger_inv_def Let_def flush_inv_durable split: if_splits)

lemma logger_inv_mono: "logger_inv pack bs0 c hist lg \<Longrightarrow> c \<le> c' \<Longrightarrow> logger_inv pack bs0 c' hist lg"
  by (auto simp: logger_inv_def Let_def)

section \<open>Every step keeps it\<close>

lemma node_push_mset: "mset (concat (node_push nodes n r)) = mset (concat nodes) + {#r#}"
  using mset_concat_update [of n nodes "nodes ! n @ [r]"] by (auto simp: node_push_def)

lemma node_push_late:
  "late t (concat (drop k (node_push nodes n r))) \<longleftrightarrow>
     late t (concat (drop k nodes)) \<and> (k \<le> n \<or> length nodes \<le> n \<and> k \<le> length nodes \<longrightarrow> t < lr_epoch r)"
  if "k \<le> length nodes"
proof (cases "n < length nodes")
  case True
  show ?thesis
  proof (cases "k \<le> n")
    case le: True
    have "drop k (nodes[n := nodes ! n @ [r]]) = (drop k nodes)[n - k := drop k nodes ! (n - k) @ [r]]"
      using le True by (simp add: drop_update_swap)
    moreover have "mset (concat ((drop k nodes)[n - k := drop k nodes ! (n - k) @ [r]])) = mset (concat (drop k nodes) @ [r])"
      using mset_concat_update [of "n - k" "drop k nodes" "drop k nodes ! (n - k) @ [r]"] True le by simp
    ultimately show ?thesis using True le late_mset [of _ "concat (drop k nodes) @ [r]" t] by (simp add: node_push_def)
  qed (use True in \<open>simp add: node_push_def\<close>)
qed (use that in \<open>simp add: node_push_def\<close>)

lemma length_node_push: "length nodes \<le> length (node_push nodes n r)"
  by (simp add: node_push_def)

lemma flusher_ok_push:
  assumes "flusher_ok d nodes carry f" "flusher_target d f < lr_epoch r"
  shows "flusher_ok d (node_push nodes n r) carry f"
proof -
  have "late t (concat (node_push nodes n r))" if "late t (concat nodes)" "t < lr_epoch r" for t
    using that late_mset [of "concat (node_push nodes n r)" "concat nodes @ [r]" t] by (simp add: node_push_mset)
  then show ?thesis
    using assms length_node_push [of nodes n r]
    by (cases f) (auto simp: node_push_late intro: order_trans)
qed

lemma Enqueue_inv:
  assumes inv: "logger_inv pack bs0 c hist lg" and e: "c < unat e" and E: "Enqueue lg n ws e = (b, lg')"
  shows "logger_inv pack bs0 c (if b then hist @ [write_set_record ws e] else hist) lg'"
proof (cases b)
  case False
  then show ?thesis using E inv by (auto simp: Enqueue_def Let_def split: if_splits)
next
  case True
  let ?r = "write_set_record ws e" and ?be = "lg_backend lg" and ?d = "lg_durable_epoch lg"
  have lg': "lg' = lg\<lparr>lg_backend := ?be\<lparr>tl_nodes := node_push (tl_nodes ?be) n ?r\<rparr>\<rparr>"
    using E True by (auto simp: Enqueue_def Let_def split: if_splits)
  have r: "lr_epoch ?r = e" by (simp add: write_set_record_def)
  have lt: "?d < e" "flusher_target ?d (tl_flusher ?be) < e"
    using inv e by (auto simp: logger_inv_def Let_def word_less_nat_alt)
  have "flush_inv pack bs0 (hist @ [?r]) lg'" if f: "flush_inv pack bs0 hist lg"
  proof -
    have "late ?d (concat (node_push (tl_nodes ?be) n ?r))"
      using f lt(1) late_mset [of "concat (node_push (tl_nodes ?be) n ?r)" "concat (tl_nodes ?be) @ [?r]"]
      by (simp add: node_push_mset r flush_inv_def Let_def)
    then show ?thesis
      using f flusher_ok_push [of ?d "tl_nodes ?be" "tl_carry ?be" "tl_flusher ?be" ?r n] lt(2)
      by (auto simp: lg' flush_inv_def Let_def r node_push_mset)
  qed
  moreover have "durable_in_log pack bs0 (hist @ [?r]) lg'" if "durable_in_log pack bs0 hist lg"
    using that lt(1) by (auto simp: durable_in_log_def lg' r)
  ultimately show ?thesis
    using inv True by (auto simp: logger_inv_def Let_def lg' IsQuiescent_def)
qed

text \<open>The records are looked for in the file, the carry, the nodes and by the flusher; a step that changes
  none of them and not the durable epoch keeps the invariant if its flags do.\<close>

lemma logger_inv_flags:
  assumes inv: "logger_inv pack bs0 c hist lg"
    and same: "lg_durable_epoch lg' = lg_durable_epoch lg" "tl_nodes (lg_backend lg') = tl_nodes (lg_backend lg)"
      "tl_carry (lg_backend lg') = tl_carry (lg_backend lg)" "tl_wal (lg_backend lg') = tl_wal (lg_backend lg)"
      "tl_flusher (lg_backend lg') = tl_flusher (lg_backend lg)"
      "tl_failed (lg_backend lg') = tl_failed (lg_backend lg)" "lg_aborted lg' = lg_aborted lg"
    and pend: "unat (tl_pending_closed (lg_backend lg')) \<le> c"
    and flags: "lg_process_fail_stop lg \<Longrightarrow> lg_process_fail_stop lg'"
      "tl_stop_requested (lg_backend lg) \<Longrightarrow> tl_stop_requested (lg_backend lg')"
      "lg_state lg = LoggerFailed \<Longrightarrow> lg_state lg' = LoggerFailed"
    and stop: "lg_state lg' \<noteq> Running \<Longrightarrow>
        tl_flusher (lg_backend lg) = FlusherReturned \<or> tl_flusher (lg_backend lg) = FlusherUnstarted"
    and quiet: "tl_flusher (lg_backend lg) = FlusherReturned \<Longrightarrow> IsQuiescent lg \<Longrightarrow>
        tl_stop_requested (lg_backend lg) \<or> tl_failed (lg_backend lg) \<Longrightarrow> IsQuiescent lg'"
  shows "logger_inv pack bs0 c hist lg'"
proof -
  have eq: "flush_inv pack bs0 hist lg' = flush_inv pack bs0 hist lg"
    "durable_in_log pack bs0 hist lg' = durable_in_log pack bs0 hist lg"
    by (simp_all only: flush_inv_def durable_in_log_def Let_def same)
  show ?thesis
    using inv pend flags stop quiet unfolding logger_inv_def Let_def same eq by auto
qed

lemma ScheduleFlush_inv:
  "logger_inv pack bs0 c hist lg \<Longrightarrow> unat closed \<le> c \<Longrightarrow> logger_inv pack bs0 c hist (ScheduleFlush lg closed)"
proof (cases "tl_stop_requested (lg_backend lg) \<or> tl_failed (lg_backend lg) \<or> \<not> tl_pending_closed (lg_backend lg) < closed")
  case False
  assume inv: "logger_inv pack bs0 c hist lg" and c: "unat closed \<le> c"
  show ?thesis
    by (rule logger_inv_flags [OF inv])
      (use inv c False in \<open>auto simp: ScheduleFlush_def Let_def IsQuiescent_def logger_inv_def\<close>)
qed (auto simp: ScheduleFlush_def Let_def)

lemma logger_control_inv:
  assumes inv: "logger_inv pack bs0 c hist lg"
  shows "logger_inv pack bs0 c hist (EnableProcessFailStop lg)"
    "logger_inv pack bs0 c hist (SetCommitDurability lg mode)"
    "logger_inv pack bs0 c hist (request_stop lg)"
    "StopAndDrainFlusher lg = Some lg' \<Longrightarrow> logger_inv pack bs0 c hist lg'"
proof -
  have c: "unat (tl_pending_closed (lg_backend lg)) \<le> c"
    "lg_state lg \<noteq> Running \<Longrightarrow>
       tl_flusher (lg_backend lg) = FlusherReturned \<or> tl_flusher (lg_backend lg) = FlusherUnstarted"
    using inv by (auto simp: logger_inv_def Let_def)
  show "logger_inv pack bs0 c hist (EnableProcessFailStop lg)"
    by (rule logger_inv_flags [OF inv]) (use c in \<open>simp_all add: EnableProcessFailStop_def IsQuiescent_def\<close>)
  show "logger_inv pack bs0 c hist (SetCommitDurability lg mode)"
    by (rule logger_inv_flags [OF inv]) (use c in \<open>simp_all add: SetCommitDurability_def IsQuiescent_def\<close>)
  show "logger_inv pack bs0 c hist (request_stop lg)"
    by (rule logger_inv_flags [OF inv]) (use c in \<open>simp_all add: request_stop_def IsQuiescent_def\<close>)
  show "logger_inv pack bs0 c hist lg'" if S: "StopAndDrainFlusher lg = Some lg'"
  proof (rule logger_inv_flags [OF inv])
    show "tl_flusher (lg_backend lg) = FlusherReturned \<or> tl_flusher (lg_backend lg) = FlusherUnstarted"
      using S by (auto simp: StopAndDrainFlusher_def split: if_splits)
  qed (use S c in \<open>auto simp: StopAndDrainFlusher_def PublishStopped_def IsQuiescent_def split: if_splits\<close>)
qed

text \<open>The flusher's steps, on the part of the state they change.\<close>

lemma collect_inv:
  assumes inv: "flush_inv pack bs0 hist lg" and f: "tl_flusher (lg_backend lg) = FlusherCollects t before k"
  shows "flush_inv pack bs0 hist (flusher_collect lg t before k) \<and>
    lg_aborted (flusher_collect lg t before k) = lg_aborted lg \<and>
    (\<exists>f. tl_flusher (lg_backend (flusher_collect lg t before k)) = f \<and> flusher_target d f = t \<and> \<not> flusher_over f)"
proof (cases k)
  case 0
  then show ?thesis
    using inv f by (simp add: flusher_collect_def set_flusher_def flush_inv_def Let_def)
next
  case (Suc j)
  let ?be = "lg_backend lg" and ?d = "lg_durable_epoch lg"
  have ok: "carry_ok (tl_carry ?be)" "late ?d (records_of (tl_carry ?be))" "late ?d (concat (tl_nodes ?be))"
      "before = ?d" "?d < t" "Suc j \<le> length (tl_nodes ?be)" "late t (concat (drop (Suc j) (tl_nodes ?be)))"
    using inv f Suc by (auto simp: flush_inv_def Let_def)
  obtain bs where bs: "wal_log pack (tl_wal ?be) (bs0 @ bs)"
      "mset hist = mset (records_of bs) + mset (records_of (tl_carry ?be)) + mset (concat (tl_nodes ?be))"
    using inv by (auto simp: flush_inv_def Let_def)
  have j: "j < length (tl_nodes ?be)" using ok(6) by simp
  have nj: "late ?d (tl_nodes ?be ! j)" using ok(3) j by (auto simp: late_def)
  then obtain carry where carry: "collect_node before (tl_nodes ?be ! j) (tl_carry ?be) = Some carry"
    using collect_node_returns [of "tl_nodes ?be ! j" before] ok(4) by (auto simp: late_def)
  have c: "carry_ok carry" "mset (records_of carry) = mset (records_of (tl_carry ?be) @ tl_nodes ?be ! j)"
    using collect_node_Some [OF carry ok(1)] by simp_all
  have "late ?d (records_of carry)" using late_mset [OF c(2)] ok(2) nj by simp
  moreover have "late ?d (concat ((tl_nodes ?be)[j := []]))" using late_concat_update [OF j ok(3)] by simp
  moreover have "late t (concat (drop j ((tl_nodes ?be)[j := []])))"
    using ok(7) j by (simp add: drop_update_swap Cons_nth_drop_Suc [symmetric])
  moreover have "mset hist = mset (records_of bs) + mset (records_of carry) + mset (concat ((tl_nodes ?be)[j := []]))"
    using bs(2) c(2) mset_concat_update [OF j, of "[]"] by (simp add: ac_simps)
  ultimately show ?thesis
    using Suc carry c(1) ok(4-6) bs(1) by (auto simp: flusher_collect_def flush_inv_def Let_def)
qed

lemma append_inv:
  assumes inv: "flush_inv pack bs0 hist lg" and f: "tl_flusher (lg_backend lg) = FlusherAppends t"
    and fits: "fits_memory pack (eligible t (tl_carry (lg_backend lg)))"
  shows "let lg' = flusher_append pack lg t
    in lg_aborted lg' = lg_aborted lg \<and>
      (tl_flusher (lg_backend lg') = FlusherPublishes t \<and> flush_inv pack bs0 hist lg' \<or>
       (\<exists>e. tl_flusher (lg_backend lg') = FlusherFails e) \<and> durable_in_log pack bs0 hist lg')"
proof -
  let ?be = "lg_backend lg" and ?d = "lg_durable_epoch lg"
  let ?rest = "dropWhile (\<lambda>b. fst b \<le> t) (tl_carry ?be)"
  have ok: "carry_ok (tl_carry ?be)" "late ?d (records_of (tl_carry ?be))" "late ?d (concat (tl_nodes ?be))"
      "?d < t" "late t (concat (tl_nodes ?be))"
    using inv f by (auto simp: flush_inv_def Let_def)
  obtain bs where bs: "wal_log pack (tl_wal ?be) (bs0 @ bs)"
      "mset hist = mset (records_of bs) + mset (records_of (tl_carry ?be)) + mset (concat (tl_nodes ?be))"
    using inv by (auto simp: flush_inv_def Let_def)
  have sorted: "sorted_wrt (<) (map fst (tl_carry ?be))" using ok(1) by (simp add: carry_ok_def)
  obtain r w where A: "AppendGroup pack (tl_wal ?be) (tl_carry ?be) t = (r, w)" by force
  note eff = AppendGroup_effect [OF bs(1) sorted fits [unfolded fits_memory_def] A]
  note split = carry_split [OF ok(1), where target = t]
  show ?thesis
  proof (cases r)
    case AppendOk
    have "wal_log pack w (bs0 @ bs @ eligible t (tl_carry ?be))"
      using waldev.append_ok [OF bs(1) sorted fits A [unfolded AppendOk]] by simp
    moreover have "mset hist = mset (records_of (bs @ eligible t (tl_carry ?be))) + mset (records_of ?rest) +
        mset (concat (tl_nodes ?be))"
      using bs(2) arg_cong [OF split(1), of "\<lambda>c. mset (records_of c)"] by (simp add: ac_simps)
    moreover have "late t (records_of ?rest)" using split(3) by (auto simp: late_def)
    moreover have "late ?d (records_of ?rest)" using split(3) ok(4) less_trans by (auto simp: late_def)
    ultimately show ?thesis
      using A AppendOk ok split(2) by (auto simp: flusher_append_def flush_append_def flush_inv_def Let_def)
  next
    case (AppendError e)
    have "log_kept pack w (bs0 @ bs)"
      using eff AppendError wal_log_kept [OF bs(1)] torn_after_kept [OF bs(1)] by auto
    moreover have "mset (filter (\<lambda>r. lr_epoch r \<le> ?d) hist) = mset (filter (\<lambda>r. lr_epoch r \<le> ?d) (records_of bs))"
      using arg_cong [OF bs(2), of "filter_mset (\<lambda>r. lr_epoch r \<le> ?d)"] late_filter [OF ok(2)] late_filter [OF ok(3)]
      by (simp flip: mset_filter)
    ultimately show ?thesis
      using A AppendError by (auto simp: flusher_append_def flush_append_def durable_in_log_def)
  qed (use eff in simp)
qed

lemma publish_inv:
  assumes inv: "flush_inv pack bs0 hist lg" and f: "tl_flusher (lg_backend lg) = FlusherPublishes t"
    and run: "lg_state lg = Running"
  shows "flush_inv pack bs0 hist (set_flusher (PublishDurable lg t) FlusherWaits) \<and>
    lg_durable_epoch (PublishDurable lg t) = t \<and> lg_aborted (PublishDurable lg t) = lg_aborted lg \<and>
    lg_state (PublishDurable lg t) = Running \<and> lg_backend (PublishDurable lg t) = lg_backend lg"
  using inv f run by (auto simp: flush_inv_def set_flusher_def PublishDurable_def Let_def)

lemma flusher_step_inv:
  assumes inv: "logger_inv pack bs0 c hist lg" and st: "flusher_step pack lg lg'"
  shows "logger_inv pack bs0 c hist lg'"
  using st
proof cases
  case wake
  then show ?thesis
    using inv flush_inv_durable [of pack bs0 hist lg]
    by (auto simp: flusher_wake_def set_flusher_def logger_inv_def Let_def flush_inv_def durable_in_log_def
        IsQuiescent_def not_le)
next
  case (begins t)
  then show ?thesis
    using inv by (auto simp: flusher_begin_def set_flusher_def logger_inv_def Let_def flush_inv_def IsQuiescent_def)
next
  case (collect t before k)
  have F: "flush_inv pack bs0 hist lg" using inv collect by (simp add: logger_inv_def Let_def)
  obtain f where f: "tl_flusher (lg_backend lg') = f" "flusher_target (lg_durable_epoch lg) f = t" "\<not> flusher_over f"
      "flush_inv pack bs0 hist lg'" "lg_aborted lg' = lg_aborted lg"
    using collect_inv [OF F collect(2)] collect(1) by blast
  have same: "lg_durable_epoch lg' = lg_durable_epoch lg" "lg_state lg' = lg_state lg"
      "lg_process_fail_stop lg' = lg_process_fail_stop lg"
      "tl_pending_closed (lg_backend lg') = tl_pending_closed (lg_backend lg)"
    unfolding collect(1)
    by (cases k; simp add: flusher_collect_def set_flusher_def Let_def split: option.splits)+
  show ?thesis using inv f same collect(2) by (cases f) (auto simp: logger_inv_def Let_def)
next
  case (append t)
  have F: "flush_inv pack bs0 hist lg" using inv append by (simp add: logger_inv_def Let_def)
  have same: "lg_durable_epoch lg' = lg_durable_epoch lg" "lg_state lg' = lg_state lg"
      "lg_process_fail_stop lg' = lg_process_fail_stop lg"
      "tl_pending_closed (lg_backend lg') = tl_pending_closed (lg_backend lg)"
    unfolding append(1)
    by (simp_all add: flusher_append_def flush_append_def split: prod.splits append_outcome.splits)
  show ?thesis
    using append_inv [OF F append(2,3)] append(1,2) inv same
    by (auto simp: logger_inv_def Let_def)
next
  case (throws t before k)
  have "flush_inv pack bs0 hist lg" using inv throws(2) by (auto simp: logger_inv_def Let_def)
  then have "durable_in_log pack bs0 hist lg" by (rule flush_inv_durable)
  then show ?thesis
    using inv throws by (auto simp: set_flusher_def logger_inv_def Let_def durable_in_log_def IsQuiescent_def)
next
  case (publish t)
  have F: "flush_inv pack bs0 hist lg" "lg_state lg = Running"
    using inv publish by (auto simp: logger_inv_def Let_def)
  have "lg_process_fail_stop (PublishDurable lg t) = lg_process_fail_stop lg" by (simp add: PublishDurable_def)
  then show ?thesis
    using publish_inv [OF F(1) publish(2) F(2)] inv publish
    by (auto simp: logger_inv_def Let_def set_flusher_def)
next
  case (fail e)
  then show ?thesis using inv by (auto simp: logger_inv_def Let_def durable_in_log_def)
next
  case (report e)
  then show ?thesis
    using inv by (auto simp: logger_inv_def Let_def set_flusher_def PublishFailure_def durable_in_log_def IsQuiescent_def)
qed

section \<open>The composed system\<close>

text \<open>The hook \<open>EventsOnEpochIsUpdated\<close> of \<^verbatim>\<open>src/database_impl.h\<close>, in a database that logs: the newest epoch
  that is certainly closed is handed to the flusher.\<close>

definition EventsOnEpochIsUpdated :: "logger \<Rightarrow> epoch_number \<Rightarrow> logger" where
  "EventsOnEpochIsUpdated lg updated_epoch =
     (if updated_epoch \<ge> 3 then ScheduleFlush lg (updated_epoch - 2) else lg)"

text \<open>The first epoch to resume at above a recovered frontier; \<open>None\<close> refuses to start.\<close>

definition ResumeEpochAbove :: "epoch_number \<Rightarrow> epoch_number option" where
  "ResumeEpochAbove frontier = (if frontier \<ge> kEpochHighWater - 1 then None else Some (frontier + 1))"

text \<open>The state of the system, with the records enqueued so far.\<close>

record system =
  sys_epoch :: epoch_framework
  sys_logger :: logger
  sys_hist :: LogRecords

definition alive :: "system \<Rightarrow> bool" where
  "alive s \<longleftrightarrow> \<not> lg_aborted (sys_logger s) \<and> ef_writer (sys_epoch s) \<noteq> WriterAborted"

text \<open>The commit of \<open>EndTransaction\<close> and \<open>ExecuteTransaction\<close> enqueues the write set in the epoch of the
  thread's slot, while the thread is online.\<close>

inductive system_step :: "(LogRecords \<Rightarrow> bytes) \<Rightarrow> system \<Rightarrow> system \<Rightarrow> bool" for pack where
  epoch: "alive s \<Longrightarrow> epoch_step (sys_epoch s) Internal e' \<Longrightarrow> system_step pack s (s\<lparr>sys_epoch := e'\<rparr>)"
| hook: "alive s \<Longrightarrow> epoch_step (sys_epoch s) (Publish u) e' \<Longrightarrow>
    system_step pack s (s\<lparr>sys_epoch := e', sys_logger := EventsOnEpochIsUpdated (sys_logger s) u\<rparr>)"
| commit: "alive s \<Longrightarrow> t < length (ef_workers (sys_epoch s)) \<Longrightarrow> ef_workers (sys_epoch s) ! t = Online e \<Longrightarrow>
    Enqueue (sys_logger s) n ws (GetMyThreadLocalEpoch (sys_epoch s) t) = (b, lg') \<Longrightarrow>
    system_step pack s (s\<lparr>sys_logger := lg',
      sys_hist := (if b then sys_hist s @ [write_set_record ws (GetMyThreadLocalEpoch (sys_epoch s) t)]
                   else sys_hist s)\<rparr>)"
| flusher: "alive s \<Longrightarrow> flusher_step pack (sys_logger s) lg' \<Longrightarrow> system_step pack s (s\<lparr>sys_logger := lg'\<rparr>)"
| arm: "alive s \<Longrightarrow> system_step pack s (s\<lparr>sys_logger := EnableProcessFailStop (sys_logger s)\<rparr>)"
| switch: "alive s \<Longrightarrow> system_step pack s (s\<lparr>sys_logger := SetCommitDurability (sys_logger s) mode\<rparr>)"
| drain: "alive s \<Longrightarrow> system_step pack s (s\<lparr>sys_logger := request_stop (sys_logger s)\<rparr>)"
| joined: "alive s \<Longrightarrow> StopAndDrainFlusher (sys_logger s) = Some lg' \<Longrightarrow>
    system_step pack s (s\<lparr>sys_logger := lg'\<rparr>)"

text \<open>The state after a recovery that found the log \<open>bs0\<close>: the frontier is its last epoch, the global
  epoch is above it, and the flusher has been started.\<close>

definition system_init :: "(LogRecords \<Rightarrow> bytes) \<Rightarrow> bucket list \<Rightarrow> system \<Rightarrow> bool" where
  "system_init pack bs0 s \<longleftrightarrow>
     (let lg = sys_logger s; be = lg_backend lg
      in wal_log pack (tl_wal be) bs0 \<and> lg_durable_epoch lg = log_frontier bs0 \<and>
         lg_state lg = Running \<and> \<not> lg_aborted lg \<and>
         tl_nodes be = [] \<and> tl_carry be = [] \<and> tl_pending_closed be = 0 \<and>
         \<not> tl_stop_requested be \<and> \<not> tl_failed be \<and> tl_flusher be = FlusherWaits \<and>
         sys_hist s = [] \<and>
         ResumeEpochAbove (log_frontier bs0) = Some (ef_global_epoch (sys_epoch s)) \<and>
         epoch_init (sys_epoch s))"

definition joined_after :: "epoch_number \<Rightarrow> worker \<Rightarrow> bool" where
  "joined_after F w = (case w of Outside \<Rightarrow> True | Loaded p \<Rightarrow> F < p | Published p \<Rightarrow> F < p | Online e \<Rightarrow> F < e)"

definition closed_epoch :: "epoch_number \<Rightarrow> system \<Rightarrow> nat" where
  "closed_epoch F s = max (unat F) (unat (ef_global_epoch (sys_epoch s)) - 2)"

definition system_inv :: "(LogRecords \<Rightarrow> bytes) \<Rightarrow> bucket list \<Rightarrow> system \<Rightarrow> bool" where
  "system_inv pack bs0 s \<longleftrightarrow>
     (let F = log_frontier bs0
      in epoch_inv (sys_epoch s) \<and> F < ef_global_epoch (sys_epoch s) \<and>
         list_all (joined_after F) (ef_workers (sys_epoch s)) \<and>
         logger_inv pack bs0 (closed_epoch F s) (sys_hist s) (sys_logger s))"

lemma joined_after_simps [simp]:
  "joined_after F Outside" "joined_after F (Loaded p) \<longleftrightarrow> F < p" "joined_after F (Published p) \<longleftrightarrow> F < p"
  "joined_after F (Online e) \<longleftrightarrow> F < e"
  by (simp_all add: joined_after_def)

lemma joined_after_update:
  "list_all (joined_after F) ws \<Longrightarrow> joined_after F w \<Longrightarrow> list_all (joined_after F) (ws[t := w])"
  using set_update_subset_insert [of ws t w] by (auto simp: list_all_iff)

lemma joined_after_step:
  assumes st: "epoch_step s a s'" and inv: "epoch_inv s"
    and j: "F < ef_global_epoch s" "list_all (joined_after F) (ef_workers s)"
  shows "F < ef_global_epoch s' \<and> list_all (joined_after F) (ef_workers s')"
proof
  show "F < ef_global_epoch s'" using j(1) epoch_monotone [OF inv st] by (rule less_le_trans)
  have nth: "joined_after F (ef_workers s ! t)" if "t < length (ef_workers s)" for t
    using j(2) that by (simp add: list_all_length)
  show "list_all (joined_after F) (ef_workers s')"
    using st
  proof cases
    case (store t p)
    then show ?thesis using nth [of t] j by (auto simp: online_store_def intro: joined_after_update)
  next
    case (reload t p)
    then show ?thesis using nth [of t] j by (auto simp: online_reload_def intro: joined_after_update)
  next
    case (await target expired r)
    then show ?thesis using j by (auto simp: WaitGlobalEpochAtLeastUntil_def split: if_splits)
  next
    case (decide m f)
    then show ?thesis using j by (simp add: writer_decide_def split: decision.splits)
  qed (use j in \<open>auto simp: tls_register_def online_load_def MakeMeOffline_def RequestEpochAdvance_def
      Start_def Stop_def writer_wake_def writer_scan_def writer_publish_def writer_end_def intro: joined_after_update\<close>)
qed

lemma closed_epoch_below:
  assumes "system_inv pack bs0 s" "t < length (ef_workers (sys_epoch s))" "ef_workers (sys_epoch s) ! t = Online e"
  shows "closed_epoch (log_frontier bs0) s < unat e"
proof -
  have inv: "epoch_inv (sys_epoch s)" "log_frontier bs0 < e"
    using assms by (auto simp: system_inv_def Let_def list_all_length)
  then show ?thesis
    using epoch_inv_online [OF inv(1) assms(2,3)]
    by (auto simp: closed_epoch_def word_less_nat_alt)
qed

lemma hook_closed:
  assumes "u \<ge> 3"
  shows "unat (u - 2 :: epoch_number) = unat u - 2"
  using assms by (simp add: unat_sub word_le_nat_alt)

lemma system_inv_epoch:
  assumes inv: "system_inv pack bs0 s" and st: "epoch_step (sys_epoch s) a e'"
  shows "system_inv pack bs0 (s\<lparr>sys_epoch := e'\<rparr>)"
proof -
  have i: "epoch_inv (sys_epoch s)" "log_frontier bs0 < ef_global_epoch (sys_epoch s)"
      "list_all (joined_after (log_frontier bs0)) (ef_workers (sys_epoch s))"
      "logger_inv pack bs0 (closed_epoch (log_frontier bs0) s) (sys_hist s) (sys_logger s)"
    using inv by (simp_all add: system_inv_def Let_def)
  have "closed_epoch (log_frontier bs0) s \<le> closed_epoch (log_frontier bs0) (s\<lparr>sys_epoch := e'\<rparr>)"
    using epoch_monotone [OF i(1) st] by (auto simp: closed_epoch_def word_le_nat_alt)
  then show ?thesis
    using joined_after_step [OF st i(1-3)] epoch_inv_step [OF st i(1)] logger_inv_mono [OF i(4)]
    by (simp add: system_inv_def Let_def)
qed

lemma system_inv_logger:
  assumes "system_inv pack bs0 s"
    and "logger_inv pack bs0 (closed_epoch (log_frontier bs0) s) hist lg"
  shows "system_inv pack bs0 (s\<lparr>sys_logger := lg, sys_hist := hist\<rparr>)"
  using assms by (simp add: system_inv_def Let_def closed_epoch_def)

lemma system_inv_step:
  assumes inv: "system_inv pack bs0 s" and st: "system_step pack s s'"
  shows "system_inv pack bs0 s'"
proof -
  have L: "logger_inv pack bs0 (closed_epoch (log_frontier bs0) s) (sys_hist s) (sys_logger s)"
    using inv by (simp add: system_inv_def Let_def)
  note keep = system_inv_logger [OF inv, of "sys_hist s"]
  from st show ?thesis
  proof cases
    case (epoch e')
    then show ?thesis using system_inv_epoch [OF inv] by simp
  next
    case (hook u e')
    let ?s = "s\<lparr>sys_epoch := e'\<rparr>"
    have I: "system_inv pack bs0 ?s" by (rule system_inv_epoch [OF inv hook(3)])
    have u: "u = ef_global_epoch e'"
      using hook(3) inv by (auto elim!: epoch_publishE simp: writer_publish_def system_inv_def Let_def epoch_inv_def)
    have "logger_inv pack bs0 (closed_epoch (log_frontier bs0) ?s) (sys_hist s) (EventsOnEpochIsUpdated (sys_logger s) u)"
      using I ScheduleFlush_inv [of pack bs0 "closed_epoch (log_frontier bs0) ?s" "sys_hist s" "sys_logger s" "u - 2"]
      by (auto simp: EventsOnEpochIsUpdated_def system_inv_def Let_def closed_epoch_def hook_closed u)
    from system_inv_logger [OF I this] show ?thesis using hook(1) by simp
  next
    case (commit t e n ws b lg')
    have e: "GetMyThreadLocalEpoch (sys_epoch s) t = e"
      using inv commit epoch_inv_online(1) by (auto simp: GetMyThreadLocalEpoch_def system_inv_def Let_def)
    show ?thesis
      using system_inv_logger [OF inv Enqueue_inv [OF L closed_epoch_below [OF inv commit(3,4)] commit(5) [unfolded e]]]
        commit(1) e by (cases b) simp_all
  next
    case (flusher lg')
    then show ?thesis using keep flusher_step_inv [OF L] by simp
  next
    case (joined lg')
    then show ?thesis using keep logger_control_inv(4) [OF L] by simp
  qed (use keep logger_control_inv(1-3) [OF L] in simp_all)
qed

lemma system_init_inv:
  assumes "system_init pack bs0 s"
  shows "system_inv pack bs0 s"
proof -
  let ?F = "log_frontier bs0" and ?lg = "sys_logger s"
  have g: "epoch_init (sys_epoch s)" "ef_global_epoch (sys_epoch s) = ?F + 1" "?F < kEpochHighWater - 1"
    using assms by (auto simp: system_init_def Let_def ResumeEpochAbove_def split: if_splits)
  have "?F < kEpochHighWater" using g(3) by (rule less_trans) (simp add: high_water_simps)
  then have "?F < ?F + 1" by (rule epoch_succ(2))
  moreover have "ef_workers (sys_epoch s) = []"
    using g(1) by (auto simp: epoch_init_def SetGlobalEpoch_def EpochFramework_new_def)
  moreover have "flush_inv pack bs0 (sys_hist s) ?lg"
    using assms by (auto simp: system_init_def flush_inv_def Let_def intro: exI [of _ "[]"])
  then have "logger_inv pack bs0 (closed_epoch ?F s) (sys_hist s) ?lg"
    using assms by (simp add: system_init_def logger_inv_def closed_epoch_def Let_def)
  ultimately show ?thesis
    using epoch_init_inv [OF g(1)] g(2) by (simp add: system_inv_def Let_def)
qed

interpretation ds: inv_system "system_init pack bs0" "system_step pack" "system_inv pack bs0" for pack bs0
  by unfold_locales (auto intro: system_init_inv system_inv_step)

section \<open>A run\<close>

text \<open>One thread joins epoch 1, commits one row and leaves; the epoch advances twice; the flusher writes
  the record and publishes epoch 1.\<close>

definition example_write_set :: write_set where
  "example_write_set = [Snapshot [107] (Some [118]) None [116] [] (TransactionId 1 2) 0]"

definition example_wal :: wal where
  "example_wal = \<lparr>w_file = [], w_io = clean_io, w_initial_capacity_bytes = 0, w_state = Ready,
    w_write_offset = 0, w_frontier = 0, w_initialised_size = 0, w_extension_count = 0\<rparr>"

definition example_logger :: logger where
  "example_logger = \<lparr>lg_durability = Sync, lg_durable_epoch = 0, lg_state = Running, lg_failure_errno = None,
    lg_process_fail_stop = False,
    lg_backend = \<lparr>tl_nodes = [], tl_carry = [], tl_wal = example_wal, tl_pending_closed = 0,
      tl_stop_requested = False, tl_failed = False, tl_flusher = FlusherWaits\<rparr>,
    lg_aborted = False\<rparr>"

abbreviation example_record1 :: LogRecord where
  "example_record1 \<equiv> write_set_record example_write_set 1"

definition example_epoch :: "bool \<Rightarrow> epoch_number \<Rightarrow> epoch_number list \<Rightarrow> worker list \<Rightarrow> epoch_writer \<Rightarrow> epoch_framework" where
  "example_epoch st g slots workers wr = \<lparr>ef_start = st, ef_stop = False, ef_advance_requested = False,
    ef_global_epoch = g, ef_slots = slots, ef_workers = workers, ef_writer = wr\<rparr>"

definition example_start :: system where
  "example_start = \<lparr>sys_epoch = SetGlobalEpoch EpochFramework_new 1, sys_logger = example_logger, sys_hist = []\<rparr>"

lemma example_init: "system_init (\<lambda>_. [7]) [] example_start"
  by (auto simp: system_init_def example_start_def example_logger_def example_wal_def wal_log_def log_ok_def
      log_frontier_def ResumeEpochAbove_def high_water_simps off_t_max_def epoch_init_def SetGlobalEpoch_def
      EpochFramework_new_def)

lemma system_then: "(system_step pack)\<^sup>*\<^sup>* s0 s \<Longrightarrow> system_step pack s s' \<Longrightarrow> (system_step pack)\<^sup>*\<^sup>* s0 s'"
  by (rule rtranclp.rtrancl_into_rtrancl)

lemma system_then_epoch:
  "(system_step pack)\<^sup>*\<^sup>* s0 \<lparr>sys_epoch = e, sys_logger = lg, sys_hist = h\<rparr> \<Longrightarrow> \<not> lg_aborted lg \<Longrightarrow>
   ef_writer e \<noteq> WriterAborted \<Longrightarrow> epoch_step e Internal e' \<Longrightarrow>
   (system_step pack)\<^sup>*\<^sup>* s0 \<lparr>sys_epoch = e', sys_logger = lg, sys_hist = h\<rparr>"
  using system_step.epoch [of "\<lparr>sys_epoch = e, sys_logger = lg, sys_hist = h\<rparr>" e' pack]
  by (auto simp: alive_def elim: system_then)

lemma system_then_flusher:
  "(system_step pack)\<^sup>*\<^sup>* s0 \<lparr>sys_epoch = e, sys_logger = lg, sys_hist = h\<rparr> \<Longrightarrow> \<not> lg_aborted lg \<Longrightarrow>
   ef_writer e \<noteq> WriterAborted \<Longrightarrow> flusher_step pack lg lg' \<Longrightarrow>
   (system_step pack)\<^sup>*\<^sup>* s0 \<lparr>sys_epoch = e, sys_logger = lg', sys_hist = h\<rparr>"
  using system_step.flusher [of "\<lparr>sys_epoch = e, sys_logger = lg, sys_hist = h\<rparr>" pack lg']
  by (auto simp: alive_def elim: system_then)

lemma example_round:
  assumes run: "(system_step pack)\<^sup>*\<^sup>* s0
      \<lparr>sys_epoch = example_epoch True g [THREAD_OFFLINE] [Outside] WriterWaits, sys_logger = lg, sys_hist = h\<rparr>"
    and lg: "\<not> lg_aborted lg" and g: "g < kEpochHighWater"
  shows "(system_step pack)\<^sup>*\<^sup>* s0
    \<lparr>sys_epoch = example_epoch True (g + 1) [THREAD_OFFLINE] [Outside] WriterWaits,
     sys_logger = EventsOnEpochIsUpdated lg (g + 1), sys_hist = h\<rparr>"
proof -
  let ?e = "\<lambda>g w. example_epoch True g [THREAD_OFFLINE] [Outside] w"
  let ?s = "\<lambda>e. \<lparr>sys_epoch = e, sys_logger = lg, sys_hist = h\<rparr>"
  note [simp] = example_epoch_def smallest_step_def
  have "(system_step pack)\<^sup>*\<^sup>* s0 (?s (?e g (WriterScans 1 THREAD_OFFLINE False)))"
    using system_then_epoch [OF run lg _ epoch_step.wake [of _ False]] by (simp add: writer_wake_def)
  from system_then_epoch [OF this lg _ epoch_step.scan]
  have "(system_step pack)\<^sup>*\<^sup>* s0 (?s (?e g (WriterScans 0 THREAD_OFFLINE False)))" by (auto simp: writer_scan_def)
  from system_then_epoch [OF this lg _ epoch_step.scan]
  have "(system_step pack)\<^sup>*\<^sup>* s0 (?s (?e g (WriterDecides THREAD_OFFLINE False)))" by (auto simp: writer_scan_def)
  from system_then_epoch [OF this lg _ epoch_step.decide]
  have "(system_step pack)\<^sup>*\<^sup>* s0 (?s (?e (g + 1) (WriterPublishes (g + 1) THREAD_OFFLINE)))"
    using g by (auto simp: writer_decide_def writer_decision_def not_le [symmetric])
  from system_then [OF this system_step.hook [OF _ epoch_step.publish]]
  have "(system_step pack)\<^sup>*\<^sup>* s0 ((?s (?e (g + 1) (WriterEnds THREAD_OFFLINE)))
      \<lparr>sys_logger := EventsOnEpochIsUpdated lg (g + 1)\<rparr>)"
    using lg by (simp add: writer_publish_def alive_def)
  from system_then [OF this system_step.epoch [OF _ epoch_step.end_round]] show ?thesis
    using lg by (simp add: writer_end_def alive_def EventsOnEpochIsUpdated_def ScheduleFlush_def Let_def)
qed

lemma example_committed:
  "(system_step (\<lambda>_. [7]))\<^sup>*\<^sup>* example_start
     \<lparr>sys_epoch = example_epoch True 1 [THREAD_OFFLINE] [Outside] WriterWaits,
      sys_logger = example_logger\<lparr>lg_backend := (lg_backend example_logger)\<lparr>tl_nodes := [[example_record1]]\<rparr>\<rparr>,
      sys_hist = [example_record1]\<rparr>"
proof -
  let ?lg = "example_logger\<lparr>lg_backend := (lg_backend example_logger)\<lparr>tl_nodes := [[example_record1]]\<rparr>\<rparr>"
  let ?run = "(system_step (\<lambda>_. [7]))\<^sup>*\<^sup>* example_start"
  let ?s = "\<lambda>sl w. \<lparr>sys_epoch = example_epoch False 1 sl w WriterWaits, sys_logger = example_logger, sys_hist = []\<rparr>"
  note [simp] = example_epoch_def
  have ok: "\<not> lg_aborted example_logger" by (simp add: example_logger_def)
  have "?run (?s [] [])" by (simp add: example_start_def SetGlobalEpoch_def EpochFramework_new_def)
  from system_then_epoch [OF this ok _ epoch_step.register]
  have "?run (?s [THREAD_OFFLINE] [Outside])" by (simp add: tls_register_def)
  from system_then_epoch [OF this ok _ epoch_step.load [of 0]]
  have "?run (?s [THREAD_OFFLINE] [Loaded 1])" by (simp add: online_load_def)
  from system_then_epoch [OF this ok _ epoch_step.store [of 0 _ 1]]
  have "?run (?s [1] [Published 1])" by (simp add: online_store_def)
  from system_then_epoch [OF this ok _ epoch_step.reload [of 0 _ 1]]
  have "?run (?s [1] [Online 1])" by (simp add: online_reload_def)
  from system_then [OF this system_step.commit [of _ 0 1 0 example_write_set True _ "\<lambda>_. [7]"]]
  have "?run \<lparr>sys_epoch = example_epoch False 1 [1] [Online 1] WriterWaits, sys_logger = ?lg,
      sys_hist = [example_record1]\<rparr>"
    by (simp add: alive_def GetMyThreadLocalEpoch_def Enqueue_def Let_def node_push_def example_logger_def
        write_set_record_def example_write_set_def snapshot_kvps_def Snapshot_def)
  from system_then_epoch [OF this _ _ epoch_step.offline [of 0 _ 1]]
  have "?run \<lparr>sys_epoch = example_epoch False 1 [THREAD_OFFLINE] [Outside] WriterWaits, sys_logger = ?lg,
      sys_hist = [example_record1]\<rparr>"
    using ok by (simp add: MakeMeOffline_def)
  from system_then_epoch [OF this _ _ epoch_step.start] show ?thesis
    using ok by (simp add: Start_def)
qed

definition example_logged :: "wal \<Rightarrow> flusher \<Rightarrow> epoch_number \<Rightarrow> LogRecords list \<Rightarrow> bucket list \<Rightarrow> logger" where
  "example_logged w f d nodes carry = \<lparr>lg_durability = Sync, lg_durable_epoch = d, lg_state = Running,
    lg_failure_errno = None, lg_process_fail_stop = False,
    lg_backend = \<lparr>tl_nodes = nodes, tl_carry = carry, tl_wal = w, tl_pending_closed = 1,
      tl_stop_requested = False, tl_failed = False, tl_flusher = f\<rparr>,
    lg_aborted = False\<rparr>"

lemma example_append:
  "\<exists>w. AppendGroup (\<lambda>_. [7]) example_wal [(1, [example_record1])] 1 = (AppendOk, w)"
  by (simp add: AppendGroup_def example_wal_def write_set_record_def kMaxPayloadSize_def EnsureCapacityFor_def
      capacity_plan_def write_group_def WriteAllAt_def pwrite_loop_clean kSsizeMax_def kHeaderSize_def clean_io_def)

lemma example_flushed:
  "\<exists>w. (system_step (\<lambda>_. [7]))\<^sup>*\<^sup>* example_start
     \<lparr>sys_epoch = example_epoch True 3 [THREAD_OFFLINE] [Outside] WriterWaits,
      sys_logger = example_logged w FlusherWaits 1 [[]] [], sys_hist = [example_record1]\<rparr>"
proof -
  let ?run = "(system_step (\<lambda>_. [7]))\<^sup>*\<^sup>* example_start"
  let ?s = "\<lambda>lg. \<lparr>sys_epoch = example_epoch True 3 [THREAD_OFFLINE] [Outside] WriterWaits, sys_logger = lg,
    sys_hist = [example_record1]\<rparr>"
  obtain w where w: "AppendGroup (\<lambda>_. [7]) example_wal [(1, [example_record1])] 1 = (AppendOk, w)"
    using example_append by blast
  note [simp] = example_logged_def example_epoch_def set_flusher_def write_set_record_def
  have "?run (?s (example_logged example_wal FlusherWaits 0 [[example_record1]] []))"
    using example_round [OF example_round [OF example_committed]]
    by (simp add: example_logger_def high_water_simps EventsOnEpochIsUpdated_def ScheduleFlush_def Let_def)
  from system_then_flusher [OF this _ _ flusher_step.wake]
  have "?run (?s (example_logged example_wal (FlusherBegins 1) 0 [[example_record1]] []))"
    by (simp add: flusher_wake_def)
  from system_then_flusher [OF this _ _ flusher_step.begins]
  have "?run (?s (example_logged example_wal (FlusherCollects 1 0 1) 0 [[example_record1]] []))"
    by (simp add: flusher_begin_def)
  from system_then_flusher [OF this _ _ flusher_step.collect]
  have "?run (?s (example_logged example_wal (FlusherCollects 1 0 0) 0 [[]] [(1, [example_record1])]))"
    by (simp add: flusher_collect_def)
  from system_then_flusher [OF this _ _ flusher_step.collect]
  have "?run (?s (example_logged example_wal (FlusherAppends 1) 0 [[]] [(1, [example_record1])]))"
    by (simp add: flusher_collect_def)
  from system_then_flusher [OF this _ _ flusher_step.append]
  have "?run (?s (example_logged w (FlusherPublishes 1) 0 [[]] []))"
    using w by (simp add: flusher_append_def flush_append_def fits_memory_def kHeaderSize_def)
  from system_then_flusher [OF this _ _ flusher_step.publish]
  have "?run (?s (example_logged w FlusherWaits 1 [[]] []))" by (simp add: PublishDurable_def)
  then show ?thesis by blast
qed

section \<open>Properties\<close>

text \<open>C3. Durability. From any log that recovery found, through any interleaving of the epoch writer, the
  committing threads, the flusher, switches of the policy and a shutdown, and with any outcomes of the
  system calls: in every reachable state the file holds the recovered log followed by more buckets, and
  among the records enqueued so far those whose epoch is at or below the durable epoch are exactly the
  ones in those buckets with such an epoch, each as often as it was enqueued. The process stops only
  where a write failure was reported and fail-stop was armed; in particular no record ever
  arrives for an epoch already reported durable.\<close>

theorem durable_epoch_is_in_log:
  assumes "system_init pack bs0 s0" "(system_step pack)\<^sup>*\<^sup>* s0 s"
  shows "(\<exists>bs. log_kept pack (tl_wal (lg_backend (sys_logger s))) (bs0 @ bs) \<and>
      mset (filter (\<lambda>r. lr_epoch r \<le> lg_durable_epoch (sys_logger s)) (sys_hist s)) =
      mset (filter (\<lambda>r. lr_epoch r \<le> lg_durable_epoch (sys_logger s)) (records_of bs))) \<and>
    (lg_aborted (sys_logger s) \<longrightarrow>
      lg_state (sys_logger s) = LoggerFailed \<and> lg_process_fail_stop (sys_logger s))"
proof -
  have "logger_inv pack bs0 (closed_epoch (log_frontier bs0) s) (sys_hist s) (sys_logger s)"
    using ds.inv_reachable [OF assms] by (simp add: system_inv_def Let_def)
  then show ?thesis using logger_inv_durable [of pack bs0 _ "sys_hist s" "sys_logger s"]
    by (auto simp: durable_in_log_def logger_inv_def Let_def)
qed

theorem durable_epoch_is_in_log_witness:
  "\<exists>s. (system_step (\<lambda>_. [7]))\<^sup>*\<^sup>* example_start s \<and> lg_durable_epoch (sys_logger s) = 1 \<and>
     sys_hist s = [example_record1] \<and>
     (\<exists>bs. log_kept (\<lambda>_. [7]) (tl_wal (lg_backend (sys_logger s))) ([] @ bs) \<and>
       mset (filter (\<lambda>r. lr_epoch r \<le> 1) (records_of bs)) = {#example_record1#})"
proof -
  obtain s where s: "(system_step (\<lambda>_. [7]))\<^sup>*\<^sup>* example_start s" "lg_durable_epoch (sys_logger s) = 1"
      "sys_hist s = [example_record1]"
    using example_flushed by (auto simp: example_logged_def)
  have "lr_epoch example_record1 = 1" by (simp add: write_set_record_def)
  then show ?thesis
    using durable_epoch_is_in_log [OF example_init s(1)] s by (intro exI [of _ s]) auto
qed

text \<open>C4. The Sync contract. When \<open>AwaitCommitDurability\<close> acknowledges a commit that waits for durability,
  the record that the commit enqueued is in the log on the device.\<close>

theorem sync_commit_acknowledged_is_logged:
  assumes "system_init pack bs0 s0" "(system_step pack)\<^sup>*\<^sup>* s0 s"
    and "r \<in> set (sys_hist s)" "AwaitCommitDurability (sys_logger s) (lr_epoch r) True = Acknowledged"
  shows "\<exists>bs. log_kept pack (tl_wal (lg_backend (sys_logger s))) (bs0 @ bs) \<and> r \<in> set (records_of bs)"
proof -
  let ?P = "\<lambda>r. lr_epoch r \<le> lg_durable_epoch (sys_logger s)"
  have "durable_in_log pack bs0 (sys_hist s) (sys_logger s)"
    using ds.inv_reachable [OF assms(1,2)] logger_inv_durable by (auto simp: system_inv_def Let_def)
  then obtain bs where bs: "log_kept pack (tl_wal (lg_backend (sys_logger s))) (bs0 @ bs)"
      "mset (filter ?P (sys_hist s)) = mset (filter ?P (records_of bs))"
    by (auto simp: durable_in_log_def)
  have "lr_epoch r \<le> lg_durable_epoch (sys_logger s)"
    using assms(4) by (auto simp: AwaitCommitDurability_def WaitUntilDurable_def split: if_splits)
  then have "r \<in> set (filter ?P (sys_hist s))" using assms(3) by simp
  then have "r \<in> set (records_of bs)" using mset_eq_setD [OF bs(2)] by auto
  then show ?thesis using bs(1) by blast
qed

theorem sync_commit_acknowledged_is_logged_witness:
  "\<exists>s bs. (system_step (\<lambda>_. [7]))\<^sup>*\<^sup>* example_start s \<and>
     AwaitCommitDurability (sys_logger s) 1 True = Acknowledged \<and>
     log_kept (\<lambda>_. [7]) (tl_wal (lg_backend (sys_logger s))) ([] @ bs) \<and> example_record1 \<in> set (records_of bs)"
proof -
  obtain s where s: "(system_step (\<lambda>_. [7]))\<^sup>*\<^sup>* example_start s" "lg_durable_epoch (sys_logger s) = 1"
      "sys_hist s = [example_record1]"
    using example_flushed by (auto simp: example_logged_def)
  have e: "lr_epoch example_record1 = 1" by (simp add: write_set_record_def)
  have ack: "AwaitCommitDurability (sys_logger s) 1 True = Acknowledged"
    using s(2) by (simp add: AwaitCommitDurability_def WaitUntilDurable_def)
  show ?thesis
    using sync_commit_acknowledged_is_logged [OF example_init s(1), of example_record1] s e ack by auto
qed

text \<open>C16. A shutdown drains. Once the flusher has returned, which is what \<open>StopAndDrainFlusher\<close> joins,
  either a write failure has been recorded or every epoch that was handed over is durable, so every
  record enqueued in such an epoch is in the log.\<close>

theorem drained_flusher_wrote_everything:
  assumes "system_init pack bs0 s0" "(system_step pack)\<^sup>*\<^sup>* s0 s"
    and "StopAndDrainFlusher (sys_logger s) = Some lg'" "tl_flusher (lg_backend (sys_logger s)) \<noteq> FlusherUnstarted"
  shows "tl_failed (lg_backend lg') \<or>
    (\<exists>bs. log_kept pack (tl_wal (lg_backend lg')) (bs0 @ bs) \<and>
      (\<forall>r\<in>set (sys_hist s). lr_epoch r \<le> tl_pending_closed (lg_backend lg') \<longrightarrow> r \<in> set (records_of bs)))"
proof -
  let ?lg = "sys_logger s" and ?P = "\<lambda>r. lr_epoch r \<le> lg_durable_epoch (sys_logger s)"
  have inv: "logger_inv pack bs0 (closed_epoch (log_frontier bs0) s) (sys_hist s) ?lg"
    using ds.inv_reachable [OF assms(1,2)] by (simp add: system_inv_def Let_def)
  have lg': "lg_backend lg' = lg_backend ?lg" and ret: "tl_flusher (lg_backend ?lg) = FlusherReturned"
    using assms(3,4) by (auto simp: StopAndDrainFlusher_def PublishStopped_def split: if_splits)
  have q: "IsQuiescent ?lg" using inv ret by (simp add: logger_inv_def Let_def)
  obtain bs where bs: "log_kept pack (tl_wal (lg_backend ?lg)) (bs0 @ bs)"
      "mset (filter ?P (sys_hist s)) = mset (filter ?P (records_of bs))"
    using logger_inv_durable [OF inv] by (auto simp: durable_in_log_def)
  show ?thesis
  proof (cases "tl_failed (lg_backend ?lg)")
    case False
    then have d: "tl_pending_closed (lg_backend ?lg) \<le> lg_durable_epoch ?lg" using q by (simp add: IsQuiescent_def)
    have "r \<in> set (records_of bs)"
      if "r \<in> set (sys_hist s)" "lr_epoch r \<le> tl_pending_closed (lg_backend lg')" for r
      using that d mset_eq_setD [OF bs(2)] order_trans unfolding lg' by auto
    then show ?thesis using bs(1) lg' by auto
  qed (simp add: lg')
qed

theorem drained_flusher_wrote_everything_witness:
  "\<exists>s lg bs. (system_step (\<lambda>_. [7]))\<^sup>*\<^sup>* example_start s \<and> StopAndDrainFlusher (sys_logger s) = Some lg \<and>
     log_kept (\<lambda>_. [7]) (tl_wal (lg_backend lg)) ([] @ bs) \<and> example_record1 \<in> set (records_of bs)"
proof -
  obtain w where run: "(system_step (\<lambda>_. [7]))\<^sup>*\<^sup>* example_start
     \<lparr>sys_epoch = example_epoch True 3 [THREAD_OFFLINE] [Outside] WriterWaits,
      sys_logger = example_logged w FlusherWaits 1 [[]] [], sys_hist = [example_record1]\<rparr>"
    using example_flushed by blast
  let ?lg = "\<lambda>f. (example_logged w f 1 [[]] [])\<lparr>lg_backend :=
    (lg_backend (example_logged w f 1 [[]] []))\<lparr>tl_stop_requested := True\<rparr>\<rparr>"
  let ?s = "\<lambda>f. \<lparr>sys_epoch = example_epoch True 3 [THREAD_OFFLINE] [Outside] WriterWaits, sys_logger = ?lg f,
    sys_hist = [example_record1]\<rparr>"
  have "(system_step (\<lambda>_. [7]))\<^sup>*\<^sup>* example_start (?s FlusherWaits)"
    using system_then [OF run system_step.drain]
    by (simp add: alive_def example_logged_def example_epoch_def request_stop_def)
  from system_then_flusher [OF this _ _ flusher_step.wake]
  have s: "(system_step (\<lambda>_. [7]))\<^sup>*\<^sup>* example_start (?s FlusherReturned)"
    by (simp add: flusher_wake_def example_logged_def example_epoch_def set_flusher_def)
  have st: "StopAndDrainFlusher (?lg FlusherReturned) = Some (PublishStopped (?lg FlusherReturned))"
    by (simp add: StopAndDrainFlusher_def example_logged_def)
  have e: "lr_epoch example_record1 \<le> 1" by (simp add: write_set_record_def)
  show ?thesis
    using drained_flusher_wrote_everything [OF example_init s, of "PublishStopped (?lg FlusherReturned)"] st s e
    by (intro exI [of _ "?s FlusherReturned"] exI [of _ "PublishStopped (?lg FlusherReturned)"])
      (auto simp: PublishStopped_def example_logged_def)
qed

end
