(* ===== verification/RecoverySet.thy ===== *)
theory RecoverySet
  imports DataItems "HOL-Library.AList"
begin

text \<open>
  \<open>BuildRecoverySet\<close> of \<^verbatim>\<open>src/recovery/logger.cpp\<close>: the fold of decoded log records into the write set
  a restarted database replays. A \<open>std::unordered_map\<close> is the list of its entries in the order of their
  insertion; the iteration order the library may choose instead permutes the index entries of the
  result and nothing else.
\<close>

section \<open>The fold\<close>

type_synonym group_key = "bytes \<times> bytes \<times> u32 \<times> bytes"
type_synonym op_key = "group_key \<times> bytes"
type_synonym op_state = "TransactionId \<times> byte"

record recovery_fold =
  rf_secondary_latest :: "(op_key \<times> op_state) list"
  rf_recovery_set :: write_set
  rf_primary_position :: "bytes \<times> bytes \<Rightarrow> nat option"

definition recovery_fold_start :: recovery_fold where
  "recovery_fold_start = \<lparr>rf_secondary_latest = [], rf_recovery_set = [], rf_primary_position = (\<lambda>_. None)\<rparr>"

definition is_secondary_index :: "KeyValuePair \<Rightarrow> bool" where
  "is_secondary_index kvp \<longleftrightarrow>
     kv_index_name kvp \<noteq> [] \<or> kv_secondary_op kvp \<noteq> SecondaryIndexOp_code OpNone \<or>
     kv_primary_keys kvp \<noteq> [] \<or> kv_secondary_primary_key kvp \<noteq> [] \<or> kv_index_type kvp \<noteq> 0"

definition kvp_group :: "KeyValuePair \<Rightarrow> group_key" where
  "kvp_group kvp = (kv_table_name kvp, kv_index_name kvp, kv_index_type kvp, kv_key kvp)"

definition latest_update :: "(op_key \<times> op_state) list \<Rightarrow> op_key \<Rightarrow> op_state \<Rightarrow> (op_key \<times> op_state) list" where
  "latest_update m k st =
     (case map_of m k of
        Some st' \<Rightarrow> if TransactionId_less (fst st') (fst st) then AList.update k st m else m
      | None \<Rightarrow> AList.update k st m)"

definition fold_secondary :: "(op_key \<times> op_state) list \<Rightarrow> KeyValuePair \<Rightarrow> (op_key \<times> op_state) list" where
  "fold_secondary m kvp =
     (if kv_secondary_op kvp = SecondaryIndexOp_code OpFull
      then foldl (\<lambda>m pk. latest_update m (kvp_group kvp, pk) (kv_tid kvp, SecondaryIndexOp_code OpAdd))
             m (kv_primary_keys kvp)
      else if kv_secondary_primary_key kvp \<noteq> []
      then latest_update m (kvp_group kvp, kv_secondary_primary_key kvp) (kv_tid kvp, kv_secondary_op kvp)
      else m)"

definition fold_primary :: "recovery_fold \<Rightarrow> KeyValuePair \<Rightarrow> recovery_fold" where
  "fold_primary s kvp =
     (case rf_primary_position s (kv_table_name kvp, kv_key kvp) of
        Some i \<Rightarrow>
          (let item = rf_recovery_set s ! i
           in if TransactionId_less (di_transaction_id (sn_data_item_copy item)) (kv_tid kvp)
              then s\<lparr>rf_recovery_set := (rf_recovery_set s)[i :=
                       item\<lparr>sn_data_item_copy := DataItem_Reset (sn_data_item_copy item)
                              (if kv_buffer kvp = [] then None else Some (kv_buffer kvp)) (kv_tid kvp),
                            sn_table_name := kv_table_name kvp, sn_index_name := kv_index_name kvp,
                            sn_index_type := kv_index_type kvp\<rparr>]\<rparr>
              else s)
      | None \<Rightarrow>
          s\<lparr>rf_primary_position := (rf_primary_position s)
               ((kv_table_name kvp, kv_key kvp) \<mapsto> length (rf_recovery_set s)),
            rf_recovery_set := rf_recovery_set s @
               [Snapshot (kv_key kvp) (Some (kv_buffer kvp)) None (kv_table_name kvp)
                  (kv_index_name kvp) (kv_tid kvp) (kv_index_type kvp)]\<rparr>)"

definition fold_kvp :: "recovery_fold \<Rightarrow> KeyValuePair \<Rightarrow> recovery_fold" where
  "fold_kvp s kvp =
     (if is_secondary_index kvp
      then s\<lparr>rf_secondary_latest := fold_secondary (rf_secondary_latest s) kvp\<rparr>
      else fold_primary s kvp)"

definition kvps_of :: "LogRecords \<Rightarrow> KeyValuePair list" where
  "kvps_of rs = concat (map lr_key_value_pairs rs)"

type_synonym group_value = "TransactionId \<times> bytes list"

definition group_add :: "(group_key \<times> group_value) list \<Rightarrow> op_key \<times> op_state \<Rightarrow> (group_key \<times> group_value) list" where
  "group_add m e =
     (if snd (snd e) \<noteq> SecondaryIndexOp_code OpAdd then m
      else let entry = (case map_of m (fst (fst e)) of Some v \<Rightarrow> v | None \<Rightarrow> (TransactionId_default, []))
           in AList.update (fst (fst e))
                ((if TransactionId_less (fst entry) (fst (snd e)) then fst (snd e) else fst entry),
                 snd entry @ [snd (fst e)]) m)"

definition group_snapshot :: "group_key \<times> group_value \<Rightarrow> pk_error + snapshot" where
  "group_snapshot e =
     (case e of ((tn, idx, it, sk), (max_tid, pks)) \<Rightarrow>
        let s = Snapshot sk None None tn idx max_tid it
        in case SetPrimaryKeys (sn_data_item_copy s) (remdups_adj (sort pks)) of
             Inl err \<Rightarrow> Inl err
           | Inr d \<Rightarrow> Inr (s\<lparr>sn_data_item_copy := DataItem_Reset d None max_tid\<rparr>))"

fun group_snapshots :: "(group_key \<times> group_value) list \<Rightarrow> pk_error + write_set" where
  "group_snapshots [] = Inr []"
| "group_snapshots (e # es) =
     (if snd (snd e) = [] then group_snapshots es
      else case group_snapshot e of
             Inl err \<Rightarrow> Inl err
           | Inr s \<Rightarrow> (case group_snapshots es of Inl err \<Rightarrow> Inl err | Inr ss \<Rightarrow> Inr (s # ss)))"

definition BuildRecoverySet :: "LogRecords \<Rightarrow> LogRecords \<Rightarrow> pk_error + write_set" where
  "BuildRecoverySet im log_tail =
     (let s = foldl fold_kvp recovery_fold_start (kvps_of im @ kvps_of log_tail);
          grouped = foldl group_add [] (rf_secondary_latest s)
      in case group_snapshots grouped of
           Inl err \<Rightarrow> Inl err
         | Inr ss \<Rightarrow> Inr (rf_recovery_set s @ ss))"

section \<open>What the fold should give\<close>

text \<open>The newest of a sequence of versions: the first among those with the largest id.\<close>

definition newest :: "('a \<Rightarrow> TransactionId) \<Rightarrow> 'a list \<Rightarrow> 'a option" where
  "newest f xs = foldl (\<lambda>m x. case m of None \<Rightarrow> Some x | Some y \<Rightarrow> if f y < f x then Some x else Some y) None xs"

lemma newest_snoc:
  "newest f (xs @ [x]) = (case newest f xs of None \<Rightarrow> Some x | Some y \<Rightarrow> if f y < f x then Some x else Some y)"
  by (simp add: newest_def)

lemma newest_Nil [simp]: "newest f [] = None"
  by (simp add: newest_def)

lemma newest_None_iff [simp]: "newest f xs = None \<longleftrightarrow> xs = []"
  by (induction xs rule: rev_induct) (auto simp: newest_snoc split: option.splits)

lemma newest_Some:
  "newest f xs = Some x \<Longrightarrow> x \<in> set xs \<and> (\<forall>y\<in>set xs. f y \<le> f x)"
proof (induction xs arbitrary: x rule: rev_induct)
  case (snoc a xs)
  then show ?case
  proof (cases "newest f xs")
    case (Some y)
    then show ?thesis using snoc.IH [OF Some] snoc.prems
      by (auto simp: newest_snoc split: if_splits intro: order_trans)
  qed (auto simp: newest_snoc)
qed simp

lemma newest_unique:
  assumes "x \<in> set xs" "\<forall>y\<in>set xs. f y \<le> f x" "inj_on f (set xs)"
  shows "newest f xs = Some x"
proof -
  obtain z where z: "newest f xs = Some z" using assms(1) by (cases "newest f xs") auto
  then have "f z = f x" using newest_Some [OF z] assms by (force intro: antisym)
  then show ?thesis using z newest_Some [OF z] assms by (auto dest: inj_onD)
qed

lemma newest_perm:
  assumes "set xs = set ys" "inj_on f (set xs)"
  shows "newest f xs = newest f ys"
proof (cases "newest f ys")
  case (Some x)
  then show ?thesis using newest_Some [OF Some] newest_unique [of x xs f] assms by auto
qed (use assms in auto)

section \<open>The primary part\<close>

definition kvp_location :: "KeyValuePair \<Rightarrow> bytes \<times> bytes" where
  "kvp_location kvp = (kv_table_name kvp, kv_key kvp)"

definition row_location :: "snapshot \<Rightarrow> bytes \<times> bytes" where
  "row_location s = (sn_table_name s, sn_key s)"

definition primary_kvps :: "KeyValuePair list \<Rightarrow> KeyValuePair list" where
  "primary_kvps kvs = filter (\<lambda>kvp. \<not> is_secondary_index kvp) kvs"

definition versions_at :: "KeyValuePair list \<Rightarrow> bytes \<times> bytes \<Rightarrow> KeyValuePair list" where
  "versions_at kvs loc = filter (\<lambda>kvp. kvp_location kvp = loc) (primary_kvps kvs)"

text \<open>A recovered row holds the newest logged version of its location.\<close>

definition row_recovers :: "KeyValuePair list \<Rightarrow> snapshot \<Rightarrow> bool" where
  "row_recovers kvs s \<longleftrightarrow> sn_index_name s = [] \<and> sn_index_type s = 0 \<and> heap_ok (di_buffer (sn_data_item_copy s)) \<and>
     di_primary_keys (sn_data_item_copy s) = None \<and>
     (\<exists>kvp. newest kv_tid (versions_at kvs (row_location s)) = Some kvp \<and>
        di_transaction_id (sn_data_item_copy s) = kv_tid kvp \<and>
        toString (di_buffer (sn_data_item_copy s)) = kv_buffer kvp)"

definition primary_recovers :: "KeyValuePair list \<Rightarrow> write_set \<Rightarrow> bool" where
  "primary_recovers kvs rows \<longleftrightarrow>
     distinct (map row_location rows) \<and>
     set (map row_location rows) = set (map kvp_location (primary_kvps kvs)) \<and>
     list_all (row_recovers kvs) rows"

lemma versions_at_snoc:
  "versions_at (kvs @ [kvp]) loc =
     versions_at kvs loc @ (if \<not> is_secondary_index kvp \<and> kvp_location kvp = loc then [kvp] else [])"
  by (simp add: versions_at_def primary_kvps_def)

lemma DataItem_Reset_simps:
  "toString (di_buffer (DataItem_Reset d v tid)) = (case v of None \<Rightarrow> [] | Some b \<Rightarrow> b)"
  "di_primary_keys (DataItem_Reset d v tid) = di_primary_keys d"
  "di_transaction_id (DataItem_Reset d v tid) = (if IsEmpty tid then di_transaction_id d else tid)"
  "heap_ok (di_buffer d) \<Longrightarrow> heap_ok (di_buffer (DataItem_Reset d v tid))"
  by (simp_all add: DataItem_Reset_def Let_def)

lemma DataItem_default_simps [simp]:
  "di_transaction_id DataItem_default = TransactionId_default" "di_buffer DataItem_default = heap_empty"
  "di_primary_keys DataItem_default = None"
  by (simp_all add: DataItem_default_def)

lemma IsEmpty_default: "IsEmpty tid \<Longrightarrow> tid = TransactionId_default"
  by (cases tid) (simp add: IsEmpty_def TransactionId_default_def)

lemma not_IsEmpty_above: "(t :: TransactionId) < tid \<Longrightarrow> \<not> IsEmpty tid"
  by (cases t; cases tid) (auto simp: IsEmpty_def less_TransactionId_def TransactionId_less_def split: if_splits)

definition positions_ok :: "recovery_fold \<Rightarrow> bool" where
  "positions_ok s \<longleftrightarrow> (\<forall>loc i. rf_primary_position s loc = Some i \<longleftrightarrow>
     i < length (rf_recovery_set s) \<and> row_location (rf_recovery_set s ! i) = loc)"

lemma positions_Some:
  "positions_ok s \<Longrightarrow> rf_primary_position s loc = Some i \<Longrightarrow>
   i < length (rf_recovery_set s) \<and> row_location (rf_recovery_set s ! i) = loc"
  unfolding positions_ok_def by blast

lemma positions_None:
  "positions_ok s \<Longrightarrow>
   rf_primary_position s loc = None \<longleftrightarrow> loc \<notin> set (map row_location (rf_recovery_set s))"
  unfolding positions_ok_def in_set_conv_nth by (metis length_map not_None_eq nth_map)

lemma positions_distinct: "positions_ok s \<Longrightarrow> distinct (map row_location (rf_recovery_set s))"
  unfolding positions_ok_def distinct_conv_nth by (metis length_map nth_map option.inject)

lemma positions_snoc:
  assumes "positions_ok s" "rf_primary_position s (row_location row) = None"
  shows "positions_ok (s\<lparr>rf_primary_position := (rf_primary_position s)(row_location row \<mapsto> length (rf_recovery_set s)),
      rf_recovery_set := rf_recovery_set s @ [row]\<rparr>)"
proof -
  have p: "rf_primary_position s loc = Some i \<longleftrightarrow>
     i < length (rf_recovery_set s) \<and> row_location (rf_recovery_set s ! i) = loc" for loc i
    using assms(1) unfolding positions_ok_def by blast
  show ?thesis
    unfolding positions_ok_def
  proof (intro allI)
    fix loc i
    show "(rf_primary_position (s\<lparr>rf_primary_position := (rf_primary_position s)(row_location row \<mapsto> length (rf_recovery_set s)),
        rf_recovery_set := rf_recovery_set s @ [row]\<rparr>) loc = Some i) \<longleftrightarrow>
      i < length (rf_recovery_set (s\<lparr>rf_primary_position := (rf_primary_position s)(row_location row \<mapsto> length (rf_recovery_set s)),
        rf_recovery_set := rf_recovery_set s @ [row]\<rparr>)) \<and>
      row_location (rf_recovery_set (s\<lparr>rf_primary_position := (rf_primary_position s)(row_location row \<mapsto> length (rf_recovery_set s)),
        rf_recovery_set := rf_recovery_set s @ [row]\<rparr>) ! i) = loc"
      using assms(2) p [of loc i] p [of "row_location row" i]
      by (cases "i = length (rf_recovery_set s)") (auto simp: nth_append less_Suc_eq)
  qed
qed

lemma row_recovers_other:
  "row_recovers kvs s \<Longrightarrow> is_secondary_index kvp \<or> kvp_location kvp \<noteq> row_location s \<Longrightarrow>
   row_recovers (kvs @ [kvp]) s"
  by (auto simp: row_recovers_def versions_at_snoc)

lemma row_recovers_first:
  assumes "\<not> is_secondary_index kvp" "versions_at kvs (kvp_location kvp) = []"
  shows "row_recovers (kvs @ [kvp]) (Snapshot (kv_key kvp) (Some (kv_buffer kvp)) None (kv_table_name kvp)
    (kv_index_name kvp) (kv_tid kvp) (kv_index_type kvp))" (is "row_recovers _ ?new")
proof -
  have loc: "row_location ?new = kvp_location kvp"
    by (simp add: row_location_def kvp_location_def Snapshot_def)
  have "newest kv_tid (versions_at (kvs @ [kvp]) (row_location ?new)) = Some kvp"
    unfolding loc using assms by (simp add: versions_at_snoc newest_def)
  moreover have "di_transaction_id (sn_data_item_copy ?new) = kv_tid kvp"
    using IsEmpty_default [of "kv_tid kvp"] by (auto simp: Snapshot_def DataItem_Reset_simps)
  moreover have "toString (di_buffer (sn_data_item_copy ?new)) = kv_buffer kvp"
      "sn_index_name ?new = []" "sn_index_type ?new = 0" "di_primary_keys (sn_data_item_copy ?new) = None"
      "heap_ok (di_buffer (sn_data_item_copy ?new))"
    using assms(1) by (simp_all add: Snapshot_def DataItem_Reset_simps is_secondary_index_def)
  ultimately show ?thesis unfolding row_recovers_def by blast
qed

lemma fold_primary_new:
  assumes inv: "positions_ok s" "primary_recovers kvs (rf_recovery_set s)"
    and kvp: "\<not> is_secondary_index kvp" and none: "rf_primary_position s (kvp_location kvp) = None"
  shows "positions_ok (fold_primary s kvp) \<and> primary_recovers (kvs @ [kvp]) (rf_recovery_set (fold_primary s kvp))"
proof -
  define row where "row = Snapshot (kv_key kvp) (Some (kv_buffer kvp)) None (kv_table_name kvp) (kv_index_name kvp)
    (kv_tid kvp) (kv_index_type kvp)"
  have fp: "fold_primary s kvp = s\<lparr>rf_primary_position := (rf_primary_position s)(kvp_location kvp \<mapsto> length (rf_recovery_set s)),
      rf_recovery_set := rf_recovery_set s @ [row]\<rparr>"
    using none by (simp add: fold_primary_def kvp_location_def row_def)
  have loc: "row_location row = kvp_location kvp"
    by (simp add: row_location_def kvp_location_def Snapshot_def row_def)
  have fresh: "kvp_location kvp \<notin> set (map row_location (rf_recovery_set s))"
    using none positions_None [OF inv(1)] by simp
  then have "kvp_location kvp \<notin> kvp_location ` set (primary_kvps kvs)"
    using inv(2) by (simp add: primary_recovers_def)
  then have "versions_at kvs (kvp_location kvp) = []"
    unfolding versions_at_def filter_empty_conv by (metis imageI)
  then have "row_recovers (kvs @ [kvp]) row"
    unfolding row_def by (rule row_recovers_first [OF kvp])
  moreover have "row_recovers (kvs @ [kvp]) r" if "r \<in> set (rf_recovery_set s)" for r
    using that inv(2) fresh by (auto simp: primary_recovers_def list_all_iff intro!: row_recovers_other)
  ultimately have "primary_recovers (kvs @ [kvp]) (rf_recovery_set s @ [row])"
    using inv(2) kvp fresh loc by (auto simp: primary_recovers_def list_all_iff primary_kvps_def)
  moreover have "positions_ok (fold_primary s kvp)"
    unfolding fp using positions_snoc [OF inv(1)] none loc by metis
  ultimately show ?thesis by (simp add: fp)
qed

lemma fold_primary_old:
  assumes inv: "positions_ok s" "primary_recovers kvs (rf_recovery_set s)"
    and kvp: "\<not> is_secondary_index kvp" and pos: "rf_primary_position s (kvp_location kvp) = Some i"
  shows "positions_ok (fold_primary s kvp) \<and> primary_recovers (kvs @ [kvp]) (rf_recovery_set (fold_primary s kvp))"
proof -
  let ?rows = "rf_recovery_set s" and ?item = "rf_recovery_set s ! i"
  have i: "i < length ?rows" "row_location ?item = kvp_location kvp"
    using positions_Some [OF inv(1) pos] by simp_all
  define upd where "upd = (if TransactionId_less (di_transaction_id (sn_data_item_copy ?item)) (kv_tid kvp)
    then ?item\<lparr>sn_data_item_copy := DataItem_Reset (sn_data_item_copy ?item)
        (if kv_buffer kvp = [] then None else Some (kv_buffer kvp)) (kv_tid kvp),
      sn_table_name := kv_table_name kvp, sn_index_name := kv_index_name kvp,
      sn_index_type := kv_index_type kvp\<rparr> else ?item)"
  have fp: "fold_primary s kvp = s\<lparr>rf_recovery_set := ?rows[i := upd]\<rparr>"
    using pos by (simp add: fold_primary_def kvp_location_def upd_def Let_def)
  have loc: "row_location upd = row_location ?item"
    using i(2) by (auto simp: upd_def row_location_def kvp_location_def)
  have "row_recovers kvs ?item" using inv(2) i(1) by (simp add: primary_recovers_def list_all_length)
  then obtain old where old: "newest kv_tid (versions_at kvs (row_location ?item)) = Some old"
      "di_transaction_id (sn_data_item_copy ?item) = kv_tid old"
      "toString (di_buffer (sn_data_item_copy ?item)) = kv_buffer old" and rr: "row_recovers kvs ?item"
    by (auto simp: row_recovers_def)
  have u: "row_recovers (kvs @ [kvp]) upd"
    using old rr kvp i(2) not_IsEmpty_above [of "kv_tid old" "kv_tid kvp"] loc
    by (auto simp: row_recovers_def upd_def versions_at_snoc newest_snoc DataItem_Reset_simps is_secondary_index_def
        less_TransactionId_def)
  have "row_recovers (kvs @ [kvp]) (?rows[i := upd] ! j)" if "j < length ?rows" for j
  proof (cases "j = i")
    case False
    have "row_location (?rows ! j) \<noteq> row_location ?item"
      using nth_eq_iff_index_eq [OF positions_distinct [OF inv(1)], of j i] False that i(1) by simp
    moreover have "row_recovers kvs (?rows ! j)" using inv(2) that by (simp add: primary_recovers_def list_all_length)
    ultimately show ?thesis using False that i(2) by (auto intro: row_recovers_other)
  qed (use u i(1) in simp)
  moreover have locs: "map row_location (?rows[i := upd]) = map row_location ?rows"
    using loc i(1) by (metis list_update_id map_update nth_map)
  ultimately have "primary_recovers (kvs @ [kvp]) (?rows[i := upd])"
    using inv(2) i kvp unfolding primary_recovers_def locs
    by (auto simp: list_all_length primary_kvps_def in_set_conv_nth) (metis i imageI nth_mem)
  moreover have "positions_ok (s\<lparr>rf_recovery_set := ?rows[i := upd]\<rparr>)"
    using inv(1) i(1) unfolding positions_ok_def by (auto simp del: split_paired_All simp: nth_list_update loc)
  ultimately show ?thesis by (simp add: fp)
qed

lemma fold_kvp_simps:
  "is_secondary_index kvp \<Longrightarrow>
     fold_kvp s kvp = s\<lparr>rf_secondary_latest := fold_secondary (rf_secondary_latest s) kvp\<rparr>"
  "\<not> is_secondary_index kvp \<Longrightarrow> fold_kvp s kvp = fold_primary s kvp"
  by (simp_all add: fold_kvp_def)

lemma fold_kvps_primary:
  "positions_ok (foldl fold_kvp recovery_fold_start kvs) \<and>
   primary_recovers kvs (rf_recovery_set (foldl fold_kvp recovery_fold_start kvs))"
proof (induction kvs rule: rev_induct)
  case Nil
  show ?case by (simp add: recovery_fold_start_def positions_ok_def primary_recovers_def primary_kvps_def)
next
  case (snoc kvp kvs)
  let ?s = "foldl fold_kvp recovery_fold_start kvs"
  show ?case
  proof (cases "is_secondary_index kvp")
    case True
    then show ?thesis using snoc
      by (simp add: fold_kvp_simps positions_ok_def primary_recovers_def primary_kvps_def list_all_iff row_recovers_other)
  next
    case False
    then show ?thesis
      using snoc fold_primary_new [of ?s kvs kvp] fold_primary_old [of ?s kvs kvp]
      by (cases "rf_primary_position ?s (kvp_location kvp)") (simp_all add: fold_kvp_simps)
  qed
qed

section \<open>The secondary part\<close>

text \<open>The per-key operations that one pair contributes.\<close>

definition kvp_ops :: "KeyValuePair \<Rightarrow> (op_key \<times> op_state) list" where
  "kvp_ops kvp =
     (if \<not> is_secondary_index kvp then []
      else if kv_secondary_op kvp = SecondaryIndexOp_code OpFull
      then map (\<lambda>pk. ((kvp_group kvp, pk), (kv_tid kvp, SecondaryIndexOp_code OpAdd))) (kv_primary_keys kvp)
      else if kv_secondary_primary_key kvp \<noteq> []
      then [((kvp_group kvp, kv_secondary_primary_key kvp), (kv_tid kvp, kv_secondary_op kvp))]
      else [])"

definition ops_of :: "KeyValuePair list \<Rightarrow> (op_key \<times> op_state) list" where
  "ops_of kvs = concat (map kvp_ops kvs)"

text \<open>The newest operation on one primary key of one secondary key, and the primary keys a secondary key
  should hold.\<close>

definition latest_op :: "KeyValuePair list \<Rightarrow> op_key \<Rightarrow> op_state option" where
  "latest_op kvs k = newest fst (map snd (filter (\<lambda>u. fst u = k) (ops_of kvs)))"

definition posting :: "KeyValuePair list \<Rightarrow> group_key \<Rightarrow> bytes set" where
  "posting kvs g = {pk. \<exists>tid. latest_op kvs (g, pk) = Some (tid, SecondaryIndexOp_code OpAdd)}"

lemma fold_secondary_ops:
  "is_secondary_index kvp \<Longrightarrow>
   fold_secondary m kvp = foldl (\<lambda>m u. latest_update m (fst u) (snd u)) m (kvp_ops kvp)"
  by (auto simp: fold_secondary_def kvp_ops_def foldl_map)

lemma fold_kvps_secondary:
  "rf_secondary_latest (foldl fold_kvp recovery_fold_start kvs) =
   foldl (\<lambda>m u. latest_update m (fst u) (snd u)) [] (ops_of kvs)"
proof (induction kvs rule: rev_induct)
  case (snoc kvp kvs)
  have "rf_secondary_latest (fold_primary s kvp) = rf_secondary_latest s" for s
    by (simp add: fold_primary_def Let_def split: option.splits)
  then show ?case
    using snoc fold_secondary_ops [of kvp]
    by (cases "is_secondary_index kvp") (simp_all add: fold_kvp_simps ops_of_def kvp_ops_def)
qed (simp add: recovery_fold_start_def ops_of_def)

lemma latest_update_map:
  "map_of (latest_update m k st) =
     (map_of m)(k \<mapsto> (case map_of m k of None \<Rightarrow> st | Some st' \<Rightarrow> if fst st' < fst st then st else st'))"
  by (auto simp: latest_update_def update_conv' less_TransactionId_def fun_upd_idem split: option.splits)

lemma latest_update_distinct:
  "distinct (map fst m) \<Longrightarrow> distinct (map fst (latest_update m k st))"
  by (auto simp: latest_update_def distinct_update split: option.splits)

lemma latest_ops:
  "distinct (map fst (foldl (\<lambda>m u. latest_update m (fst u) (snd u)) [] us))"
  "map_of (foldl (\<lambda>m u. latest_update m (fst u) (snd u)) [] us) k =
     newest fst (map snd (filter (\<lambda>u. fst u = k) us))"
  by (induction us rule: rev_induct)
    (auto simp: latest_update_distinct latest_update_map newest_snoc split: option.splits)

lemma latest_op_fold:
  "map_of (rf_secondary_latest (foldl fold_kvp recovery_fold_start kvs)) k = latest_op kvs k"
  "distinct (map fst (rf_secondary_latest (foldl fold_kvp recovery_fold_start kvs)))"
  by (simp_all add: fold_kvps_secondary latest_ops latest_op_def)

text \<open>Grouping: the additions among distinct operations, by secondary key.\<close>

definition additions :: "(op_key \<times> op_state) list \<Rightarrow> group_key \<Rightarrow> (op_key \<times> op_state) list" where
  "additions m g = filter (\<lambda>e. fst (fst e) = g \<and> snd (snd e) = SecondaryIndexOp_code OpAdd) m"

definition max_tid :: "TransactionId list \<Rightarrow> TransactionId" where
  "max_tid ts = foldl (\<lambda>m t. if m < t then t else m) TransactionId_default ts"

lemma group_add_step:
  "map_of (group_add m e) =
     (if snd (snd e) \<noteq> SecondaryIndexOp_code OpAdd then map_of m
      else (map_of m)(fst (fst e) \<mapsto>
        (case map_of m (fst (fst e)) of
           None \<Rightarrow> (max_tid [fst (snd e)], [snd (fst e)])
         | Some v \<Rightarrow> (if fst v < fst (snd e) then fst (snd e) else fst v, snd v @ [snd (fst e)]))))"
  by (simp add: group_add_def Let_def update_conv' max_tid_def less_TransactionId_def split: option.splits)

lemma additions_snoc:
  "additions (m @ [e]) g = additions m g @
     (if fst (fst e) = g \<and> snd (snd e) = SecondaryIndexOp_code OpAdd then [e] else [])"
  by (simp add: additions_def)

lemma max_tid_snoc: "max_tid (ts @ [t]) = (if max_tid ts < t then t else max_tid ts)"
  by (simp add: max_tid_def)

lemma group_add_map:
  "map_of (foldl group_add [] m) g =
     (if additions m g = [] then None
      else Some (max_tid (map (fst \<circ> snd) (additions m g)), map (snd \<circ> fst) (additions m g)))"
proof (induction m arbitrary: g rule: rev_induct)
  case (snoc e m)
  show ?case
    unfolding foldl_append foldl.simps group_add_step snoc additions_snoc
    by (cases "additions m g = []") (auto simp: max_tid_snoc)
qed (simp add: additions_def)

lemma group_add_distinct: "distinct (map fst (foldl group_add [] m))"
  by (induction m rule: rev_induct) (auto simp: group_add_def Let_def distinct_update)

definition snapshot_group :: "snapshot \<Rightarrow> group_key" where
  "snapshot_group s = (sn_table_name s, sn_index_name s, sn_index_type s, sn_key s)"

text \<open>A recovered index entry holds the posting list of its secondary key, under the largest id that added
  one of its primary keys.\<close>

definition entry_recovers :: "KeyValuePair list \<Rightarrow> snapshot \<Rightarrow> bool" where
  "entry_recovers kvs s \<longleftrightarrow>
     packs (di_primary_keys (sn_data_item_copy s)) (posting kvs (snapshot_group s)) \<and>
     toString (di_buffer (sn_data_item_copy s)) = [] \<and>
     (\<forall>pk tid. latest_op kvs (snapshot_group s, pk) = Some (tid, SecondaryIndexOp_code OpAdd) \<longrightarrow>
        tid \<le> di_transaction_id (sn_data_item_copy s))"

definition secondary_recovers :: "KeyValuePair list \<Rightarrow> write_set \<Rightarrow> bool" where
  "secondary_recovers kvs entries \<longleftrightarrow>
     distinct (map snapshot_group entries) \<and>
     (\<forall>g. g \<in> set (map snapshot_group entries) \<longleftrightarrow> posting kvs g \<noteq> {}) \<and>
     list_all (entry_recovers kvs) entries"

lemma max_tid_ge: "t \<in> set ts \<Longrightarrow> t \<le> max_tid ts"
  by (induction ts rule: rev_induct) (auto simp: max_tid_snoc)

lemma remdups_adj_sort: "sorted_wrt (<) (remdups_adj (sort xs))" for xs :: "'a::linorder list"
proof -
  have "sorted ys \<Longrightarrow> distinct (remdups_adj ys)" for ys :: "'a list"
    by (induction ys rule: remdups_adj.induct) (auto simp: antisym)
  then show ?thesis by (simp add: strict_sorted_iff sorted_remdups_adj)
qed

lemma additions_posting:
  assumes "distinct (map fst m)" "\<And>k. map_of m k = latest_op kvs k"
  shows "set (map (snd \<circ> fst) (additions m g)) = posting kvs g"
    "latest_op kvs (g, pk) = Some (tid, SecondaryIndexOp_code OpAdd) \<Longrightarrow>
       tid \<in> set (map (fst \<circ> snd) (additions m g))"
proof -
  have mem: "((g, pk), (tid, op)) \<in> set m \<longleftrightarrow> latest_op kvs (g, pk) = Some (tid, op)" for pk tid op
    using map_of_eq_Some_iff [OF assms(1)] assms(2) by simp
  have add: "e \<in> set (additions m g) \<longleftrightarrow> (\<exists>pk tid. e = ((g, pk), (tid, SecondaryIndexOp_code OpAdd)) \<and>
      latest_op kvs (g, pk) = Some (tid, SecondaryIndexOp_code OpAdd))" for e
    by (cases e) (auto simp: additions_def mem [symmetric])
  show "set (map (snd \<circ> fst) (additions m g)) = posting kvs g"
    by (force simp: posting_def add image_iff)
  show "latest_op kvs (g, pk) = Some (tid, SecondaryIndexOp_code OpAdd) \<Longrightarrow>
      tid \<in> set (map (fst \<circ> snd) (additions m g))"
    by (force simp: add image_iff)
qed

lemma group_snapshot_result:
  assumes "snd (snd e) \<noteq> []"
  shows "case group_snapshot e of
      Inl err \<Rightarrow> err = LengthError \<and> uint32_max < packed_size (set (snd (snd e)))
    | Inr s \<Rightarrow> snapshot_group s = fst e \<and> packs (di_primary_keys (sn_data_item_copy s)) (set (snd (snd e))) \<and>
        toString (di_buffer (sn_data_item_copy s)) = [] \<and>
        di_transaction_id (sn_data_item_copy s) = fst (snd e)"
proof -
  obtain tn idx it sk t pks where e: "e = ((tn, idx, it, sk), (t, pks))" by (cases e) auto
  have ne: "set pks \<noteq> {}" using assms e by auto
  have k: "FromSortedDeduped (remdups_adj (sort pks)) =
      (if packed_size (set pks) \<le> uint32_max then Inr (Some (pack_set (set pks))) else Inl LengthError)"
    using FromSortedDeduped_canonical [OF remdups_adj_sort [of pks]] by simp
  show ?thesis
    using ne IsEmpty_default [of t]
    by (auto simp: e group_snapshot_def SetPrimaryKeys_def IsSortedDeduped_iff remdups_adj_sort k Let_def
        Snapshot_def snapshot_group_def DataItem_Reset_simps packs_def)
qed

lemma group_snapshots_result:
  assumes "\<forall>e\<in>set es. snd (snd e) \<noteq> []"
  shows "case group_snapshots es of
      Inl err \<Rightarrow> err = LengthError \<and> (\<exists>e\<in>set es. uint32_max < packed_size (set (snd (snd e))))
    | Inr ss \<Rightarrow> list_all2 (\<lambda>e s. snapshot_group s = fst e \<and>
        packs (di_primary_keys (sn_data_item_copy s)) (set (snd (snd e))) \<and>
        toString (di_buffer (sn_data_item_copy s)) = [] \<and>
        di_transaction_id (sn_data_item_copy s) = fst (snd e)) es ss"
  using assms
proof (induction es)
  case (Cons e es)
  then show ?case using group_snapshot_result [of e] by (auto split: sum.splits)
qed simp

lemma grouped_entry:
  assumes "(g, t, pks) \<in> set (foldl group_add [] (rf_secondary_latest (foldl fold_kvp recovery_fold_start kvs)))"
  shows "set pks = posting kvs g" "pks \<noteq> []"
    "latest_op kvs (g, pk) = Some (tid, SecondaryIndexOp_code OpAdd) \<Longrightarrow> tid \<le> t"
proof -
  let ?m = "rf_secondary_latest (foldl fold_kvp recovery_fold_start kvs)"
  note m = additions_posting [OF latest_op_fold(2) latest_op_fold(1)]
  have "map_of (foldl group_add [] ?m) g = Some (t, pks)"
    using map_of_is_SomeI [OF group_add_distinct assms] by simp
  then have t: "additions ?m g \<noteq> []" "t = max_tid (map (fst \<circ> snd) (additions ?m g))"
      and pks: "pks = map (snd \<circ> fst) (additions ?m g)"
    unfolding group_add_map by (auto split: if_splits)
  show "set pks = posting kvs g" unfolding pks by (rule m(1))
  show "pks \<noteq> []" using t(1) pks by simp
  show "tid \<le> t" if "latest_op kvs (g, pk) = Some (tid, SecondaryIndexOp_code OpAdd)"
    unfolding t(2) by (rule max_tid_ge) (rule m(2) [OF that])
qed

lemma grouped_groups:
  "g \<in> fst ` set (foldl group_add [] (rf_secondary_latest (foldl fold_kvp recovery_fold_start kvs))) \<longleftrightarrow>
   posting kvs g \<noteq> {}"
proof -
  let ?m = "rf_secondary_latest (foldl fold_kvp recovery_fold_start kvs)"
  have "g \<in> fst ` set (foldl group_add [] ?m) \<longleftrightarrow> map_of (foldl group_add [] ?m) g \<noteq> None"
    by (simp add: map_of_eq_None_iff)
  also have "\<dots> \<longleftrightarrow> additions ?m g \<noteq> []" unfolding group_add_map by simp
  also have "\<dots> \<longleftrightarrow> posting kvs g \<noteq> {}"
    unfolding additions_posting(1) [OF latest_op_fold(2) latest_op_fold(1), symmetric] by simp
  finally show ?thesis .
qed

lemma list_all2_in_right: "list_all2 P xs ys \<Longrightarrow> y \<in> set ys \<Longrightarrow> \<exists>x\<in>set xs. P x y"
  by (induction rule: list_all2_induct) auto

lemma group_snapshots_recover:
  assumes "group_snapshots (foldl group_add [] (rf_secondary_latest (foldl fold_kvp recovery_fold_start kvs))) = r"
  shows "case r of
      Inl err \<Rightarrow> err = LengthError \<and> (\<exists>g. uint32_max < packed_size (posting kvs g))
    | Inr ss \<Rightarrow> secondary_recovers kvs ss"
proof -
  let ?es = "foldl group_add [] (rf_secondary_latest (foldl fold_kvp recovery_fold_start kvs))"
  have ne: "\<forall>e\<in>set ?es. snd (snd e) \<noteq> []"
    using grouped_entry(2) [of _ _ _ kvs] by (metis prod.collapse)
  note res = group_snapshots_result [OF ne, unfolded assms]
  show ?thesis
  proof (cases r)
    case (Inl err)
    then show ?thesis using res grouped_entry(1) [of _ _ _ kvs] by (auto simp: Bex_def) metis
  next
    case (Inr ss)
    let ?rel = "\<lambda>e s. snapshot_group s = fst e \<and>
        packs (di_primary_keys (sn_data_item_copy s)) (set (snd (snd e))) \<and>
        toString (di_buffer (sn_data_item_copy s)) = [] \<and>
        di_transaction_id (sn_data_item_copy s) = fst (snd e)"
    have r: "list_all2 ?rel ?es ss" using res Inr by simp
    then have fst: "map snapshot_group ss = map fst ?es"
      by (auto simp: list_all2_conv_all_nth intro: nth_equalityI)
    have "entry_recovers kvs s" if "s \<in> set ss" for s
    proof -
      obtain e where "e \<in> set ?es" "?rel e s"
        using list_all2_in_right [OF r \<open>s \<in> set ss\<close>] by blast
      then show ?thesis
        using grouped_entry [of "fst e" "fst (snd e)" "snd (snd e)" kvs] by (auto simp: entry_recovers_def)
    qed
    then show ?thesis
      using Inr group_add_distinct grouped_groups [of _ kvs]
      by (auto simp: secondary_recovers_def fst list_all_iff simp flip: set_map)
  qed
qed


section \<open>A checkpoint image replaces the log below it\<close>

text \<open>The rows a recovery set makes visible: the nonempty payload of the row at a location.\<close>

definition live_row :: "write_set \<Rightarrow> bytes \<times> bytes \<Rightarrow> bytes option" where
  "live_row ws loc =
     (case find (\<lambda>s. sn_index_name s = [] \<and> sn_index_type s = 0 \<and> di_primary_keys (sn_data_item_copy s) = None \<and>
                     row_location s = loc) ws of
        None \<Rightarrow> None
      | Some s \<Rightarrow> let v = toString (di_buffer (sn_data_item_copy s)) in if v = [] then None else Some v)"

definition logged_row :: "KeyValuePair list \<Rightarrow> bytes \<times> bytes \<Rightarrow> bytes option" where
  "logged_row kvs loc =
     (case newest kv_tid (versions_at kvs loc) of
        None \<Rightarrow> None
      | Some kvp \<Rightarrow> if kv_buffer kvp = [] then None else Some (kv_buffer kvp))"

lemma find_append_None: "find P ys = None \<Longrightarrow> find P (xs @ ys) = find P xs"
  by (induction xs) auto

lemma live_row_recovered:
  assumes "BuildRecoverySet im log_tail = Inr ws"
  shows "live_row ws loc = logged_row (kvps_of im @ kvps_of log_tail) loc"
proof -
  let ?kvs = "kvps_of im @ kvps_of log_tail"
  obtain rows entries where ws: "ws = rows @ entries"
      and rows: "primary_recovers ?kvs rows" and entries: "secondary_recovers ?kvs entries"
    using fold_kvps_primary [of ?kvs] group_snapshots_recover [of ?kvs, OF refl] assms
    unfolding BuildRecoverySet_def Let_def by (auto split: sum.splits)
  let ?P = "\<lambda>s. sn_index_name s = [] \<and> sn_index_type s = 0 \<and> di_primary_keys (sn_data_item_copy s) = None \<and>
    row_location s = loc"
  have "di_primary_keys (sn_data_item_copy s) \<noteq> None" if s: "s \<in> set entries" for s
  proof -
    have "posting ?kvs (snapshot_group s) \<noteq> {}"
      using entries imageI [OF s, of snapshot_group] unfolding secondary_recovers_def set_map by blast
    moreover have "entry_recovers ?kvs s"
      using entries s by (simp add: secondary_recovers_def list_all_iff)
    ultimately show ?thesis by (auto simp: entry_recovers_def packs_def)
  qed
  then have "find ?P entries = None" by (auto simp: find_None_iff)
  then have f: "find ?P ws = find ?P rows" unfolding ws by (rule find_append_None)
  have r: "row_recovers ?kvs s" if "s \<in> set rows" for s
    using rows that by (simp add: primary_recovers_def list_all_iff)
  then have P: "?P s \<longleftrightarrow> row_location s = loc" if "s \<in> set rows" for s
    using that by (auto simp: row_recovers_def)
  show ?thesis
  proof (cases "find ?P rows")
    case None
    then have "loc \<notin> set (map row_location rows)"
      using P unfolding find_None_iff set_map by blast
    then have "versions_at ?kvs loc = []"
      using rows unfolding primary_recovers_def versions_at_def filter_empty_conv by auto
    then show ?thesis using None f by (simp add: live_row_def logged_row_def)
  next
    case (Some s)
    then have "s \<in> set rows" "row_location s = loc" by (auto simp: find_Some_iff)
    then obtain kvp where "newest kv_tid (versions_at ?kvs loc) = Some kvp"
        "toString (di_buffer (sn_data_item_copy s)) = kv_buffer kvp"
      using r [of s] by (auto simp: row_recovers_def)
    then show ?thesis using Some f by (simp add: live_row_def logged_row_def Let_def)
  qed
qed

text \<open>An image stands for the records below a checkpoint when each of its rows is a logged version and no
  older than the newest version below the checkpoint, and it leaves out a location only if that newest
  version is a deletion or the tail has a version of the location. Its rows may be newer: the scan runs beside the transactions that the tail logs.
  The tail holds no version older than one below the checkpoint.\<close>

definition same_row :: "KeyValuePair \<Rightarrow> KeyValuePair \<Rightarrow> bool" where
  "same_row a b \<longleftrightarrow> kv_tid a = kv_tid b \<and> kv_buffer a = kv_buffer b"

definition image_covers :: "KeyValuePair list \<Rightarrow> KeyValuePair list \<Rightarrow> KeyValuePair list \<Rightarrow> bool" where
  "image_covers im old log_tail \<longleftrightarrow>
     (\<forall>loc.
        (\<forall>a\<in>set (versions_at im loc). \<exists>b\<in>set (versions_at (old @ log_tail) loc). same_row a b) \<and>
        (case newest kv_tid (versions_at old loc) of
           None \<Rightarrow> True
         | Some b \<Rightarrow> (kv_buffer b = [] \<or> versions_at log_tail loc \<noteq> []) \<and> versions_at im loc = [] \<or>
             (\<exists>a\<in>set (versions_at im loc). kv_tid b \<le> kv_tid a)) \<and>
        (\<forall>a\<in>set (versions_at old loc). \<forall>b\<in>set (versions_at log_tail loc). kv_tid a \<le> kv_tid b))"

lemma image_coversD:
  assumes "image_covers im old log_tail"
  shows "a \<in> set (versions_at im loc) \<Longrightarrow> \<exists>b\<in>set (versions_at (old @ log_tail) loc). same_row a b"
    "newest kv_tid (versions_at old loc) = Some b \<Longrightarrow> (kv_buffer b = [] \<or> versions_at log_tail loc \<noteq> []) \<and> versions_at im loc = [] \<or>
       (\<exists>a\<in>set (versions_at im loc). kv_tid b \<le> kv_tid a)"
    "a \<in> set (versions_at old loc) \<Longrightarrow> b \<in> set (versions_at log_tail loc) \<Longrightarrow> kv_tid a \<le> kv_tid b"
  using assms [unfolded image_covers_def, rule_format, of loc] by auto

text \<open>Two logged versions of a location under one id carry one payload.\<close>

definition ids_unique :: "KeyValuePair list \<Rightarrow> bool" where
  "ids_unique kvs \<longleftrightarrow> (\<forall>loc. \<forall>a\<in>set (versions_at kvs loc). \<forall>b\<in>set (versions_at kvs loc).
     kv_tid a = kv_tid b \<longrightarrow> kv_buffer a = kv_buffer b)"

lemma ids_uniqueD:
  "ids_unique kvs \<Longrightarrow> a \<in> set (versions_at kvs loc) \<Longrightarrow> b \<in> set (versions_at kvs loc) \<Longrightarrow>
   kv_tid a = kv_tid b \<Longrightarrow> kv_buffer a = kv_buffer b"
  unfolding ids_unique_def by blast

lemma versions_at_append: "versions_at (xs @ ys) loc = versions_at xs loc @ versions_at ys loc"
  by (simp add: versions_at_def primary_kvps_def)

lemma logged_row_newest:
  assumes "a \<in> set (versions_at kvs loc)" "\<forall>b\<in>set (versions_at kvs loc). kv_tid b \<le> kv_tid a"
    and "\<forall>b\<in>set (versions_at kvs loc). kv_tid b = kv_tid a \<longrightarrow> kv_buffer b = kv_buffer a"
  shows "logged_row kvs loc = (if kv_buffer a = [] then None else Some (kv_buffer a))"
proof (cases "newest kv_tid (versions_at kvs loc)")
  case (Some b)
  then have "kv_tid b = kv_tid a" "b \<in> set (versions_at kvs loc)"
    using newest_Some [OF Some] assms by (auto intro: antisym)
  then show ?thesis using Some assms(3) by (simp add: logged_row_def)
qed (use assms(1) in auto)

lemma image_covers_row:
  assumes cov: "image_covers im old log_tail" and ids: "ids_unique (old @ log_tail)"
  shows "logged_row (im @ log_tail) loc = logged_row (old @ log_tail) loc"
proof (cases "newest kv_tid (versions_at (old @ log_tail) loc)")
  case None
  then have "versions_at (old @ log_tail) loc = []" by simp
  moreover from this have "versions_at im loc = []"
    using image_coversD(1) [OF cov, of _ loc] by (cases "versions_at im loc") auto
  ultimately show ?thesis by (simp add: logged_row_def versions_at_append)
next
  case (Some b)
  note b = newest_Some [OF Some]
  have im: "\<exists>c\<in>set (versions_at (old @ log_tail) loc). same_row a c" if "a \<in> set (versions_at im loc)" for a
    using image_coversD(1) [OF cov that] .
  have le: "kv_tid a \<le> kv_tid b" and eq: "kv_tid a = kv_tid b \<longrightarrow> kv_buffer a = kv_buffer b"
    if a: "a \<in> set (versions_at (im @ log_tail) loc)" for a
  proof -
    obtain c where "c \<in> set (versions_at (old @ log_tail) loc)" "same_row a c"
      using im a by (cases "a \<in> set (versions_at im loc)") (auto simp: versions_at_append same_row_def)
    then show "kv_tid a \<le> kv_tid b" "kv_tid a = kv_tid b \<longrightarrow> kv_buffer a = kv_buffer b"
      using b ids_uniqueD [OF ids, of c loc b] by (auto simp: same_row_def)
  qed
  have old: "logged_row (old @ log_tail) loc = (if kv_buffer b = [] then None else Some (kv_buffer b))"
    using Some by (simp add: logged_row_def)
  show ?thesis
  proof (cases "\<exists>a\<in>set (versions_at (im @ log_tail) loc). kv_tid b \<le> kv_tid a")
    case True
    then obtain a where a: "a \<in> set (versions_at (im @ log_tail) loc)" "kv_tid a = kv_tid b" "kv_buffer a = kv_buffer b"
      using le eq by (metis antisym)
    have "logged_row (im @ log_tail) loc = (if kv_buffer a = [] then None else Some (kv_buffer a))"
      using logged_row_newest [OF a(1)] le eq a by auto
    then show ?thesis using old a by simp
  next
    case False
    then have "b \<in> set (versions_at old loc)" using b by (auto simp: versions_at_append)
    from this obtain o' where o': "newest kv_tid (versions_at old loc) = Some o'"
      by (cases "newest kv_tid (versions_at old loc)") auto
    then have "kv_tid o' = kv_tid b" "o' \<in> set (versions_at (old @ log_tail) loc)"
      using newest_Some [OF o'] b \<open>b \<in> set (versions_at old loc)\<close> by (auto simp: versions_at_append intro: antisym)
    then have "kv_buffer o' = kv_buffer b" using b ids_uniqueD [OF ids, of o' loc b] by simp
    moreover have "versions_at log_tail loc = []"
      using False image_coversD(3) [OF cov \<open>b \<in> set (versions_at old loc)\<close>]
      by (cases "versions_at log_tail loc") (auto simp: versions_at_append)
    ultimately show ?thesis
      using False image_coversD(2) [OF cov o'] old \<open>kv_tid o' = kv_tid b\<close>
      by (auto simp: versions_at_append logged_row_def)
  qed
qed

text \<open>C17. Recovery from a checkpoint gives the rows that recovery from the whole log gives: when the image
  covers the records below the checkpoint, both replays, when they succeed, make the same rows visible.\<close>

theorem checkpoint_replay_equivalent:
  assumes "image_covers (kvps_of im) (kvps_of old) (kvps_of log_tail)" "ids_unique (kvps_of old @ kvps_of log_tail)"
    and "BuildRecoverySet im log_tail = Inr ws" "BuildRecoverySet [] (old @ log_tail) = Inr ws'"
  shows "live_row ws loc = live_row ws' loc"
proof -
  have "kvps_of [] @ kvps_of (old @ log_tail) = kvps_of old @ kvps_of log_tail" by (simp add: kvps_of_def)
  then show ?thesis
    using live_row_recovered [OF assms(3)] live_row_recovered [OF assms(4)] image_covers_row [OF assms(1,2)]
    by simp
qed

theorem checkpoint_replay_equivalent_witness:
  "let row = (\<lambda>v t. \<lparr>kv_key = [1], kv_buffer = v, kv_tid = TransactionId t 1, kv_table_name = [7], kv_index_name = [],
         kv_index_type = 0, kv_primary_keys = [], kv_secondary_op = 0, kv_secondary_primary_key = []\<rparr>);
       rec = (\<lambda>t v. \<lparr>lr_epoch = t, lr_key_value_pairs = [row v t]\<rparr>)
   in \<exists>ws ws'. BuildRecoverySet [rec 2 [6]] [rec 3 [9]] = Inr ws \<and>
        BuildRecoverySet [] ([rec 1 [5], rec 2 [6]] @ [rec 3 [9]]) = Inr ws' \<and>
        live_row ws ([7], [1]) = live_row ws' ([7], [1])"
proof -
  define row where "row = (\<lambda>v t. \<lparr>kv_key = [1], kv_buffer = v, kv_tid = TransactionId t 1, kv_table_name = [7],
    kv_index_name = [], kv_index_type = 0, kv_primary_keys = [], kv_secondary_op = 0, kv_secondary_primary_key = []\<rparr>)"
  define rec where "rec = (\<lambda>t v. \<lparr>lr_epoch = t, lr_key_value_pairs = [row v t]\<rparr>)"
  have v: "\<not> is_secondary_index (row v t)" "kvp_location (row v t) = ([7], [1])" "kv_tid (row v t) = TransactionId t 1"
      "kv_buffer (row v t) = v" "kvp_group (row v t) = ([7], [], 0, [1])" "kvps_of [] = []"
      "kvps_of (rec t v # rs) = row v t # kvps_of rs" for v t rs
    by (simp_all add: row_def is_secondary_index_def kvp_location_def SecondaryIndexOp_code_def kvp_group_def rec_def kvps_of_def)
  have vs: "versions_at [] loc = []"
    "versions_at (row v t # ks) loc = (if loc = ([7], [1]) then [row v t] else []) @ versions_at ks loc" for v t ks loc
    by (auto simp: versions_at_def primary_kvps_def v)
  have ok: "\<exists>ws. BuildRecoverySet im tl = Inr ws"
    if "\<forall>kvp\<in>set (kvps_of im @ kvps_of tl). \<not> is_secondary_index kvp" for im tl
  proof -
    have "ops_of (kvps_of im @ kvps_of tl) = []" using that by (auto simp: ops_of_def kvp_ops_def)
    then show ?thesis unfolding BuildRecoverySet_def Let_def fold_kvps_secondary by simp
  qed
  obtain ws where a: "BuildRecoverySet [rec 2 [6]] [rec 3 [9]] = Inr ws"
    using ok [of "[rec 2 [6]]" "[rec 3 [9]]"] by (auto simp: v)
  obtain ws' where b: "BuildRecoverySet [] ([rec 1 [5], rec 2 [6]] @ [rec 3 [9]]) = Inr ws'"
    using ok [of "[]" "[rec 1 [5], rec 2 [6]] @ [rec 3 [9]]"] by (auto simp: v)
  have "image_covers (kvps_of [rec 2 [6]]) (kvps_of [rec 1 [5], rec 2 [6]]) (kvps_of [rec 3 [9]])"
    by (auto simp: image_covers_def v vs newest_def same_row_def less_TransactionId_def less_eq_TransactionId_def
        TransactionId_less_def split: option.splits if_splits)
  moreover have "ids_unique (kvps_of [rec 1 [5], rec 2 [6]] @ kvps_of [rec 3 [9]])"
    by (auto simp: ids_unique_def v vs)
  ultimately show ?thesis
    using checkpoint_replay_equivalent [OF _ _ a b] a b unfolding Let_def rec_def row_def by blast
qed

end
