(* ===== verification/CheckpointImage.thy ===== *)
theory CheckpointImage
  imports Loggers
begin

text \<open>
  The checkpoint image of \<^verbatim>\<open>src/recovery/epoch_scan_checkpoint.cpp\<close>: its file format, \<open>Publish\<close>, which
  writes a working file and renames it over the image, and \<open>Load\<close>, which refuses every file it cannot
  trust. The working directory is the content of its two files. The calls that open, unlink, rename and
  open the directory answer from one script in the order they are made; an interrupted \<open>Publish\<close> is a
  script in which the next call and the unlink after it fail. Wall-clock times are left out.
\<close>

section \<open>Format\<close>

definition image_kMagic :: u32 where
  "image_kMagic = 0x504b434c"

definition image_kVersion :: u16 where
  "image_kVersion = 2"

definition image_kFlags :: u16 where
  "image_kFlags = 0"

definition image_kHeaderSize :: nat where
  "image_kHeaderSize = 56"

record ckpt_stats =
  st_generation :: u64
  st_cut_epoch :: epoch_number
  st_end_epoch :: epoch_number
  st_wal_frontier_at_publish :: epoch_number
  st_primary_rows :: u64
  st_secondary_entries :: u64
  st_image_bytes :: u64
  st_retries :: u64

text \<open>The header without its last field, the checksum of that and the payload, and the file.\<close>

definition image_fields :: "ckpt_stats \<Rightarrow> u64 \<Rightarrow> bytes" where
  "image_fields st psize =
     PutLe32 image_kMagic @ PutLe16 image_kVersion @ PutLe16 image_kFlags @ PutLe64 (st_generation st) @
     PutLe32 (st_cut_epoch st) @ PutLe32 (st_end_epoch st) @ PutLe32 (st_wal_frontier_at_publish st) @
     PutLe64 (st_primary_rows st) @ PutLe64 (st_secondary_entries st) @ PutLe64 psize"

definition image_crc :: "bytes \<Rightarrow> bytes \<Rightarrow> u32" where
  "image_crc header payload =
     Crc32c_Finish (Crc32c_Update (Crc32c_Update Crc32c_init (take (image_kHeaderSize - 4) header)) payload)"

definition image_header :: "ckpt_stats \<Rightarrow> bytes \<Rightarrow> bytes" where
  "image_header st payload =
     (let h = image_fields st (of_nat (length payload)) in h @ PutLe32 (image_crc h payload))"

section \<open>Transfer loops\<close>

text \<open>\<open>WriteAll\<close> appends at the descriptor's position, which is the end of the truncated working file.\<close>

function WriteAll :: "io_script \<Rightarrow> bytes \<Rightarrow> bytes \<Rightarrow> bool \<times> bytes \<times> io_script" where
  "WriteAll s f data =
     (if data = [] then (True, f, s)
      else case next_outcome s (length data) of
             (Transferred written, s') \<Rightarrow>
               if written > 0 then WriteAll s' (f @ take written data) (drop written data)
               else (False, f, s')
           | (FailedWith e, s') \<Rightarrow> if e = EINTR then WriteAll s' f data else (False, f, s'))"
  by pat_completeness auto
termination
proof (relation "measure (\<lambda>(s, _, data). length s + length data)", goal_cases)
  case (2 s f data x s' written)
  then have "length s' \<le> length s" using next_outcome_bounds(1) by metis
  then show ?case using 2 by (cases data) auto
next
  case (3 s f data x s' e)
  then have "length s' < length s" using next_outcome_bounds(2) by metis
  then show ?case by simp
qed simp

function ReadAll :: "io_script \<Rightarrow> bytes \<Rightarrow> nat \<Rightarrow> nat \<Rightarrow> bytes option \<times> io_script" where
  "ReadAll s f sz off =
     (if sz = 0 then (Some [], s)
      else case next_outcome s (min sz (length f - off)) of
             (Transferred got, s') \<Rightarrow>
               if got > 0
               then (case ReadAll s' f (sz - got) (off + got) of
                       (None, s'') \<Rightarrow> (None, s'')
                     | (Some rest, s'') \<Rightarrow> (Some (take got (drop off f) @ rest), s''))
               else (None, s')
           | (FailedWith e, s') \<Rightarrow> if e = EINTR then ReadAll s' f sz off else (None, s'))"
  by pat_completeness auto
termination
proof (relation "measure (\<lambda>(s, _, sz, _). length s + sz)", goal_cases)
  case (2 s f sz off x s' got)
  then have "length s' \<le> length s" using next_outcome_bounds(1) by metis
  then show ?case using 2 by simp
next
  case (3 s f sz off x s' e)
  then have "length s' < length s" using next_outcome_bounds(2) by metis
  then show ?case by simp
qed simp

declare WriteAll.simps [simp del] ReadAll.simps [simp del]

section \<open>Publishing\<close>

record image_io =
  ii_calls :: io_script
  ii_write :: io_script
  ii_fsync :: io_script
  ii_fstat :: io_script
  ii_pread :: io_script

record image_dir =
  id_image :: "bytes option"
  id_working :: "bytes option"

definition unlink_working :: "image_io \<Rightarrow> image_dir \<Rightarrow> image_io \<times> image_dir" where
  "unlink_working io d =
     (case sys_call (ii_calls io) of
        (None, s) \<Rightarrow> (io\<lparr>ii_calls := s\<rparr>, d\<lparr>id_working := None\<rparr>)
      | (Some _, s) \<Rightarrow> (io\<lparr>ii_calls := s\<rparr>, d))"

text \<open>The header, the payload and the sync of the working file, each only after the one before it.\<close>

definition write_working :: "image_io \<Rightarrow> bytes \<Rightarrow> bytes \<Rightarrow> bool \<times> bytes \<times> image_io" where
  "write_working io header payload =
     (case WriteAll (ii_write io) [] header of
        (False, f, s) \<Rightarrow> (False, f, io\<lparr>ii_write := s\<rparr>)
      | (True, f, s) \<Rightarrow>
     (case WriteAll s f payload of
        (False, f', s') \<Rightarrow> (False, f', io\<lparr>ii_write := s'\<rparr>)
      | (True, f', s') \<Rightarrow>
     (case FsyncRetryingOnInterrupt (ii_fsync io) of
        (r, fs) \<Rightarrow> (r = None, f', io\<lparr>ii_write := s', ii_fsync := fs\<rparr>))))"

text \<open>\<open>lg\<close> is the logger as the wait for durability finds it when it returns, at the deadline at the
  latest.\<close>

definition Publish ::
  "(LogRecords \<Rightarrow> bytes) \<Rightarrow> bool \<Rightarrow> logger \<Rightarrow> LogRecords \<Rightarrow> ckpt_stats \<Rightarrow> image_io \<Rightarrow> image_dir \<Rightarrow>
   bool \<times> ckpt_stats \<times> image_io \<times> image_dir" where
  "Publish pack enable_logging lg records st io d =
     (let payload = pack records
      in if enable_logging \<and> WaitUntilDurable lg (st_end_epoch st) True \<noteq> Some WaitDurable
         then (case unlink_working io d of (io', d') \<Rightarrow> (False, st, io', d'))
         else
     (let st1 = (if enable_logging then st\<lparr>st_wal_frontier_at_publish := w_frontier (tl_wal (lg_backend lg))\<rparr> else st);
          header = image_header st1 payload;
          st2 = st1\<lparr>st_image_bytes := of_nat (image_kHeaderSize + length payload)\<rparr>
      in case sys_call (ii_calls io) of
           (Some _, s) \<Rightarrow> (False, st2, io\<lparr>ii_calls := s\<rparr>, d)
         | (None, s) \<Rightarrow>
     (case write_working (io\<lparr>ii_calls := s\<rparr>) header payload of
        (False, f, io1) \<Rightarrow>
          (case unlink_working io1 (d\<lparr>id_working := Some f\<rparr>) of (io2, d2) \<Rightarrow> (False, st2, io2, d2))
      | (True, f, io1) \<Rightarrow>
     (case sys_call (ii_calls io1) of
        (Some _, s1) \<Rightarrow>
          (case unlink_working (io1\<lparr>ii_calls := s1\<rparr>) (d\<lparr>id_working := Some f\<rparr>) of
             (io2, d2) \<Rightarrow> (False, st2, io2, d2))
      | (None, s1) \<Rightarrow>
     (case FsyncDirectory s1 (ii_fsync io1) of
        (r, s2, fs) \<Rightarrow>
          (r = None, st2, io1\<lparr>ii_calls := s2, ii_fsync := fs\<rparr>, d\<lparr>id_image := Some f, id_working := None\<rparr>))))))"

section \<open>Loading\<close>

datatype image_status = ImageOk | ImageAbsent | ImageUnusable

datatype image_detail =
  NoDetail | OpenImage errno | ImageNotSized | ShorterThanHeader | HeaderUnreadable | MagicDisagrees |
  VersionUnsupported | UnknownFlags | LengthDisagrees | EpochsNotInOrder | PayloadUnreadable |
  ImageChecksumFails | ImageTrailingBytes | ImageDoesNotDecode

record ckpt_image =
  im_status :: image_status
  im_cut_epoch :: epoch_number
  im_end_epoch :: epoch_number
  im_wal_frontier_at_publish :: epoch_number
  im_records :: LogRecords
  im_detail :: image_detail

definition image_default :: ckpt_image where
  "image_default = \<lparr>im_status = ImageAbsent, im_cut_epoch = 0, im_end_epoch = 0,
     im_wal_frontier_at_publish = 0, im_records = [], im_detail = NoDetail\<rparr>"

definition unusable :: "image_detail \<Rightarrow> ckpt_image" where
  "unusable detail = image_default\<lparr>im_status := ImageUnusable, im_detail := detail\<rparr>"

definition ENOENT :: errno where
  "ENOENT = Errno 2"

text \<open>The body of the try block: reading the payload, which \<open>alloc\<close> may refuse to hold, its checksum and
  its decoding.\<close>

definition load_payload ::
  "(bytes \<Rightarrow> (LogRecords \<times> nat) option) \<Rightarrow> (nat \<Rightarrow> bool) \<Rightarrow> io_script \<Rightarrow> bytes \<Rightarrow> bytes \<Rightarrow> u64 \<Rightarrow>
   image_detail + LogRecords" where
  "load_payload unpack alloc s f header psize =
     (if \<not> alloc (unat psize) then Inl ImageDoesNotDecode
      else case fst (ReadAll s f (unat psize) image_kHeaderSize) of
             None \<Rightarrow> Inl PayloadUnreadable
           | Some payload \<Rightarrow>
     (if image_crc header payload \<noteq> GetLe32 (drop (image_kHeaderSize - 4) header) then Inl ImageChecksumFails
      else case unpack payload of
             None \<Rightarrow> Inl ImageDoesNotDecode
           | Some (records, consumed) \<Rightarrow>
               if consumed \<noteq> length payload then Inl ImageTrailingBytes else Inr records))"

definition Load ::
  "(bytes \<Rightarrow> (LogRecords \<times> nat) option) \<Rightarrow> (nat \<Rightarrow> bool) \<Rightarrow> image_io \<Rightarrow> image_dir \<Rightarrow> ckpt_image" where
  "Load unpack alloc io d =
     (case id_image d of
        None \<Rightarrow> image_default\<lparr>im_detail := OpenImage ENOENT\<rparr>
      | Some f \<Rightarrow>
     (case fst (sys_call (ii_calls io)) of
        Some e \<Rightarrow> image_default\<lparr>im_status := (if e = ENOENT then ImageAbsent else ImageUnusable),
                                im_detail := OpenImage e\<rparr>
      | None \<Rightarrow>
     (if fst (sys_call (ii_fstat io)) \<noteq> None then unusable ImageNotSized
      else if length f < image_kHeaderSize then unusable ShorterThanHeader
      else case ReadAll (ii_pread io) f image_kHeaderSize 0 of
             (None, _) \<Rightarrow> unusable HeaderUnreadable
           | (Some header, s) \<Rightarrow>
     (if GetLe32 header \<noteq> image_kMagic then unusable MagicDisagrees
      else if GetLe16 (drop 4 header) \<noteq> image_kVersion then unusable VersionUnsupported
      else if GetLe16 (drop 6 header) \<noteq> image_kFlags then unusable UnknownFlags
      else let psize = GetLe64 (drop 44 header)
           in if psize \<noteq> of_nat (length f) - of_nat image_kHeaderSize then unusable LengthDisagrees
      else let cut_epoch = GetLe32 (drop 16 header); end_epoch = GetLe32 (drop 20 header);
               wal_frontier_at_publish = GetLe32 (drop 24 header)
           in if cut_epoch = 0 \<or> end_epoch < cut_epoch then unusable EpochsNotInOrder
      else case load_payload unpack alloc s f header psize of
             Inl detail \<Rightarrow> unusable detail
           | Inr records \<Rightarrow>
               \<lparr>im_status = ImageOk, im_cut_epoch = cut_epoch, im_end_epoch = end_epoch,
                im_wal_frontier_at_publish = wal_frontier_at_publish, im_records = records,
                im_detail = NoDetail\<rparr>))))"

section \<open>What the loops do\<close>

lemma WriteAll_effect:
  assumes "WriteAll s f data = (ok, f', s')"
  shows "\<exists>k\<le>length data. f' = f @ take k data \<and> (ok \<longrightarrow> k = length data)"
  using assms
proof (induction s f data arbitrary: ok f' s' rule: WriteAll.induct)
  case (1 s f data)
  show ?case
  proof (cases "data = []")
    case False
    obtain out s1 where out: "next_outcome s (length data) = (out, s1)" by force
    show ?thesis
    proof (cases out)
      case (FailedWith e)
      then show ?thesis
        using 1(2) [OF False out [symmetric] FailedWith] 1(3) False out
        by (auto simp: WriteAll.simps [of s] split: if_splits intro!: exI [of _ 0])
    next
      case (Transferred n)
      show ?thesis
      proof (cases "n > 0")
        case True
        have n: "n \<le> length data" using next_outcome_bounds(1) out Transferred by fastforce
        have "WriteAll s1 (f @ take n data) (drop n data) = (ok, f', s')"
          using 1(3) False out Transferred True by (simp add: WriteAll.simps [of s])
        then obtain k where "k \<le> length (drop n data)" "f' = (f @ take n data) @ take k (drop n data)"
            "ok \<longrightarrow> k = length (drop n data)"
          using 1(1) [OF False out [symmetric] Transferred True] by blast
        then show ?thesis using n by (intro exI [of _ "n + k"]) (auto simp: take_add)
      qed (use 1(3) \<open>data \<noteq> []\<close> out Transferred in \<open>auto simp: WriteAll.simps [of s] intro!: exI [of _ 0]\<close>)
    qed
  qed (use 1(3) in \<open>simp add: WriteAll.simps\<close>)
qed

lemma WriteAll_clean: "WriteAll [] f data = (True, f @ data, [])"
  by (cases "data = []") (simp_all add: WriteAll.simps)

text \<open>\<open>ReadAll\<close> is the log's \<open>PreadAll\<close> without the errno.\<close>

lemma ReadAll_PreadAll:
  "ReadAll s f sz off = (case PreadAll s f sz off of (Inl _, s') \<Rightarrow> (None, s') | (Inr bs, s') \<Rightarrow> (Some bs, s'))"
proof (induction s f sz off rule: ReadAll.induct)
  case (1 s f sz off)
  show ?case
  proof (cases "sz = 0")
    case False
    obtain out s1 where out: "next_outcome s (min sz (length f - off)) = (out, s1)" by force
    show ?thesis
    proof (cases out)
      case (Transferred n)
      then show ?thesis
        using 1(1) [OF False out [symmetric] Transferred] False out
        by (auto simp: ReadAll.simps [of s] PreadAll.simps [of s] split: sum.splits prod.splits)
    next
      case (FailedWith e)
      then show ?thesis
        using 1(2) [OF False out [symmetric] FailedWith] False out
        by (auto simp: ReadAll.simps [of s] PreadAll.simps [of s] split: sum.splits prod.splits)
    qed
  qed (simp add: ReadAll.simps PreadAll.simps)
qed

lemma ReadAll_result: "ReadAll s f sz off = (Some bs, s') \<Longrightarrow> bs = take sz (drop off f) \<and> length bs = sz"
  using PreadAll_result [of s f sz off bs s'] by (auto simp: ReadAll_PreadAll split: sum.splits prod.splits)

lemma ReadAll_clean: "off + sz \<le> length f \<Longrightarrow> ReadAll [] f sz off = (Some (take sz (drop off f)), [])"
  by (simp add: ReadAll_PreadAll PreadAll_clean)

section \<open>The format\<close>

lemma length_image_fields [simp]: "length (image_fields st n) = 52"
  by (simp add: image_fields_def)

lemma length_image_header [simp]: "length (image_header st payload) = 56"
  by (simp add: image_header_def Let_def)

lemma image_header_fields:
  assumes "length payload < 2 ^ 64"
  shows "GetLe32 (image_header st payload) = image_kMagic" "GetLe16 (drop 4 (image_header st payload)) = image_kVersion"
    "GetLe16 (drop 6 (image_header st payload)) = image_kFlags"
    "GetLe64 (drop 44 (image_header st payload)) = of_nat (length payload)"
    "GetLe32 (drop 16 (image_header st payload)) = st_cut_epoch st"
    "GetLe32 (drop 20 (image_header st payload)) = st_end_epoch st"
    "GetLe32 (drop 24 (image_header st payload)) = st_wal_frontier_at_publish st"
    "GetLe32 (drop 52 (image_header st payload)) = image_crc (image_header st payload) payload"
proof -
  show "GetLe32 (drop 52 (image_header st payload)) = image_crc (image_header st payload) payload"
    by (simp add: image_header_def Let_def image_crc_def image_kHeaderSize_def)
qed (simp_all add: image_header_def Let_def image_fields_def drop_append del: append_assoc, simp_all)

lemma GetLe64_take: "8 \<le> n \<Longrightarrow> GetLe64 (take n b) = GetLe64 b"
  by (simp add: GetLe64_def upt_8)

text \<open>Every header that \<open>Load\<close> accepts is one that \<open>Publish\<close> writes for some statistics.\<close>

lemma image_header_decode:
  assumes "length h = 56" "GetLe32 h = image_kMagic" "GetLe16 (drop 4 h) = image_kVersion"
    "GetLe16 (drop 6 h) = image_kFlags" "GetLe64 (drop 44 h) = of_nat (length payload)"
    "image_crc h payload = GetLe32 (drop 52 h)"
  shows "\<exists>st. h = image_header st payload"
proof -
  have f: "PutLe32 (GetLe32 (drop n h)) = take 4 (drop n h)" if "n + 4 \<le> 56" for n
    using PutLe32_GetLe32 [of "take 4 (drop n h)"] that assms(1) by (simp add: GetLe32_take)
  have g: "PutLe64 (GetLe64 (drop n h)) = take 8 (drop n h)" if "n + 8 \<le> 56" for n
    using PutLe64_GetLe64 [of "take 8 (drop n h)"] that assms(1) by (simp add: GetLe64_take)
  have e: "PutLe16 (GetLe16 (drop n h)) = take 2 (drop n h)" if "n + 2 \<le> 56" for n
    using PutLe16_GetLe16 [of "take 2 (drop n h)"] that assms(1) by (simp add: GetLe16_take)
  have join: "take a (drop n h) @ take b (drop (n + a) h) = take (a + b) (drop n h)" for a n b
    by (simp add: take_add add.commute)
  define st where "st = \<lparr>st_generation = GetLe64 (drop 8 h), st_cut_epoch = GetLe32 (drop 16 h),
    st_end_epoch = GetLe32 (drop 20 h), st_wal_frontier_at_publish = GetLe32 (drop 24 h),
    st_primary_rows = GetLe64 (drop 28 h), st_secondary_entries = GetLe64 (drop 36 h),
    st_image_bytes = 0, st_retries = 0\<rparr>"
  have "image_fields st (of_nat (length payload)) = take 52 h"
    unfolding image_fields_def assms(2-5) [symmetric]
    using f [of 0] join [of 8 36 8] join [of 8 28 16] join [of 4 24 24] join [of 4 20 28] join [of 4 16 32]
      join [of 8 8 36] join [of 2 6 44] join [of 2 4 46] join [of 4 0 48]
    by (simp add: st_def e f g)
  moreover have "image_crc (take 52 h) payload = image_crc h payload"
    by (simp add: image_crc_def image_kHeaderSize_def)
  ultimately have "image_header st payload = take 52 h @ PutLe32 (GetLe32 (drop 52 h))"
    using assms(6) by (simp add: image_header_def Let_def)
  also have "\<dots> = h" using f [of 52] assms(1) by (simp add: append_take_drop_id)
  finally show ?thesis by metis
qed

section \<open>Publishing\<close>

lemma unlink_working_image [simp]: "unlink_working io d = (io', d') \<Longrightarrow> id_image d' = id_image d"
  by (auto simp: unlink_working_def split: option.splits prod.splits)

lemma write_working_effect:
  assumes "write_working io header payload = (True, f, io')"
  shows "f = header @ payload"
  using assms WriteAll_effect [of "ii_write io" "[]" header] WriteAll_effect [of _ _ payload]
  by (fastforce simp: write_working_def split: prod.splits bool.splits)

text \<open>The image changes only to a complete file, and then only if the log is durable through the end of
  the scan.\<close>

lemma Publish_effect:
  assumes "Publish pack enable_logging lg records st io d = (ok, st', io', d')"
  shows "\<not> ok \<and> id_image d' = id_image d \<or>
    id_image d' = Some (image_header st' (pack records) @ pack records) \<and> id_working d' = None \<and>
    (enable_logging \<longrightarrow> st_end_epoch st \<le> lg_durable_epoch lg) \<and>
    st_cut_epoch st' = st_cut_epoch st \<and> st_end_epoch st' = st_end_epoch st"
proof -
  have h: "image_header (s\<lparr>st_image_bytes := n\<rparr>) p = image_header s p" for s n p
    by (simp add: image_header_def image_fields_def)
  have w: "WaitUntilDurable lg e True = Some WaitDurable \<Longrightarrow> e \<le> lg_durable_epoch lg" for e
    by (auto simp: WaitUntilDurable_def split: if_splits)
  show ?thesis
    using assms
    by (auto simp: Publish_def Let_def h split: prod.splits option.splits if_splits bool.splits
        dest!: write_working_effect dest: w unlink_working_image)
qed

section \<open>Loading\<close>

definition image_of :: "ckpt_stats \<Rightarrow> LogRecords \<Rightarrow> ckpt_image" where
  "image_of st records = \<lparr>im_status = ImageOk, im_cut_epoch = st_cut_epoch st, im_end_epoch = st_end_epoch st,
     im_wal_frontier_at_publish = st_wal_frontier_at_publish st, im_records = records, im_detail = NoDetail\<rparr>"

definition clean_image_io :: image_io where
  "clean_image_io = \<lparr>ii_calls = [], ii_write = [], ii_fsync = [], ii_fstat = [], ii_pread = []\<rparr>"

lemma unusable_simps [simp]: "im_status (unusable x) = ImageUnusable" "im_records (unusable x) = []"
  by (simp_all add: unusable_def image_default_def)

lemma take_header [simp]: "take 56 (image_header st p @ p) = image_header st p"
  by simp

lemma load_payload_published:
  assumes "length p < 2 ^ 64" "unpack p = Some (records, length p)"
  shows "load_payload unpack alloc s (image_header st p @ p) (image_header st p) (of_nat (length p)) = Inr r \<Longrightarrow> r = records"
    "load_payload unpack (\<lambda>_. True) [] (image_header st p @ p) (image_header st p) (of_nat (length p)) = Inr records"
proof -
  define f where "f = image_header st p @ p"
  have f: "take (length p) (drop 56 f) = p" "56 + length p \<le> length f" by (simp_all add: f_def)
  have n: "unat (of_nat (length p) :: u64) = length p"
    using assms(1) by (simp add: unat_of_nat take_bit_eq_mod)
  have crc: "image_crc (image_header st p) p = GetLe32 (drop 52 (image_header st p))"
    using image_header_fields(8) [OF assms(1)] by simp
  have rd: "ReadAll s f (length p) 56 = (Some bs, s') \<Longrightarrow> bs = p" for s bs s'
    using ReadAll_result [of s f "length p" 56 bs s'] f by simp
  show "r = records" if a: "load_payload unpack alloc s (image_header st p @ p) (image_header st p) (of_nat (length p)) = Inr r"
  proof (cases "ReadAll s f (length p) 56")
    case (Pair bs s')
    then show ?thesis
      using rd [of s] assms(2) a by (auto simp: load_payload_def n image_kHeaderSize_def simp flip: f_def split: option.splits if_splits)
  qed
  show "load_payload unpack (\<lambda>_. True) [] (image_header st p @ p) (image_header st p) (of_nat (length p)) = Inr records"
    using ReadAll_clean [OF f(2)] f(1) assms(2) crc
    by (simp add: load_payload_def n image_kHeaderSize_def flip: f_def)
qed

lemma Load_published:
  assumes d: "id_image d = Some (image_header st p @ p)" and "length p < 2 ^ 64" "unpack p = Some (records, length p)"
    and "st_cut_epoch st \<noteq> 0" "st_cut_epoch st \<le> st_end_epoch st"
  shows "Load unpack alloc io d = image_of st records \<or>
      im_status (Load unpack alloc io d) \<noteq> ImageOk \<and> im_records (Load unpack alloc io d) = []"
    "Load unpack (\<lambda>_. True) clean_image_io d = image_of st records"
proof -
  note fields = image_header_fields [OF assms(2)]
  note pay = load_payload_published [where unpack = unpack and p = p and records = records, OF assms(2,3)]
  have hd: "ReadAll s (image_header st p @ p) 56 0 = (Some h, s') \<Longrightarrow> h = image_header st p" for s h s'
    using ReadAll_result [of s "image_header st p @ p" 56 0 h s'] by simp
  show "Load unpack alloc io d = image_of st records \<or>
      im_status (Load unpack alloc io d) \<noteq> ImageOk \<and> im_records (Load unpack alloc io d) = []"
  proof (cases "ReadAll (ii_pread io) (image_header st p @ p) 56 0")
    case (Pair r s)
    then show ?thesis
      using hd [of "ii_pread io"] pay(1) [of alloc s st] assms(4,5)
      by (cases r) (auto simp: Load_def d image_kHeaderSize_def fields image_of_def image_default_def Let_def
          split: option.splits sum.splits)
  qed
  have "ReadAll [] (image_header st p @ p) 56 0 = (Some (image_header st p), [])"
    using ReadAll_clean [of 0 56 "image_header st p @ p"] by simp
  then show "Load unpack (\<lambda>_. True) clean_image_io d = image_of st records"
    using pay(2) [of st] assms(4,5)
    by (simp add: Load_def d image_kHeaderSize_def fields image_of_def clean_image_io_def Let_def not_less)
qed

text \<open>C29. A published image loads back. When \<open>Publish\<close> reports success, a later \<open>Load\<close> that meets no fault
  returns exactly the records and epochs that were published, and a \<open>Load\<close> that does meet one either
  returns the same or refuses the image without any record of it. The payload codec is assumed to
  decode what it encoded.\<close>

theorem published_image_loads:
  assumes "Publish pack enable_logging lg records st io d = (True, st', io', d')"
    and "unpack (pack records) = Some (records, length (pack records))" "length (pack records) < 2 ^ 64"
    and "st_cut_epoch st \<noteq> 0" "st_cut_epoch st \<le> st_end_epoch st"
  shows "Load unpack (\<lambda>_. True) clean_image_io d' = image_of st' records \<and>
    st_cut_epoch st' = st_cut_epoch st \<and> st_end_epoch st' = st_end_epoch st \<and>
    (Load unpack alloc io2 d' = image_of st' records \<or>
     im_status (Load unpack alloc io2 d') \<noteq> ImageOk \<and> im_records (Load unpack alloc io2 d') = [])"
proof -
  have p: "id_image d' = Some (image_header st' (pack records) @ pack records)"
      "st_cut_epoch st' = st_cut_epoch st" "st_end_epoch st' = st_end_epoch st"
    using Publish_effect [OF assms(1)] by auto
  then show ?thesis
    using Load_published [where unpack = unpack and p = "pack records" and records = records, OF p(1) assms(3,2)]
      assms(4,5) by simp
qed

definition example_stats :: ckpt_stats where
  "example_stats = \<lparr>st_generation = 1, st_cut_epoch = 3, st_end_epoch = 5, st_wal_frontier_at_publish = 4,
     st_primary_rows = 0, st_secondary_entries = 0, st_image_bytes = 0, st_retries = 0\<rparr>"

lemma Publish_clean:
  "Publish pack False lg records st clean_image_io d =
     (True, st\<lparr>st_image_bytes := of_nat (image_kHeaderSize + length (pack records))\<rparr>, clean_image_io,
      d\<lparr>id_image := Some (image_header st (pack records) @ pack records), id_working := None\<rparr>)"
  by (simp add: Publish_def Let_def clean_image_io_def write_working_def WriteAll_clean FsyncDirectory_def)

theorem published_image_loads_witness:
  "\<forall>lg. \<exists>st' io' d'.
     Publish (\<lambda>_. [1]) False lg [] example_stats clean_image_io \<lparr>id_image = None, id_working = None\<rparr> = (True, st', io', d') \<and>
     Load (\<lambda>_. Some ([], 1)) (\<lambda>_. True) clean_image_io d' = image_of st' []"
proof
  fix lg
  show "\<exists>st' io' d'.
     Publish (\<lambda>_. [1]) False lg [] example_stats clean_image_io \<lparr>id_image = None, id_working = None\<rparr> = (True, st', io', d') \<and>
     Load (\<lambda>_. Some ([], 1)) (\<lambda>_. True) clean_image_io d' = image_of st' []"
    using published_image_loads [OF Publish_clean [of "\<lambda>_. [1]" lg "[]" example_stats "\<lparr>id_image = None, id_working = None\<rparr>"],
        of "\<lambda>_. Some ([], 1)"]
    by (simp add: Publish_clean example_stats_def)
qed


lemma load_payload_accepts:
  assumes "load_payload unpack alloc s f h n = Inr records" "length f < 2 ^ 63" "56 \<le> length f"
    "n = of_nat (length f) - 56"
  shows "image_crc h (drop 56 f) = GetLe32 (drop 52 h) \<and> unpack (drop 56 f) = Some (records, length (drop 56 f))"
proof -
  have "n = of_nat (length f - 56)" using assms(3,4) by (simp add: of_nat_diff)
  then have n: "unat n = length f - 56"
    using assms(2) by (simp add: unat_of_nat take_bit_eq_mod)
  obtain bs s' where "ReadAll s f (unat n) 56 = (Some bs, s')"
    using assms(1) by (cases "ReadAll s f (unat n) 56") (auto simp: load_payload_def image_kHeaderSize_def split: if_splits option.splits)
  moreover from this have "bs = drop 56 f" using ReadAll_result n by fastforce
  ultimately show ?thesis using assms(1)
    by (auto simp: load_payload_def image_kHeaderSize_def split: if_splits option.splits)
qed

text \<open>C31. \<open>Load\<close> trusts only whole images. Whatever file it is given, when it accepts, the file is exactly
  one that \<open>Publish\<close> would write, its checksum included, for ordered non-zero epochs, and the records are
  what its payload decodes to.\<close>

theorem loaded_image_is_whole:
  assumes "im_status (Load unpack alloc io d) = ImageOk" "id_image d = Some f" "length f < 2 ^ 63"
  shows "\<exists>st payload. f = image_header st payload @ payload \<and>
    unpack payload = Some (im_records (Load unpack alloc io d), length payload) \<and>
    Load unpack alloc io d = image_of st (im_records (Load unpack alloc io d)) \<and>
    0 < st_cut_epoch st \<and> st_cut_epoch st \<le> st_end_epoch st"
proof -
  obtain h s where rd: "ReadAll (ii_pread io) f 56 0 = (Some h, s)"
    using assms(1,2) by (cases "ReadAll (ii_pread io) f 56 0"; cases "fst (ReadAll (ii_pread io) f 56 0)")
      (auto simp: Load_def image_kHeaderSize_def image_default_def split: option.splits if_splits)
  then have h: "h = take 56 f" "length h = 56" "56 \<le> length f" using ReadAll_result [OF rd] by auto
  obtain records where pay: "load_payload unpack alloc s f h (GetLe64 (drop 44 h)) = Inr records"
      and ok: "GetLe32 h = image_kMagic" "GetLe16 (drop 4 h) = image_kVersion" "GetLe16 (drop 6 h) = image_kFlags"
        "GetLe64 (drop 44 h) = of_nat (length f) - 56" "GetLe32 (drop 16 h) \<noteq> 0"
        "GetLe32 (drop 16 h) \<le> GetLe32 (drop 20 h)"
      and res: "Load unpack alloc io d = \<lparr>im_status = ImageOk, im_cut_epoch = GetLe32 (drop 16 h),
        im_end_epoch = GetLe32 (drop 20 h), im_wal_frontier_at_publish = GetLe32 (drop 24 h), im_records = records,
        im_detail = NoDetail\<rparr>"
    using assms(1,2) rd
    by (auto simp: Load_def image_kHeaderSize_def image_default_def Let_def split: option.splits if_splits sum.splits)
  note acc = load_payload_accepts [OF pay assms(3) h(3) ok(4)]
  have "GetLe64 (drop 44 h) = of_nat (length (drop 56 f))" using ok(4) h(3) by (simp add: of_nat_diff)
  then obtain st where st: "h = image_header st (drop 56 f)"
    using image_header_decode [OF h(2) ok(1-3), of "drop 56 f"] acc by blast
  have l: "length (drop 56 f) < 2 ^ 64" using assms(3) by simp
  have "f = image_header st (drop 56 f) @ drop 56 f" using st h(1) by (metis append_take_drop_id)
  moreover have "Load unpack alloc io d = image_of st records"
    using res image_header_fields [OF l, of st] by (simp add: image_of_def st [symmetric])
  ultimately show ?thesis
    using acc ok(5,6) image_header_fields(5,6) [OF l, of st] res
    by (intro exI [of _ st] exI [of _ "drop 56 f"]) (simp add: st [symmetric] word_neq_0_conv image_of_def)
qed

theorem loaded_image_is_whole_witness:
  "\<exists>st payload. image_header example_stats [1] @ [1] = image_header st payload @ payload \<and>
     0 < st_cut_epoch st \<and> st_cut_epoch st \<le> st_end_epoch st"
proof -
  let ?d = "\<lparr>id_image = Some (image_header example_stats [1] @ [1]), id_working = None\<rparr>"
  have "im_status (Load (\<lambda>_. Some ([], 1)) (\<lambda>_. True) clean_image_io ?d) = ImageOk"
    using Load_published(2) [of ?d example_stats "[1]" "\<lambda>_. Some ([], 1)" "[]"]
    by (simp add: example_stats_def image_of_def)
  then show ?thesis
    using loaded_image_is_whole [of "\<lambda>_. Some ([], 1)" "\<lambda>_. True" clean_image_io ?d] by auto
qed

end
