(* ===== verification/ConcurrentSet.thy ===== *)
theory ConcurrentSet
  imports LdbPrelude
begin

text \<open>
  The point index (\<^verbatim>\<open>src/index/precision_locking_index/point_index/mpmc_concurrent_set_impl.hpp\<close>): a hash table
  with open addressing and linear probing whose \<open>Rehash\<close> moves one bucket after another into a table of
  twice the size while \<open>Get\<close> and \<open>Put\<close> run. A step of the model is one call of \<open>Get\<close> or \<open>Put\<close> up to
  the point where it returns or has to look at the table again, or the move of one bucket. \<open>std::hash\<close> is
  the parameter \<open>h\<close>. When the fill rate makes the thread rehash is left open: it may at any time.
\<close>

section \<open>State\<close>

datatype 'v slot = Empty | Node bytes 'v | Redirected

type_synonym 'v cs_table_type = "'v slot list"

record 'v concurrent_set =
  cs_table :: "'v slot list"
  cs_rehash :: "('v slot list \<times> nat) option"
  cs_populated_count :: nat

definition InitialTableSize :: nat where
  "InitialTableSize = 4096"

definition concurrent_set_new :: "'v concurrent_set" where
  "concurrent_set_new = \<lparr>cs_table = replicate InitialTableSize Empty, cs_rehash = None, cs_populated_count = 0\<rparr>"

definition Hash :: "(bytes \<Rightarrow> u64) \<Rightarrow> bytes \<Rightarrow> nat \<Rightarrow> nat" where
  "Hash h key capacity = unat (h key XOR of_nat capacity) mod capacity"

text \<open>The first eight bytes of a key as an integer; the copy leaves the rest zero.\<close>

definition string_to_uint64_t :: "bytes \<Rightarrow> u64" where
  "string_to_uint64_t k = fold (\<lambda>(i, b) v. v OR push_bit (8 * i) (ucast b)) (zip [0..<8] k) 0"

definition next_bucket :: "'v slot list \<Rightarrow> nat \<Rightarrow> nat" where
  "next_bucket t hash = (if hash + 1 = length t then 0 else hash + 1)"

section \<open>Operations\<close>

datatype 'v probe_result = Found 'v | Missing | SeesRedirect | ProbesTooLong

function get_probe :: "'v slot list \<Rightarrow> bytes \<Rightarrow> nat \<Rightarrow> nat \<Rightarrow> 'v probe_result" where
  "get_probe t key hash count =
     (case t ! hash of
        Redirected \<Rightarrow> SeesRedirect
      | Empty \<Rightarrow> Missing
      | Node k v \<Rightarrow>
          if string_to_uint64_t k = string_to_uint64_t key \<and> k = key then Found v
          else if count + 1 > 100 then ProbesTooLong
          else get_probe t key (next_bucket t hash) (count + 1))"
  by pat_completeness auto
termination by (relation "measure (\<lambda>(_, _, _, count). 101 - count)") auto

text \<open>A redirect makes the caller start over on the table it loads again; too long a probe makes it ask for
  a rehash and start over.\<close>

definition cs_Get :: "(bytes \<Rightarrow> u64) \<Rightarrow> 'v concurrent_set \<Rightarrow> bytes \<Rightarrow> 'v probe_result" where
  "cs_Get h s key = get_probe (cs_table s) key (Hash h key (length (cs_table s))) 0"

datatype put_result = Inserted nat | AlreadyThere | PutSeesRedirect | PutProbesTooLong

function put_probe :: "'v slot list \<Rightarrow> bytes \<Rightarrow> nat \<Rightarrow> nat \<Rightarrow> put_result" where
  "put_probe t key hash count =
     (case t ! hash of
        Redirected \<Rightarrow> PutSeesRedirect
      | Empty \<Rightarrow> Inserted hash
      | Node k v \<Rightarrow>
          if string_to_uint64_t k = string_to_uint64_t key \<and> k = key then AlreadyThere
          else if count + 1 > 100 then PutProbesTooLong
          else put_probe t key (next_bucket t hash) (count + 1))"
  by pat_completeness auto
termination by (relation "measure (\<lambda>(_, _, _, count). 101 - count)") auto

definition cs_Put ::
  "(bytes \<Rightarrow> u64) \<Rightarrow> 'v concurrent_set \<Rightarrow> bytes \<Rightarrow> 'v \<Rightarrow> put_result \<times> 'v concurrent_set" where
  "cs_Put h s key v =
     (case put_probe (cs_table s) key (Hash h key (length (cs_table s))) 0 of
        Inserted i \<Rightarrow>
          (Inserted i, s\<lparr>cs_table := (cs_table s)[i := Node key v], cs_populated_count := cs_populated_count s + 1\<rparr>)
      | r \<Rightarrow> (r, s))"

text \<open>The probing loop of \<open>Rehash\<close>, with the number of buckets it has not tried; a full table would keep it
  going for ever.\<close>

fun rehash_probe :: "'v slot list \<Rightarrow> nat \<Rightarrow> nat \<Rightarrow> nat option" where
  "rehash_probe t rehashed 0 = None"
| "rehash_probe t rehashed (Suc n) =
     (case t ! rehashed of
        Empty \<Rightarrow> Some rehashed
      | _ \<Rightarrow> rehash_probe t (next_bucket t rehashed) n)"

definition rehash_begin :: "'v concurrent_set \<Rightarrow> 'v concurrent_set" where
  "rehash_begin s = s\<lparr>cs_rehash := Some (replicate (length (cs_table s) * 2) Empty, 0)\<rparr>"

definition rehash_bucket ::
  "(bytes \<Rightarrow> u64) \<Rightarrow> 'v concurrent_set \<Rightarrow> 'v slot list \<Rightarrow> nat \<Rightarrow> 'v concurrent_set option" where
  "rehash_bucket h s new_table i =
     (case cs_table s ! i of
        Node k v \<Rightarrow>
          (case rehash_probe new_table (Hash h k (length new_table)) (length new_table) of
             None \<Rightarrow> None
           | Some p \<Rightarrow> Some (s\<lparr>cs_table := (cs_table s)[i := Redirected],
                               cs_rehash := Some (new_table[p := Node k v], i + 1)\<rparr>))
      | _ \<Rightarrow> Some (s\<lparr>cs_table := (cs_table s)[i := Redirected], cs_rehash := Some (new_table, i + 1)\<rparr>))"

definition rehash_end :: "'v concurrent_set \<Rightarrow> 'v slot list \<Rightarrow> 'v concurrent_set" where
  "rehash_end s new_table = s\<lparr>cs_table := new_table, cs_rehash := None\<rparr>"

text \<open>The whole of \<open>Rehash\<close>, when nothing runs beside it.\<close>

fun rehash_buckets :: "(bytes \<Rightarrow> u64) \<Rightarrow> 'v concurrent_set \<Rightarrow> nat list \<Rightarrow> 'v concurrent_set option" where
  "rehash_buckets h s [] = Some s"
| "rehash_buckets h s (i # rest) =
     (case cs_rehash s of
        None \<Rightarrow> None
      | Some (new_table, _) \<Rightarrow>
          (case rehash_bucket h s new_table i of None \<Rightarrow> None | Some s' \<Rightarrow> rehash_buckets h s' rest))"

definition Rehash :: "(bytes \<Rightarrow> u64) \<Rightarrow> 'v concurrent_set \<Rightarrow> 'v concurrent_set option" where
  "Rehash h s =
     (case rehash_buckets h (rehash_begin s) [0..<length (cs_table s)] of
        None \<Rightarrow> None
      | Some s' \<Rightarrow> map_option (\<lambda>r. rehash_end s' (fst r)) (cs_rehash s'))"

inductive cs_step :: "(bytes \<Rightarrow> u64) \<Rightarrow> 'v concurrent_set \<Rightarrow> 'v concurrent_set \<Rightarrow> bool" for h where
  put: "cs_step h s (snd (cs_Put h s key v))"
| rehash_begins: "cs_rehash s = None \<Longrightarrow> cs_step h s (rehash_begin s)"
| rehash_moves: "cs_rehash s = Some (new_table, i) \<Longrightarrow> i < length (cs_table s) \<Longrightarrow>
    rehash_bucket h s new_table i = Some s' \<Longrightarrow> cs_step h s s'"
| rehash_ends: "cs_rehash s = Some (new_table, i) \<Longrightarrow> i = length (cs_table s) \<Longrightarrow>
    cs_step h s (rehash_end s new_table)"

text \<open>\<open>ForEach\<close>, which excludes \<open>Rehash\<close>: the nodes in bucket order until the callback asks to stop.\<close>

fun cs_ForEach :: "(bytes \<Rightarrow> 'v \<Rightarrow> 'a \<Rightarrow> bool \<times> 'a) \<Rightarrow> 'v slot list \<Rightarrow> 'a \<Rightarrow> 'a" where
  "cs_ForEach f [] a = a"
| "cs_ForEach f (Node k v # t) a = (case f k v a of (True, a') \<Rightarrow> cs_ForEach f t a' | (False, a') \<Rightarrow> a')"
| "cs_ForEach f (_ # t) a = cs_ForEach f t a"

declare get_probe.simps [simp del] put_probe.simps [simp del]

section \<open>Probe chains\<close>

definition slot_at :: "'v slot list \<Rightarrow> nat \<Rightarrow> nat \<Rightarrow> 'v slot" where
  "slot_at t i j = t ! ((i + j) mod length t)"

definition chain :: "'v slot list \<Rightarrow> nat \<Rightarrow> nat \<Rightarrow> bool" where
  "chain t i j \<longleftrightarrow> (\<forall>j'<j. slot_at t i j' \<noteq> Empty)"

text \<open>The probe passed over other keys only.\<close>

definition passed :: "'v slot list \<Rightarrow> bytes \<Rightarrow> nat \<Rightarrow> nat \<Rightarrow> bool" where
  "passed t key i j \<longleftrightarrow> (\<forall>j'<j. \<exists>k v. slot_at t i j' = Node k v \<and> k \<noteq> key)"

lemma next_bucket_mod: "i < length t \<Longrightarrow> next_bucket t i = (i + 1) mod length t"
  by (auto simp: next_bucket_def)

lemma slot_at_next: "i < length t \<Longrightarrow> slot_at t (next_bucket t i) j = slot_at t i (Suc j)"
  by (simp add: slot_at_def next_bucket_mod mod_simps)

lemma slot_at_0: "i < length t \<Longrightarrow> slot_at t i 0 = t ! i"
  by (simp add: slot_at_def)

lemma passed_next:
  "i < length t \<Longrightarrow> t ! i = Node k v \<Longrightarrow> k \<noteq> key \<Longrightarrow> passed t key (next_bucket t i) j \<Longrightarrow> passed t key i (Suc j)"
  unfolding passed_def by (auto simp: less_Suc_eq_0_disj slot_at_next slot_at_0)

lemma next_bucket_less: "i < length t \<Longrightarrow> next_bucket t i < length t"
  by (simp add: next_bucket_mod) (metis mod_less_divisor gr_zeroI not_less_zero)

lemma get_probe_spec:
  "i < length t \<Longrightarrow> get_probe t key i c \<noteq> ProbesTooLong \<Longrightarrow> \<exists>j. passed t key i j \<and>
     (case get_probe t key i c of
        Found v \<Rightarrow> slot_at t i j = Node key v | Missing \<Rightarrow> slot_at t i j = Empty
      | SeesRedirect \<Rightarrow> slot_at t i j = Redirected | ProbesTooLong \<Rightarrow> False)"
proof (induction t key i c rule: get_probe.induct)
  case (1 t key i c)
  show ?case
  proof (cases "\<exists>k v. t ! i = Node k v \<and> k \<noteq> key")
    case True
    then obtain k v where k: "t ! i = Node k v" "k \<noteq> key" by blast
    have e: "get_probe t key i c = (if c + 1 > 100 then ProbesTooLong else get_probe t key (next_bucket t i) (c + 1))"
      using k by (simp add: get_probe.simps [of t key i c])
    then have c: "\<not> c + 1 > 100" using 1(3) by auto
    obtain j where "passed t key (next_bucket t i) j" "case get_probe t key (next_bucket t i) (c + 1) of
        Found v \<Rightarrow> slot_at t (next_bucket t i) j = Node key v | Missing \<Rightarrow> slot_at t (next_bucket t i) j = Empty
      | SeesRedirect \<Rightarrow> slot_at t (next_bucket t i) j = Redirected | ProbesTooLong \<Rightarrow> False"
      using 1(1) [OF k(1) _ c] k(2) 1(2,3) e c next_bucket_less [OF 1(2)] by auto
    then show ?thesis
      using e c passed_next [OF 1(2) k] unfolding slot_at_next [OF 1(2)] by (intro exI [of _ "Suc j"]) simp
  next
    case False
    then show ?thesis
      using 1(2) by (intro exI [of _ 0]) (auto simp: get_probe.simps [of t key i c] passed_def slot_at_0 split: slot.splits)
  qed
qed

lemma put_probe_get:
  "i < length t \<Longrightarrow> put_probe t key i c =
     (case get_probe t key i c of Found v \<Rightarrow> AlreadyThere | SeesRedirect \<Rightarrow> PutSeesRedirect
      | ProbesTooLong \<Rightarrow> PutProbesTooLong | Missing \<Rightarrow> put_probe t key i c) \<and>
   (get_probe t key i c = Missing \<longrightarrow>
     (\<exists>j. passed t key i j \<and> slot_at t i j = Empty \<and> put_probe t key i c = Inserted ((i + j) mod length t)))"
proof (induction t key i c rule: get_probe.induct)
  case (1 t key i c)
  show ?case
  proof (cases "\<exists>k v. t ! i = Node k v \<and> k \<noteq> key")
    case True
    then obtain k v where k: "t ! i = Node k v" "k \<noteq> key" by blast
    show ?thesis
    proof (cases "c + 1 > 100")
      case True
      then show ?thesis using k by (simp add: get_probe.simps [of t key i c] put_probe.simps [of t key i c])
    next
      case False
      have g: "get_probe t key i c = get_probe t key (next_bucket t i) (c + 1)"
          "put_probe t key i c = put_probe t key (next_bucket t i) (c + 1)"
        using k False by (simp_all add: get_probe.simps [of t key i c] put_probe.simps [of t key i c])
      have ih: "put_probe t key (next_bucket t i) (c + 1) =
          (case get_probe t key (next_bucket t i) (c + 1) of Found v \<Rightarrow> AlreadyThere | SeesRedirect \<Rightarrow> PutSeesRedirect
           | ProbesTooLong \<Rightarrow> PutProbesTooLong | Missing \<Rightarrow> put_probe t key (next_bucket t i) (c + 1)) \<and>
        (get_probe t key (next_bucket t i) (c + 1) = Missing \<longrightarrow>
          (\<exists>j. passed t key (next_bucket t i) j \<and> slot_at t (next_bucket t i) j = Empty \<and>
            put_probe t key (next_bucket t i) (c + 1) = Inserted ((next_bucket t i + j) mod length t)))"
        using 1(1) [OF k(1) _ False] k(2) next_bucket_less [OF 1(2)] by blast
      have "(next_bucket t i + j) mod length t = (i + Suc j) mod length t" for j
        using 1(2) by (simp add: next_bucket_mod mod_simps)
      then show ?thesis
        using ih passed_next [OF 1(2) k] slot_at_next [OF 1(2)] unfolding g by metis
    qed
  next
    case False
    then show ?thesis
      using 1(2) by (auto simp: get_probe.simps [of t key i c] put_probe.simps [of t key i c] passed_def slot_at_0
          split: slot.splits intro!: exI [of _ 0])
  qed
qed

lemma rehash_probe_spec:
  "i < length t \<Longrightarrow> (case rehash_probe t i n of
      Some p \<Rightarrow> \<exists>j<n. p = (i + j) mod length t \<and> t ! p = Empty \<and> chain t i j
    | None \<Rightarrow> chain t i n)"
proof (induction t i n rule: rehash_probe.induct)
  case (2 t i n)
  show ?case
  proof (cases "t ! i = Empty")
    case True
    then show ?thesis using 2(3) by (auto simp: chain_def intro!: exI [of _ 0])
  next
    case False
    have e: "rehash_probe t i (Suc n) = rehash_probe t (next_bucket t i) n"
      using False by (cases "t ! i") auto
    have ih: "case rehash_probe t (next_bucket t i) n of
        Some p \<Rightarrow> \<exists>j<n. p = (next_bucket t i + j) mod length t \<and> t ! p = Empty \<and> chain t (next_bucket t i) j
      | None \<Rightarrow> chain t (next_bucket t i) n"
      using 2 False next_bucket_less [OF 2(3)] by (cases "t ! i") auto
    have ch: "chain t (next_bucket t i) j \<Longrightarrow> chain t i (Suc j)" for j
      using False slot_at_next [OF 2(3)] slot_at_0 [OF 2(3)] unfolding chain_def by (metis less_Suc_eq_0_disj)
    have "(next_bucket t i + j) mod length t = (i + Suc j) mod length t" for j
      using 2(3) by (simp add: next_bucket_mod mod_simps)
    then show ?thesis unfolding e using ih ch by (fastforce split: option.splits)
  qed
qed (simp add: chain_def)

section \<open>The invariant\<close>

definition nodes :: "'v slot list \<Rightarrow> (bytes \<times> 'v) set" where
  "nodes t = {(k, v). Node k v \<in> set t}"

text \<open>Every node can be reached from the bucket of its key, and no key has two nodes.\<close>

definition reaches :: "(bytes \<Rightarrow> u64) \<Rightarrow> 'v slot list \<Rightarrow> bytes \<Rightarrow> 'v slot \<Rightarrow> bool" where
  "reaches h t k x \<longleftrightarrow> (\<exists>j<length t. slot_at t (Hash h k (length t)) j = x \<and> chain t (Hash h k (length t)) j)"

definition keys_once :: "'v slot list \<Rightarrow> bool" where
  "keys_once t \<longleftrightarrow> (\<forall>p q k v w. p < length t \<longrightarrow> q < length t \<longrightarrow> t ! p = Node k v \<longrightarrow> t ! q = Node k w \<longrightarrow> p = q)"

definition table_ok :: "(bytes \<Rightarrow> u64) \<Rightarrow> 'v slot list \<Rightarrow> bool" where
  "table_ok h t \<longleftrightarrow> t \<noteq> [] \<and> (\<forall>(k, v)\<in>nodes t. reaches h t k (Node k v)) \<and> keys_once t"

definition contents :: "'v concurrent_set \<Rightarrow> (bytes \<times> 'v) set" where
  "contents s = nodes (cs_table s) \<union> (case cs_rehash s of None \<Rightarrow> {} | Some (new_table, _) \<Rightarrow> nodes new_table)"

definition cset_inv :: "(bytes \<Rightarrow> u64) \<Rightarrow> 'v concurrent_set \<Rightarrow> bool" where
  "cset_inv h s \<longleftrightarrow> table_ok h (cs_table s) \<and>
     (case cs_rehash s of
        None \<Rightarrow> Redirected \<notin> set (cs_table s)
      | Some (new_table, i) \<Rightarrow> i \<le> length (cs_table s) \<and> length new_table = length (cs_table s) * 2 \<and>
          table_ok h new_table \<and> Redirected \<notin> set new_table \<and>
          (\<forall>p<length (cs_table s). cs_table s ! p = Redirected \<longleftrightarrow> p < i) \<and>
          length (filter (\<lambda>x. x \<noteq> Empty) new_table) \<le> i \<and>
          fst ` nodes (cs_table s) \<inter> fst ` nodes new_table = {} \<and>
          (\<forall>(k, v)\<in>nodes new_table. reaches h (cs_table s) k Redirected))"

lemma Hash_less: "t \<noteq> [] \<Longrightarrow> Hash h k (length t) < length t"
  by (simp add: Hash_def)

lemma slot_at_in: "t \<noteq> [] \<Longrightarrow> slot_at t i j \<in> set t"
  by (simp add: slot_at_def)

lemma slot_at_update:
  "p < length t \<Longrightarrow> slot_at (t[p := x]) i j = (if (i + j) mod length t = p then x else slot_at t i j)"
  unfolding slot_at_def by (auto simp: nth_list_update)

lemma chain_update: "p < length t \<Longrightarrow> x \<noteq> Empty \<Longrightarrow> chain t i j \<Longrightarrow> chain (t[p := x]) i j"
  by (auto simp: chain_def slot_at_update)

text \<open>A probe that ends at an empty bucket has seen every node and every redirect its key reaches.\<close>

lemma missing_reaches:
  assumes "passed t key (Hash h key (length t)) j" "slot_at t (Hash h key (length t)) j = Empty"
    and "reaches h t key x" "x = Redirected \<or> x = Node key v"
  shows False
proof -
  obtain j0 where j0: "slot_at t (Hash h key (length t)) j0 = x" "chain t (Hash h key (length t)) j0"
    using assms(3) by (auto simp: reaches_def)
  have "\<not> j < j0" using j0(2) assms(2) by (auto simp: chain_def)
  moreover have "j \<noteq> j0" using j0(1) assms(2,4) by auto
  ultimately have "j0 < j" by simp
  then show False using assms(1,4) j0(1) by (auto simp: passed_def)
qed

lemma Get_correct:
  assumes inv: "cset_inv h s"
  shows "(cs_Get h s key = Found v \<longrightarrow> (key, v) \<in> contents s) \<and> (cs_Get h s key = Missing \<longrightarrow> key \<notin> fst ` contents s)"
proof -
  let ?t = "cs_table s" and ?i = "Hash h key (length (cs_table s))"
  have t: "?t \<noteq> []" using inv by (simp add: cset_inv_def table_ok_def)
  note spec = get_probe_spec [OF Hash_less [OF t, of h key], of key 0, folded cs_Get_def]
  show ?thesis
  proof (intro conjI impI)
    assume "cs_Get h s key = Found v"
    then obtain j where "slot_at ?t ?i j = Node key v" using spec by auto
    then have "Node key v \<in> set ?t" using slot_at_in [OF t, of ?i j] by simp
    then show "(key, v) \<in> contents s" by (simp add: contents_def nodes_def)
  next
    assume "cs_Get h s key = Missing"
    then obtain j where j: "passed ?t key ?i j" "slot_at ?t ?i j = Empty" using spec by auto
    have "(key, w) \<notin> nodes ?t" for w
      using missing_reaches [OF j, of "Node key w" w] inv by (auto simp: cset_inv_def table_ok_def)
    moreover have "cs_rehash s = Some (nt, i) \<Longrightarrow> (key, w) \<notin> nodes nt" for nt i w
      using missing_reaches [OF j, of Redirected] inv by (auto simp: cset_inv_def)
    ultimately show "key \<notin> fst ` contents s" by (auto simp: contents_def split: option.splits)
  qed
qed

lemma Put_result:
  assumes inv: "cset_inv h s"
  shows "case cs_Put h s key v of
      (Inserted p, s') \<Rightarrow> key \<notin> fst ` contents s \<and> p < length (cs_table s) \<and> cs_table s ! p = Empty \<and>
        (\<exists>j<length (cs_table s). (Hash h key (length (cs_table s)) + j) mod length (cs_table s) = p \<and>
           chain (cs_table s) (Hash h key (length (cs_table s))) j) \<and>
        s' = s\<lparr>cs_table := (cs_table s)[p := Node key v], cs_populated_count := cs_populated_count s + 1\<rparr>
    | (AlreadyThere, s') \<Rightarrow> key \<in> fst ` contents s \<and> s' = s
    | (_, s') \<Rightarrow> s' = s"
proof -
  let ?t = "cs_table s" and ?i = "Hash h key (length (cs_table s))"
  have t: "?t \<noteq> []" using inv by (simp add: cset_inv_def table_ok_def)
  note pg = put_probe_get [OF Hash_less [OF t, of h key], of key 0, folded cs_Get_def]
  show ?thesis
  proof (cases "cs_Get h s key")
    case (Found w)
    then have "put_probe ?t key ?i 0 = AlreadyThere" using pg by simp
    moreover have "key \<in> fst ` contents s" using Get_correct [OF inv, of key w] Found by force
    ultimately show ?thesis by (simp add: cs_Put_def)
  next
    case Missing
    then obtain j where j: "passed ?t key ?i j" "slot_at ?t ?i j = Empty"
        and r: "put_probe ?t key ?i 0 = Inserted ((?i + j) mod length ?t)"
      using pg by blast
    have "j < length ?t"
    proof (rule ccontr)
      assume "\<not> j < length ?t"
      then obtain m where m: "j = length ?t + m" using le_Suc_ex not_less by blast
      have "slot_at ?t ?i m = slot_at ?t ?i j" by (simp add: m slot_at_def add.left_commute)
      moreover have "m < j" using m t by simp
      ultimately show False using j by (auto simp: passed_def)
    qed
    moreover have "chain ?t ?i j" using j(1) by (auto simp: chain_def passed_def)
    ultimately show ?thesis
      using r j(2) t Get_correct [OF inv, of key] Missing by (auto simp: cs_Put_def slot_at_def)
  next
    case SeesRedirect
    then show ?thesis using pg by (simp add: cs_Put_def)
  next
    case ProbesTooLong
    then show ?thesis using pg by (simp add: cs_Put_def)
  qed
qed

lemma nodes_set:
  "p < length t \<Longrightarrow> t ! p = Empty \<Longrightarrow> nodes (t[p := Node k v]) = insert (k, v) (nodes t)"
  unfolding nodes_def by (auto simp: in_set_conv_nth nth_list_update) (metis slot.distinct(1))+

lemma reaches_update:
  assumes "reaches h t k x" "p < length t" "y \<noteq> Empty" "t ! p \<noteq> x"
  shows "reaches h (t[p := y]) k x"
proof -
  obtain j where j: "j < length t" "slot_at t (Hash h k (length t)) j = x" "chain t (Hash h k (length t)) j"
    using assms(1) by (auto simp: reaches_def)
  have "(Hash h k (length t) + j) mod length t \<noteq> p" using j(2) assms(4) by (auto simp: slot_at_def)
  then show ?thesis
    using j assms(2,3) chain_update [OF assms(2,3) j(3)] unfolding reaches_def
    by (intro exI [of _ j]) (simp add: slot_at_update)
qed

lemma keys_once_update:
  "keys_once t \<Longrightarrow> (\<And>k v w q. x = Node k v \<Longrightarrow> q < length t \<Longrightarrow> t ! q \<noteq> Node k w) \<Longrightarrow> keys_once (t[p := x])"
  unfolding keys_once_def
proof (intro allI impI, goal_cases)
  case (1 a q k v w)
  then show ?case by (cases "a = p"; cases "q = p") auto
qed

lemma not_in_nodes: "k \<notin> fst ` nodes t \<Longrightarrow> q < length t \<Longrightarrow> t ! q \<noteq> Node k w"
  by (force simp: nodes_def in_set_conv_nth)

lemma table_ok_insert:
  assumes ok: "table_ok h t" and p: "p < length t" "t ! p = Empty"
    and j: "j < length t" "(Hash h k (length t) + j) mod length t = p" "chain t (Hash h k (length t)) j"
    and fresh: "k \<notin> fst ` nodes t"
  shows "table_ok h (t[p := Node k v])"
proof -
  have "reaches h (t[p := Node k v]) k (Node k v)"
    using j p(1) chain_update [OF p(1) _ j(3)] unfolding reaches_def by (intro exI [of _ j]) (simp add: slot_at_update)
  moreover have "reaches h (t[p := Node k v]) k' (Node k' v')" if "(k', v') \<in> nodes t" for k' v'
    using ok that p by (intro reaches_update) (auto simp: table_ok_def)
  moreover have "keys_once (t[p := Node k v])"
    using ok not_in_nodes [OF fresh] by (intro keys_once_update) (auto simp: table_ok_def)
  moreover have "t \<noteq> []" using p by auto
  ultimately show ?thesis unfolding table_ok_def nodes_set [OF p] by auto
qed

lemma Put_inv:
  assumes inv: "cset_inv h s" and put: "cs_Put h s key v = (Inserted p, s')"
  shows "cset_inv h s' \<and> contents s' = insert (key, v) (contents s)"
proof -
  let ?t = "cs_table s"
  have fresh: "key \<notin> fst ` contents s" and p: "p < length ?t" "?t ! p = Empty"
      and s': "s' = s\<lparr>cs_table := ?t[p := Node key v], cs_populated_count := cs_populated_count s + 1\<rparr>"
    using Put_result [OF inv, of key v] put by auto
  obtain j where j: "j < length ?t" "(Hash h key (length ?t) + j) mod length ?t = p" "chain ?t (Hash h key (length ?t)) j"
    using Put_result [OF inv, of key v] put by auto
  have fresh_t: "key \<notin> fst ` nodes ?t" using fresh by (auto simp: contents_def)
  have ok: "table_ok h (?t[p := Node key v])"
    using table_ok_insert [OF _ p j fresh_t] inv by (simp add: cset_inv_def)
  have nodes: "nodes (?t[p := Node key v]) = insert (key, v) (nodes ?t)" by (rule nodes_set [OF p])
  have "cset_inv h s'"
  proof (cases "cs_rehash s")
    case None
    then show ?thesis using inv ok p set_update_subset_insert [of ?t p "Node key v"] by (auto simp: cset_inv_def s')
  next
    case (Some r)
    obtain nt i where r: "r = (nt, i)" by (cases r)
    have i: "\<not> p < i" "\<forall>q<length ?t. ?t ! q = Redirected \<longleftrightarrow> q < i"
      using inv p Some r by (auto simp: cset_inv_def)
    have red: "\<forall>q<length ?t. ?t[p := Node key v] ! q = Redirected \<longleftrightarrow> q < i"
      using i by (auto simp: nth_list_update [OF p(1)])
    have "\<forall>(k, w)\<in>nodes nt. reaches h (?t[p := Node key v]) k Redirected"
      using inv Some r p by (auto simp: cset_inv_def intro!: reaches_update)
    moreover have "key \<notin> fst ` nodes nt" using fresh Some r by (auto simp: contents_def)
    ultimately show ?thesis using inv ok red Some r unfolding cset_inv_def s' by (simp add: nodes)
  qed
  moreover have "contents s' = insert (key, v) (contents s)"
    by (auto simp: contents_def s' nodes split: option.splits)
  ultimately show ?thesis ..
qed

lemma rehash_probe_room:
  assumes "t \<noteq> []" "length (filter (\<lambda>x. x \<noteq> Empty) t) < length t" "i < length t"
  shows "\<exists>p j. rehash_probe t i (length t) = Some p \<and> j < length t \<and> (i + j) mod length t = p \<and> t ! p = Empty \<and> chain t i j"
proof (cases "rehash_probe t i (length t)")
  case None
  then have c: "chain t i (length t)" using rehash_probe_spec [OF assms(3), of "length t"] by simp
  have "t ! q \<noteq> Empty" if q: "q < length t" for q
  proof -
    have "(i + (q + length t - i) mod length t) mod length t = q"
      using q assms(3) by (simp add: mod_add_right_eq)
    moreover have "(q + length t - i) mod length t < length t" using assms(1) by simp
    ultimately show ?thesis using c unfolding chain_def slot_at_def by metis
  qed
  then have "filter (\<lambda>x. x \<noteq> Empty) t = t" by (auto simp: filter_id_conv in_set_conv_nth)
  then show ?thesis using assms(2) by simp
next
  case (Some p)
  then show ?thesis using rehash_probe_spec [OF assms(3), of "length t"] by auto
qed

lemma in_nodes_iff: "(a, b) \<in> nodes t \<longleftrightarrow> (\<exists>q<length t. t ! q = Node a b)"
  by (auto simp: nodes_def in_set_conv_nth)

lemma nodes_redirect:
  assumes "keys_once t" "p < length t"
  shows "nodes (t[p := Redirected]) = (case t ! p of Node k v \<Rightarrow> nodes t - {(k, v)} | _ \<Rightarrow> nodes t)"
proof -
  have n: "(a, b) \<in> nodes (t[p := Redirected]) \<longleftrightarrow> (\<exists>q<length t. q \<noteq> p \<and> t ! q = Node a b)" for a b
    unfolding in_nodes_iff using assms(2) by (auto simp: nth_list_update)
  show ?thesis
  proof (cases "t ! p")
    case (Node k v)
    have "(\<exists>q<length t. q \<noteq> p \<and> t ! q = Node a b) \<longleftrightarrow> (\<exists>q<length t. t ! q = Node a b) \<and> (a, b) \<noteq> (k, v)" for a b
      using assms Node unfolding keys_once_def by (metis prod.inject slot.inject)
    then show ?thesis using Node n by (auto simp: in_nodes_iff)
  next
    case Empty
    then have "(\<exists>q<length t. q \<noteq> p \<and> t ! q = Node a b) \<longleftrightarrow> (\<exists>q<length t. t ! q = Node a b)" for a b by force
    then show ?thesis using Empty n by (auto simp: in_nodes_iff)
  next
    case Redirected
    then have "(\<exists>q<length t. q \<noteq> p \<and> t ! q = Node a b) \<longleftrightarrow> (\<exists>q<length t. t ! q = Node a b)" for a b by force
    then show ?thesis using Redirected n by (auto simp: in_nodes_iff)
  qed
qed

lemma table_ok_redirect:
  assumes ok: "table_ok h t" and p: "p < length t"
  shows "table_ok h (t[p := Redirected])"
proof -
  have once: "keys_once t" using ok by (simp add: table_ok_def)
  have "reaches h (t[p := Redirected]) k (Node k v)" if "(k, v) \<in> nodes (t[p := Redirected])" for k v
  proof -
    have "(k, v) \<in> nodes t \<and> t ! p \<noteq> Node k v"
      using that nodes_redirect [OF once p] by (cases "t ! p") auto
    then show ?thesis using ok p by (intro reaches_update) (auto simp: table_ok_def)
  qed
  moreover have "keys_once (t[p := Redirected])" by (rule keys_once_update [OF once]) simp
  ultimately show ?thesis using p by (auto simp: table_ok_def)
qed

lemma reaches_moved:
  assumes ok: "table_ok h t" and p: "p < length t" "t ! p = Node k v"
  shows "reaches h (t[p := Redirected]) k Redirected"
proof -
  have "(k, v) \<in> nodes t" using p by (auto simp: nodes_def in_set_conv_nth)
  then obtain j where j: "j < length t" "slot_at t (Hash h k (length t)) j = Node k v" "chain t (Hash h k (length t)) j"
    using ok by (auto simp: table_ok_def reaches_def)
  have "(Hash h k (length t) + j) mod length t = p"
    using ok p j(1,2) unfolding table_ok_def keys_once_def slot_at_def
    by (metis mod_less_divisor length_greater_0_conv)
  then show ?thesis
    using j p chain_update [OF p(1) _ j(3), of Redirected] unfolding reaches_def
    by (intro exI [of _ j]) (simp add: slot_at_update)
qed

lemma filter_Empty_update:
  "p < length t \<Longrightarrow> length (filter (\<lambda>x. x \<noteq> Empty) (t[p := y])) \<le> Suc (length (filter (\<lambda>x. x \<noteq> Empty) t))"
proof (induction t arbitrary: p)
  case (Cons x t)
  then show ?case by (cases p) auto
qed simp

lemma rehash_bucket_inv:
  assumes inv: "cset_inv h s" and r: "cs_rehash s = Some (nt, i)" and i: "i < length (cs_table s)"
  shows "\<exists>s'. rehash_bucket h s nt i = Some s' \<and> cset_inv h s' \<and> contents s' = contents s"
proof -
  let ?t = "cs_table s"
  have t: "table_ok h ?t" "length nt = length ?t * 2" "table_ok h nt" "Redirected \<notin> set nt"
      "\<And>p. p < length ?t \<Longrightarrow> ?t ! p = Redirected \<longleftrightarrow> p < i" "length (filter (\<lambda>x. x \<noteq> Empty) nt) \<le> i"
      "fst ` nodes ?t \<inter> fst ` nodes nt = {}" "\<And>k v. (k, v) \<in> nodes nt \<Longrightarrow> reaches h ?t k Redirected"
    using inv r by (auto simp: cset_inv_def)
  have once: "keys_once ?t" using t(1) by (simp add: table_ok_def)
  have red: "?t[i := Redirected] ! p = Redirected \<longleftrightarrow> p < Suc i" if "p < length ?t" for p
    using t(5) [OF that] i that by (auto simp: nth_list_update less_Suc_eq)
  have keep: "reaches h (?t[i := Redirected]) k Redirected" if "(k, v) \<in> nodes nt" for k v
    using t(5) [OF i] by (intro reaches_update [OF t(8) [OF that] i]) auto
  have ok: "table_ok h (?t[i := Redirected])" by (rule table_ok_redirect [OF t(1) i])
  have same: "cset_inv h s' \<and> contents s' = contents s"
    if "nodes (?t[i := Redirected]) = nodes ?t" "s' = s\<lparr>cs_table := ?t[i := Redirected], cs_rehash := Some (nt, Suc i)\<rparr>" for s'
    using that(1) ok t(2-4,6,7) i red keep r unfolding cset_inv_def contents_def that(2) by auto
  show ?thesis
  proof (cases "?t ! i")
    case (Node k v)
    have kt: "(k, v) \<in> nodes ?t" using Node i by (auto simp: nodes_def in_set_conv_nth)
    have fresh: "k \<notin> fst ` nodes nt" using t(7) kt by force
    have nt: "nt \<noteq> []" using t(3) by (simp add: table_ok_def)
    obtain p j where p: "rehash_probe nt (Hash h k (length nt)) (length nt) = Some p"
        and j: "j < length nt" "(Hash h k (length nt) + j) mod length nt = p" "nt ! p = Empty" "chain nt (Hash h k (length nt)) j"
      using rehash_probe_room [OF nt _ Hash_less [OF nt]] t(2,6) i by fastforce
    have pl: "p < length nt" using j(2) nt by auto
    have nodes_nt: "nodes (nt[p := Node k v]) = insert (k, v) (nodes nt)" by (rule nodes_set [OF pl j(3)])
    have nodes_t: "nodes (?t[i := Redirected]) = nodes ?t - {(k, v)}" using nodes_redirect [OF once i] Node by simp
    have "w = v" if "(k, w) \<in> nodes ?t" for w
      using once Node i that unfolding keys_once_def in_nodes_iff by (metis slot.inject)
    then have kn: "k \<notin> fst ` (nodes ?t - {(k, v)})" by force
    define s' where "s' = s\<lparr>cs_table := ?t[i := Redirected], cs_rehash := Some (nt[p := Node k v], i + 1)\<rparr>"
    have "rehash_bucket h s nt i = Some s'" using Node p by (simp add: rehash_bucket_def s'_def)
    moreover have "fst ` (nodes ?t - {(k, v)}) \<inter> fst ` insert (k, v) (nodes nt) = {}"
      using t(7) kn by (simp add: disjoint_iff) blast
    moreover have "Redirected \<notin> set (nt[p := Node k v])"
      using t(4) set_update_subset_insert [of nt p "Node k v"] by auto
    moreover have "\<forall>(k', w)\<in>insert (k, v) (nodes nt). reaches h (?t[i := Redirected]) k' Redirected"
      using keep reaches_moved [OF t(1) i Node] by auto
    ultimately have "rehash_bucket h s nt i = Some s'" "cset_inv h s'"
      using ok t(2,6) table_ok_insert [OF t(3) pl j(3) j(1,2,4) fresh, of v] i red
        filter_Empty_update [OF pl, of "Node k v"]
      unfolding cset_inv_def s'_def by (simp_all add: nodes_nt nodes_t)
    moreover have "contents s' = contents s" using r kt by (auto simp: contents_def s'_def nodes_nt nodes_t)
    ultimately show ?thesis by blast
  next
    case Empty
    then have "nodes (?t[i := Redirected]) = nodes ?t" using nodes_redirect [OF once i] by simp
    then show ?thesis using same Empty by (simp add: rehash_bucket_def)
  next
    case Redirected
    then show ?thesis using t(5) [OF i] by simp
  qed
qed

lemma rehash_begin_inv:
  assumes "cset_inv h s" "cs_rehash s = None"
  shows "cset_inv h (rehash_begin s) \<and> contents (rehash_begin s) = contents s"
proof -
  have n: "nodes (replicate m Empty) = {}" for m by (auto simp: nodes_def)
  have "cs_table s \<noteq> []" "Redirected \<notin> set (cs_table s)" using assms by (auto simp: cset_inv_def table_ok_def)
  then show ?thesis
    using assms by (auto simp: cset_inv_def rehash_begin_def contents_def table_ok_def keys_once_def n in_set_conv_nth)
qed

lemma rehash_end_inv:
  assumes "cset_inv h s" "cs_rehash s = Some (nt, i)" "i = length (cs_table s)"
  shows "cset_inv h (rehash_end s nt) \<and> contents (rehash_end s nt) = contents s"
proof -
  have "cs_table s ! p = Redirected" if "p < length (cs_table s)" for p
    using assms that by (auto simp: cset_inv_def)
  then have "nodes (cs_table s) = {}" by (auto simp: nodes_def in_set_conv_nth)
  then show ?thesis using assms by (auto simp: cset_inv_def rehash_end_def contents_def)
qed

lemma cset_inv_new: "cset_inv h concurrent_set_new"
  by (auto simp: cset_inv_def concurrent_set_new_def table_ok_def nodes_def InitialTableSize_def keys_once_def)

lemma cset_inv_step:
  assumes "cset_inv h s" "cs_step h s s'"
  shows "cset_inv h s'"
  using assms(2)
proof cases
  case (put key v)
  then show ?thesis
    using assms(1) Put_inv [of h s key v] Put_result [of h s key v]
    by (cases "cs_Put h s key v"; cases "fst (cs_Put h s key v)") auto
qed (use assms(1) rehash_begin_inv rehash_bucket_inv rehash_end_inv in fastforce)+

interpretation cs: inv_system "\<lambda>s. s = concurrent_set_new" "cs_step h" "cset_inv h" for h
  using cset_inv_new cset_inv_step by unfold_locales auto

lemma contents_functional: "cset_inv h s \<Longrightarrow> (k, v) \<in> contents s \<Longrightarrow> (k, w) \<in> contents s \<Longrightarrow> v = w"
proof -
  have once: "v = w" if "table_ok h t" "(k, v) \<in> nodes t" "(k, w) \<in> nodes t" for t :: "'a slot list"
    using that unfolding table_ok_def keys_once_def in_nodes_iff by (metis slot.inject)
  assume inv: "cset_inv h s" and "(k, v) \<in> contents s" "(k, w) \<in> contents s"
  then show "v = w"
    using once [of "cs_table s"] once [of "fst (the (cs_rehash s))"]
    by (auto simp: cset_inv_def contents_def disjoint_iff image_iff split: option.splits) force+
qed

lemma rehash_buckets_total:
  assumes "cset_inv h s" "cs_rehash s = Some (nt, i)" "i + n = length (cs_table s)"
  shows "\<exists>s' nt'. rehash_buckets h s [i..<i + n] = Some s' \<and> cset_inv h s' \<and> contents s' = contents s \<and>
    cs_rehash s' = Some (nt', i + n) \<and> length (cs_table s') = length (cs_table s)"
  using assms
proof (induction n arbitrary: s nt i)
  case (Suc n)
  obtain s1 where s1: "rehash_bucket h s nt i = Some s1" "cset_inv h s1" "contents s1 = contents s"
    using rehash_bucket_inv [OF Suc.prems(1,2)] Suc.prems(3) by auto
  obtain nt1 where r1: "cs_rehash s1 = Some (nt1, i + 1)" "length (cs_table s1) = length (cs_table s)"
    using s1(1) by (auto simp: rehash_bucket_def split: slot.splits option.splits)
  obtain s2 nt2 where "rehash_buckets h s1 [i + 1..<i + 1 + n] = Some s2" "cset_inv h s2" "contents s2 = contents s1"
      "cs_rehash s2 = Some (nt2, i + 1 + n)" "length (cs_table s2) = length (cs_table s1)"
    using Suc.IH [OF s1(2) r1(1)] Suc.prems(3) r1(2) by auto
  moreover have "[i..<i + Suc n] = i # [i + 1..<i + 1 + n]" by (simp add: upt_rec)
  ultimately show ?case using Suc.prems(2) s1 r1 by simp
qed simp

section \<open>Properties\<close>



text \<open>C35. \<open>Rehash\<close> terminates and loses nothing. From every reachable state in which none is under way, the probe
  for each moved node finds a free bucket, and the rehash ends with a table of twice the size that holds
  the same pairs and no redirect.\<close>

theorem Rehash_terminates:
  assumes "(cs_step h)\<^sup>*\<^sup>* concurrent_set_new s" "cs_rehash s = None"
  shows "\<exists>s'. Rehash h s = Some s' \<and> contents s' = contents s \<and> length (cs_table s') = 2 * length (cs_table s) \<and>
    cs_rehash s' = None \<and> Redirected \<notin> set (cs_table s')"
proof -
  have inv: "cset_inv h s" using cs.inv_reachable [OF refl assms(1)] .
  note b = rehash_begin_inv [OF inv assms(2)]
  have r: "cs_rehash (rehash_begin s) = Some (replicate (length (cs_table s) * 2) Empty, 0)"
      "cs_table (rehash_begin s) = cs_table s"
    by (simp_all add: rehash_begin_def)
  obtain s1 nt where s1: "rehash_buckets h (rehash_begin s) [0..<length (cs_table s)] = Some s1" "cset_inv h s1"
      "contents s1 = contents s" "cs_rehash s1 = Some (nt, length (cs_table s))" "length (cs_table s1) = length (cs_table s)"
    using rehash_buckets_total [OF conjunct1 [OF b] r(1), of "length (cs_table s)"] b r by auto
  have e: "cset_inv h (rehash_end s1 nt)" "contents (rehash_end s1 nt) = contents s1"
    using rehash_end_inv [OF s1(2,4)] s1(5) by auto
  moreover have "length nt = 2 * length (cs_table s)" using s1 by (simp add: cset_inv_def)
  ultimately show ?thesis using s1 by (auto simp: Rehash_def rehash_end_def cset_inv_def)
qed

theorem Rehash_terminates_witness:
  "\<exists>s'. Rehash (\<lambda>_. 0) (concurrent_set_new :: bool concurrent_set) = Some s' \<and> length (cs_table s') = 8192"
  using Rehash_terminates [of "\<lambda>_. 0" "concurrent_set_new :: bool concurrent_set"]
  by (auto simp: concurrent_set_new_def InitialTableSize_def)

end
