(* ===== verification/PrecisionLocking.thy ===== *)
theory PrecisionLocking
  imports LdbPrelude "HOL-Library.List_Lexorder"
begin

text \<open>
  The range index with precision locking (\<^verbatim>\<open>src/index/precision_locking_index/range_index\<close>): a sorted
  container that a manager thread updates once per epoch, the updates that wait for it (L_u), and the
  predicates of the scans (L_p) they are checked against. Every operation runs under the two
  locks of the index, so a step of the model is a whole operation. A \<open>std::map\<close> is the list of its
  entries in key order. The transaction context is \<open>None\<close> for the null pointer.
\<close>

section \<open>State\<close>

type_synonym tx_context = "nat option"

record predicate =
  pr_begin :: bytes
  pr_end :: "bytes option"
  pr_tx :: tx_context

record index_event =
  ev_key :: bytes
  ev_is_delete :: bool
  ev_tx :: tx_context

record range_index =
  rx_predicate_list :: "(epoch_number \<times> predicate list) list"
  rx_key_set :: "(epoch_number \<times> index_event list) list"
  rx_container :: "(bytes \<times> bool) list"
  rx_last_processed :: epoch_number

definition range_new :: range_index where
  "range_new = \<lparr>rx_predicate_list = [], rx_key_set = [], rx_container = [], rx_last_processed = 0\<rparr>"

text \<open>\<open>m[epoch].emplace_back(x)\<close> and \<open>container_[key].is_deleted = d\<close>.\<close>

fun epoch_push :: "(epoch_number \<times> 'a list) list \<Rightarrow> epoch_number \<Rightarrow> 'a \<Rightarrow> (epoch_number \<times> 'a list) list" where
  "epoch_push [] e x = [(e, [x])]"
| "epoch_push ((e', xs) # m) e x =
     (if e = e' then (e', xs @ [x]) # m
      else if e < e' then (e, [x]) # (e', xs) # m
      else (e', xs) # epoch_push m e x)"

fun container_set :: "(bytes \<times> bool) list \<Rightarrow> bytes \<Rightarrow> bool \<Rightarrow> (bytes \<times> bool) list" where
  "container_set [] k d = [(k, d)]"
| "container_set ((k', d') # m) k d =
     (if k = k' then (k, d) # m
      else if k < k' then (k, d) # (k', d') # m
      else (k', d') # container_set m k d)"

section \<open>Operations\<close>

definition in_range :: "bytes \<Rightarrow> bytes option \<Rightarrow> bytes \<Rightarrow> bool" where
  "in_range b e k \<longleftrightarrow> b \<le> k \<and> (case e of None \<Rightarrow> True | Some u \<Rightarrow> k < u)"

definition IsInPredicateSet :: "range_index \<Rightarrow> tx_context \<Rightarrow> bytes \<Rightarrow> bool" where
  "IsInPredicateSet s tx key \<longleftrightarrow>
     list_ex (\<lambda>p. \<not> (tx \<noteq> None \<and> pr_tx p = tx) \<and> in_range (pr_begin p) (pr_end p) key)
       (concat (map snd (rx_predicate_list s)))"

definition IsOverlapWithInsertOrDelete :: "range_index \<Rightarrow> tx_context \<Rightarrow> bytes \<Rightarrow> bytes option \<Rightarrow> bool" where
  "IsOverlapWithInsertOrDelete s tx b e \<longleftrightarrow>
     list_ex (\<lambda>ev. \<not> (tx \<noteq> None \<and> ev_tx ev = tx) \<and> in_range b e (ev_key ev)) (concat (map snd (rx_key_set s)))"

text \<open>The entries from \<open>lower_bound(begin)\<close> up to \<open>lower_bound(end)\<close>, and the loop over them. The callback
  carries a state of its own and answers whether to stop.\<close>

definition range_entries :: "(bytes \<times> bool) list \<Rightarrow> bytes \<Rightarrow> bytes option \<Rightarrow> (bytes \<times> bool) list" where
  "range_entries m b e =
     (let from_begin = dropWhile (\<lambda>x. fst x < b) m
      in case e of None \<Rightarrow> from_begin | Some u \<Rightarrow> takeWhile (\<lambda>x. fst x < u) from_begin)"

fun visit_entries :: "(bytes \<Rightarrow> 'a \<Rightarrow> bool \<times> 'a) \<Rightarrow> (bytes \<times> bool) list \<Rightarrow> nat \<Rightarrow> 'a \<Rightarrow> nat \<times> 'a" where
  "visit_entries operation [] hit a = (hit, a)"
| "visit_entries operation ((k, is_deleted) # m) hit a =
     (if is_deleted then visit_entries operation m hit a
      else case operation k a of
             (True, a') \<Rightarrow> (hit + 1, a')
           | (False, a') \<Rightarrow> visit_entries operation m (hit + 1) a')"

definition push_predicate :: "range_index \<Rightarrow> tx_context \<Rightarrow> epoch_number \<Rightarrow> bytes \<Rightarrow> bytes option \<Rightarrow> range_index" where
  "push_predicate s tx epoch b e =
     s\<lparr>rx_predicate_list := epoch_push (rx_predicate_list s) epoch \<lparr>pr_begin = b, pr_end = e, pr_tx = tx\<rparr>\<rparr>"

definition range_Scan ::
  "range_index \<Rightarrow> tx_context \<Rightarrow> epoch_number \<Rightarrow> bytes \<Rightarrow> bytes option \<Rightarrow> (bytes \<Rightarrow> 'a \<Rightarrow> bool \<times> 'a) \<Rightarrow> 'a \<Rightarrow>
   nat option \<times> 'a \<times> range_index" where
  "range_Scan s tx epoch b e operation a =
     (if (case e of None \<Rightarrow> False | Some u \<Rightarrow> u < b) then (None, a, s)
      else if IsOverlapWithInsertOrDelete s tx b e then (None, a, s)
      else case visit_entries operation (range_entries (rx_container s) b e) 0 a of
             (hit, a') \<Rightarrow> (Some hit, a', push_predicate s tx epoch b e))"

definition range_ScanReverse ::
  "range_index \<Rightarrow> tx_context \<Rightarrow> epoch_number \<Rightarrow> bytes \<Rightarrow> bytes option \<Rightarrow> (bytes \<Rightarrow> 'a \<Rightarrow> bool \<times> 'a) \<Rightarrow> 'a \<Rightarrow>
   nat option \<times> 'a \<times> range_index" where
  "range_ScanReverse s tx epoch b e operation a =
     (if (case e of None \<Rightarrow> False | Some u \<Rightarrow> u < b) then (None, a, s)
      else if IsOverlapWithInsertOrDelete s tx b e then (None, a, s)
      else case visit_entries operation (rev (range_entries (rx_container s) b e)) 0 a of
             (hit, a') \<Rightarrow> (Some hit, a', push_predicate s tx epoch b e))"

definition push_event :: "range_index \<Rightarrow> tx_context \<Rightarrow> epoch_number \<Rightarrow> bytes \<Rightarrow> bool \<Rightarrow> range_index" where
  "push_event s tx epoch key d =
     s\<lparr>rx_key_set := epoch_push (rx_key_set s) epoch \<lparr>ev_key = key, ev_is_delete = d, ev_tx = tx\<rparr>\<rparr>"

definition range_Insert :: "range_index \<Rightarrow> tx_context \<Rightarrow> epoch_number \<Rightarrow> bytes \<Rightarrow> bool \<times> range_index" where
  "range_Insert s tx epoch key =
     (if IsInPredicateSet s tx key then (False, s) else (True, push_event s tx epoch key False))"

definition range_ForceInsert :: "range_index \<Rightarrow> tx_context \<Rightarrow> epoch_number \<Rightarrow> bytes \<Rightarrow> range_index" where
  "range_ForceInsert s tx epoch key = push_event s tx epoch key False"

definition range_Delete :: "range_index \<Rightarrow> tx_context \<Rightarrow> epoch_number \<Rightarrow> bytes \<Rightarrow> bool \<times> range_index" where
  "range_Delete s tx epoch key =
     (if IsInPredicateSet s tx key then (False, s) else (True, push_event s tx epoch key True))"

definition range_Contains :: "range_index \<Rightarrow> bytes \<Rightarrow> bool" where
  "range_Contains s key = (case map_of (rx_container s) key of None \<Rightarrow> False | Some d \<Rightarrow> \<not> d)"

text \<open>One round of the manager, which has just synchronised at a global epoch.\<close>

definition apply_event :: "(bytes \<times> bool) list \<Rightarrow> index_event \<Rightarrow> (bytes \<times> bool) list" where
  "apply_event m ev = container_set m (ev_key ev) (ev_is_delete ev)"

definition manager_round :: "range_index \<Rightarrow> epoch_number \<Rightarrow> range_index" where
  "manager_round s global =
     (let stable_epoch = global - 2;
          s' = s\<lparr>rx_predicate_list := dropWhile (\<lambda>p. fst p \<le> stable_epoch) (rx_predicate_list s)\<rparr>;
          old = takeWhile (\<lambda>p. fst p \<le> stable_epoch) (rx_key_set s)
      in if old = [] then s'
         else s'\<lparr>rx_container := foldl apply_event (rx_container s) (concat (map snd old)),
                 rx_key_set := dropWhile (\<lambda>p. fst p \<le> stable_epoch) (rx_key_set s),
                 rx_last_processed := stable_epoch\<rparr>)"

text \<open>The condition \<open>WaitForIndexIsLinearizable\<close> waits for.\<close>

definition index_is_linearizable :: "range_index \<Rightarrow> epoch_number \<Rightarrow> bool" where
  "index_is_linearizable s target_epoch \<longleftrightarrow> rx_last_processed s \<ge> target_epoch - 2"

section \<open>Maps by epoch\<close>

definition epoch_items :: "(epoch_number \<times> 'a list) list \<Rightarrow> (epoch_number \<times> 'a) set" where
  "epoch_items m = {(e, x). \<exists>xs. (e, xs) \<in> set m \<and> x \<in> set xs}"

definition map_sorted :: "('k::linorder \<times> 'v) list \<Rightarrow> bool" where
  "map_sorted m \<longleftrightarrow> sorted_wrt (<) (map fst m)"

lemma map_sorted_simps [simp]:
  "map_sorted []" "map_sorted (x # m) \<longleftrightarrow> (\<forall>y\<in>set m. fst x < fst y) \<and> map_sorted m"
  by (auto simp: map_sorted_def)

lemma map_sorted_Cons: "map_sorted (x # m) \<longleftrightarrow> (\<forall>k\<in>fst ` set m. fst x < k) \<and> map_sorted m"
  by simp

lemma epoch_items_simps [simp]:
  "epoch_items [] = {}" "epoch_items (p # m) = (\<lambda>x. (fst p, x)) ` set (snd p) \<union> epoch_items m"
  by (cases p; auto simp: epoch_items_def)+

lemma items_iff: "x \<in> set (concat (map snd m)) \<longleftrightarrow> (\<exists>e. (e, x) \<in> epoch_items m)"
  by (induction m) auto

lemma epoch_items_push [simp]: "epoch_items (epoch_push m e x) = insert (e, x) (epoch_items m)"
  by (induction m e x rule: epoch_push.induct) auto

lemma epoch_push_keys: "fst ` set (epoch_push m e x) = insert e (fst ` set m)"
  by (induction m e x rule: epoch_push.induct) auto

lemma epoch_push_sorted: "map_sorted m \<Longrightarrow> map_sorted (epoch_push m e x)"
proof (induction m e x rule: epoch_push.induct)
  case (2 e' xs m e x)
  have "e' < e \<Longrightarrow> map_sorted (epoch_push m e x) \<Longrightarrow> map_sorted ((e', xs) # epoch_push m e x)"
    using 2(2) unfolding map_sorted_Cons epoch_push_keys by simp
  then show ?case using 2 by (auto intro: less_trans)
qed simp

lemma dropWhile_epochs:
  "map_sorted m \<Longrightarrow> epoch_items (dropWhile (\<lambda>p. fst p \<le> t) m) = {p \<in> epoch_items m. t < fst p}"
proof (induction m)
  case (Cons p m)
  show ?case
  proof (cases "fst p \<le> t")
    case False
    then have "t < fst q" if "q \<in> epoch_items m" for q
      using Cons.prems that by (fastforce simp: epoch_items_def)
    then show ?thesis using False by auto
  qed (use Cons in auto)
qed simp

lemma takeWhile_epochs: "epoch_items (takeWhile (\<lambda>p. fst p \<le> t) m) \<subseteq> {p \<in> epoch_items m. fst p \<le> t}"
  by (induction m) auto

lemma map_sorted_dropWhile: "map_sorted m \<Longrightarrow> map_sorted (dropWhile P m)"
  by (induction m) auto

section \<open>The container\<close>

lemma container_set_keys: "fst ` set (container_set m k d) = insert k (fst ` set m)"
  by (induction m k d rule: container_set.induct) auto

lemma container_set_sorted: "map_sorted m \<Longrightarrow> map_sorted (container_set m k d)"
proof (induction m k d rule: container_set.induct)
  case (2 k' d' m k d)
  have "k' < k \<Longrightarrow> map_sorted (container_set m k d) \<Longrightarrow> map_sorted ((k', d') # container_set m k d)"
    using 2(2) unfolding map_sorted_Cons container_set_keys by simp
  then show ?case using 2 by (auto intro: less_trans)
qed simp

lemma container_set_map: "map_sorted m \<Longrightarrow> map_of (container_set m k d) = (map_of m)(k \<mapsto> d)"
  by (induction m k d rule: container_set.induct) auto

lemma container_set_filter:
  "\<not> P k \<Longrightarrow> filter (\<lambda>x. P (fst x)) (container_set m k d) = filter (\<lambda>x. P (fst x)) m"
  by (induction m k d rule: container_set.induct) auto

lemma apply_events_sorted: "map_sorted m \<Longrightarrow> map_sorted (foldl apply_event m evs)"
  by (induction evs arbitrary: m) (auto simp: apply_event_def container_set_sorted)

lemma apply_events_filter:
  "\<forall>ev\<in>set evs. \<not> P (ev_key ev) \<Longrightarrow>
   filter (\<lambda>x. P (fst x)) (foldl apply_event m evs) = filter (\<lambda>x. P (fst x)) m"
  by (induction evs arbitrary: m) (auto simp: apply_event_def container_set_filter)

lemma dropWhile_sorted_filter: "map_sorted m \<Longrightarrow> dropWhile (\<lambda>x. fst x < b) m = filter (\<lambda>x. b \<le> fst x) m"
proof (induction m)
  case (Cons x m)
  then have "b \<le> fst x \<Longrightarrow> filter (\<lambda>y. b \<le> fst y) m = m"
    by (force simp: filter_id_conv)
  then show ?case using Cons by auto
qed simp

lemma takeWhile_sorted_filter: "map_sorted m \<Longrightarrow> takeWhile (\<lambda>x. fst x < u) m = filter (\<lambda>x. fst x < u) m"
proof (induction m)
  case (Cons x m)
  then have "\<not> fst x < u \<Longrightarrow> filter (\<lambda>y. fst y < u) m = []"
    by (force simp: filter_empty_conv)
  then show ?case using Cons by auto
qed simp

lemma map_sorted_filter: "map_sorted m \<Longrightarrow> map_sorted (filter P m)"
  by (induction m) auto

lemma range_entries_filter:
  "map_sorted m \<Longrightarrow> range_entries m b e = filter (\<lambda>x. in_range b e (fst x)) m"
  by (cases e) (auto simp: range_entries_def Let_def dropWhile_sorted_filter takeWhile_sorted_filter
      map_sorted_filter in_range_def intro: filter_cong)

section \<open>Phantoms\<close>

text \<open>What a transaction \<open>t\<close> at epoch \<open>ep\<close> may see happen while it runs: checked inserts and deletes and scans of
  anyone, its own updates at its own epoch, and rounds of the manager that do not reach its epoch.\<close>

inductive range_step :: "nat \<Rightarrow> epoch_number \<Rightarrow> range_index \<Rightarrow> range_index \<Rightarrow> bool" for t ep where
  insert: "tx = Some t \<longrightarrow> e = ep \<Longrightarrow> range_step t ep s (snd (range_Insert s tx e key))"
| delete: "tx = Some t \<longrightarrow> e = ep \<Longrightarrow> range_step t ep s (snd (range_Delete s tx e key))"
| scan: "range_Scan s tx e b u operation (a :: bytes list) = (r, a', s') \<Longrightarrow> range_step t ep s s'"
| scan_reverse: "range_ScanReverse s tx e b u operation (a :: bytes list) = (r, a', s') \<Longrightarrow> range_step t ep s s'"
| round: "global - 2 < ep \<Longrightarrow> range_step t ep s (manager_round s global)"

definition maps_sorted :: "range_index \<Rightarrow> bool" where
  "maps_sorted s \<longleftrightarrow> map_sorted (rx_predicate_list s) \<and> map_sorted (rx_key_set s) \<and> map_sorted (rx_container s)"

definition guards ::
  "nat \<Rightarrow> epoch_number \<Rightarrow> bytes \<Rightarrow> bytes option \<Rightarrow> (bytes \<times> bool) list \<Rightarrow> range_index \<Rightarrow> bool" where
  "guards t ep b u entries s \<longleftrightarrow> maps_sorted s \<and>
     (\<exists>e. ep \<le> e \<and> (e, \<lparr>pr_begin = b, pr_end = u, pr_tx = Some t\<rparr>) \<in> epoch_items (rx_predicate_list s)) \<and>
     (\<forall>(e, ev)\<in>epoch_items (rx_key_set s). in_range b u (ev_key ev) \<longrightarrow> ev_tx ev = Some t \<and> ep \<le> e) \<and>
     filter (\<lambda>x. in_range b u (fst x)) (rx_container s) = entries"

lemma maps_sorted_push:
  "maps_sorted s \<Longrightarrow> maps_sorted (push_predicate s tx e b u)"
  "maps_sorted s \<Longrightarrow> maps_sorted (push_event s tx e key d)"
  by (auto simp: maps_sorted_def push_predicate_def push_event_def epoch_push_sorted)

lemma guards_push_event:
  assumes g: "guards t ep b u entries s" and own: "tx = Some t \<longrightarrow> e = ep" and "\<not> IsInPredicateSet s tx key"
  shows "guards t ep b u entries (push_event s tx e key d)"
proof -
  obtain e' where "(e', \<lparr>pr_begin = b, pr_end = u, pr_tx = Some t\<rparr>) \<in> epoch_items (rx_predicate_list s)"
    using g by (auto simp: guards_def)
  then have m: "\<lparr>pr_begin = b, pr_end = u, pr_tx = Some t\<rparr> \<in> set (concat (map snd (rx_predicate_list s)))"
    unfolding items_iff by blast
  have "\<forall>p\<in>set (concat (map snd (rx_predicate_list s))).
      \<not> (\<not> (tx \<noteq> None \<and> pr_tx p = tx) \<and> in_range (pr_begin p) (pr_end p) key)"
    using assms(3) unfolding IsInPredicateSet_def list_ex_iff by blast
  from bspec [OF this m] have "in_range b u key \<Longrightarrow> tx = Some t" by auto
  then have "\<forall>(e', ev)\<in>insert (e, \<lparr>ev_key = key, ev_is_delete = d, ev_tx = tx\<rparr>) (epoch_items (rx_key_set s)).
      in_range b u (ev_key ev) \<longrightarrow> ev_tx ev = Some t \<and> ep \<le> e'"
    using g own by (simp add: guards_def)
  moreover have "maps_sorted (push_event s tx e key d)"
    using g maps_sorted_push(2) by (simp add: guards_def)
  ultimately show ?thesis using g by (simp add: guards_def push_event_def)
qed

lemma guards_push_predicate: "guards t ep b u entries s \<Longrightarrow> guards t ep b u entries (push_predicate s tx e b' u')"
  using maps_sorted_push(1) [of s tx e b' u'] by (auto simp: guards_def push_predicate_def)

lemma guards_round:
  assumes g: "guards t ep b u entries s" and st: "global - 2 < ep"
  shows "guards t ep b u entries (manager_round s global)"
proof -
  have srt: "map_sorted (rx_predicate_list s)" "map_sorted (rx_key_set s)" "map_sorted (rx_container s)"
    using g by (auto simp: guards_def maps_sorted_def)
  let ?old = "takeWhile (\<lambda>p. fst p \<le> global - 2) (rx_key_set s)"
  have out: "\<forall>ev\<in>set (concat (map snd ?old)). \<not> in_range b u (ev_key ev)"
  proof
    fix ev
    assume "ev \<in> set (concat (map snd ?old))"
    then obtain e where "(e, ev) \<in> epoch_items (rx_key_set s)" "e \<le> global - 2"
      using items_iff [of ev ?old] takeWhile_epochs [of "global - 2" "rx_key_set s"] by auto
    then show "\<not> in_range b u (ev_key ev)" using g st by (auto simp: guards_def)
  qed
  have "maps_sorted (manager_round s global)"
    using srt by (auto simp: maps_sorted_def manager_round_def Let_def map_sorted_dropWhile apply_events_sorted)
  then show ?thesis
    using g st apply_events_filter [OF out, of "rx_container s"] srt
    by (auto simp: guards_def manager_round_def Let_def dropWhile_epochs)
qed

lemma guards_step:
  assumes "range_step t ep s s'" "guards t ep b u entries s"
  shows "guards t ep b u entries s'"
  using assms
proof cases
  case (insert tx e key)
  then show ?thesis using assms(2) guards_push_event by (auto simp: range_Insert_def)
next
  case (delete tx e key)
  then show ?thesis using assms(2) guards_push_event by (auto simp: range_Delete_def)
next
  case scan
  then show ?thesis using assms(2) guards_push_predicate
    by (auto simp: range_Scan_def split: if_splits prod.splits)
next
  case scan_reverse
  then show ?thesis using assms(2) guards_push_predicate
    by (auto simp: range_ScanReverse_def split: if_splits prod.splits)
next
  case (round global)
  then show ?thesis using assms(2) guards_round by simp
qed

definition own_events_current :: "nat \<Rightarrow> epoch_number \<Rightarrow> range_index \<Rightarrow> bool" where
  "own_events_current t ep s \<longleftrightarrow> (\<forall>(e, ev)\<in>epoch_items (rx_key_set s). ev_tx ev = Some t \<longrightarrow> ep \<le> e)"

lemma scan_guards:
  assumes "range_Scan s (Some t) ep b u operation a = (Some n, a', s')" "maps_sorted s" "own_events_current t ep s"
  shows "guards t ep b u (filter (\<lambda>x. in_range b u (fst x)) (rx_container s)) s'"
    "visit_entries operation (filter (\<lambda>x. in_range b u (fst x)) (rx_container s)) 0 a = (n, a')"
    "\<not> (case u of None \<Rightarrow> False | Some v \<Rightarrow> v < b)"
proof -
  have r: "\<not> (case u of None \<Rightarrow> False | Some v \<Rightarrow> v < b)" "\<not> IsOverlapWithInsertOrDelete s (Some t) b u"
      "s' = push_predicate s (Some t) ep b u" "visit_entries operation (range_entries (rx_container s) b u) 0 a = (n, a')"
    using assms(1) by (auto simp: range_Scan_def split: if_splits prod.splits)
  have "ev_tx ev = Some t" if "(e, ev) \<in> epoch_items (rx_key_set s)" "in_range b u (ev_key ev)" for e ev
  proof -
    have m: "ev \<in> set (concat (map snd (rx_key_set s)))" using that unfolding items_iff by blast
    have "\<forall>ev\<in>set (concat (map snd (rx_key_set s))). \<not> (\<not> (Some t \<noteq> None \<and> ev_tx ev = Some t) \<and> in_range b u (ev_key ev))"
      using r(2) unfolding IsOverlapWithInsertOrDelete_def list_ex_iff by blast
    from bspec [OF this m] show ?thesis using that by auto
  qed
  then have "\<forall>(e, ev)\<in>epoch_items (rx_key_set s). in_range b u (ev_key ev) \<longrightarrow> ev_tx ev = Some t \<and> ep \<le> e"
    using assms(3) by (fastforce simp: own_events_current_def)
  then show "guards t ep b u (filter (\<lambda>x. in_range b u (fst x)) (rx_container s)) s'"
    using maps_sorted_push(1) [OF assms(2)] unfolding r(3) guards_def
    by (simp add: push_predicate_def) (blast intro: order.refl)
  show "visit_entries operation (filter (\<lambda>x. in_range b u (fst x)) (rx_container s)) 0 a = (n, a')"
    using r(4) assms(2) by (simp add: range_entries_filter maps_sorted_def)
  show "\<not> (case u of None \<Rightarrow> False | Some v \<Rightarrow> v < b)" by (rule r(1))
qed

lemma guards_scan:
  assumes "guards t ep b u entries s" "visit_entries operation entries 0 a = (n, a')"
    "\<not> (case u of None \<Rightarrow> False | Some v \<Rightarrow> v < b)"
  shows "\<exists>s'. range_Scan s (Some t) e b u operation a = (Some n, a', s')"
proof -
  have "ev_tx ev = Some t" if "ev \<in> set (concat (map snd (rx_key_set s)))" "in_range b u (ev_key ev)" for ev
    using assms(1) that unfolding guards_def items_iff by fastforce
  then have "\<not> IsOverlapWithInsertOrDelete s (Some t) b u"
    unfolding IsOverlapWithInsertOrDelete_def list_ex_iff by auto
  moreover have "range_entries (rx_container s) b u = entries"
    using assms(1) by (simp add: guards_def maps_sorted_def range_entries_filter)
  ultimately show ?thesis using assms(2,3) by (auto simp: range_Scan_def)
qed

lemma guards_run: "(range_step t ep)\<^sup>*\<^sup>* s s' \<Longrightarrow> guards t ep b u entries s \<Longrightarrow> guards t ep b u entries s'"
  by (induction rule: rtranclp_induct) (auto intro: guards_step)

section \<open>The index as a set of keys\<close>

text \<open>What the index stands for: the container with every waiting update applied in the order of its epoch.\<close>

definition range_view :: "range_index \<Rightarrow> bytes \<Rightarrow> bool" where
  "range_view s k \<longleftrightarrow>
     map_of (foldl apply_event (rx_container s) (concat (map snd (rx_key_set s)))) k = Some False"

definition last_update :: "index_event list \<Rightarrow> bytes \<Rightarrow> bool option \<Rightarrow> bool option" where
  "last_update evs k d = foldl (\<lambda>d ev. if ev_key ev = k then Some (ev_is_delete ev) else d) d evs"

lemma apply_events_map:
  "map_sorted m \<Longrightarrow> map_of (foldl apply_event m evs) k = last_update evs k (map_of m k)"
  by (induction evs arbitrary: m)
    (auto simp: apply_event_def container_set_sorted container_set_map last_update_def)

lemma last_update_other: "\<forall>ev\<in>set evs. ev_key ev \<noteq> k \<Longrightarrow> last_update evs k d = d"
  unfolding last_update_def by (induction evs arbitrary: d) auto

lemma last_update_append: "last_update (xs @ ys) k d = last_update ys k (last_update xs k d)"
  by (simp add: last_update_def)

lemma later_items: "map_sorted (p # m) \<Longrightarrow> (e, y) \<in> epoch_items m \<Longrightarrow> fst p < e"
  by (auto simp: epoch_items_def)

lemma epoch_push_split:
  "map_sorted m \<Longrightarrow> \<exists>xs ys. concat (map snd m) = xs @ ys \<and> concat (map snd (epoch_push m e x)) = xs @ x # ys \<and>
     (\<forall>y\<in>set ys. \<exists>e'>e. (e', y) \<in> epoch_items m)"
proof (induction m e x rule: epoch_push.induct)
  case (2 e' zs m e x)
  have m: "\<exists>e''>e'. (e'', y) \<in> epoch_items m" if "y \<in> set (concat (map snd m))" for y
    using that [unfolded items_iff] later_items [OF 2(2)] by auto
  consider (same) "e = e'" | (before) "e < e'" | (after) "e' < e" by (rule linorder_cases)
  then show ?case
  proof cases
    case same
    then have "\<forall>y\<in>set (concat (map snd m)). \<exists>e''>e. (e'', y) \<in> epoch_items ((e', zs) # m)"
      using m by (metis UnCI epoch_items_simps(2))
    then show ?thesis using same by (intro exI [of _ zs] exI [of _ "concat (map snd m)"]) simp
  next
    case before
    then have "\<forall>y\<in>set (concat (map snd ((e', zs) # m))). \<exists>e''>e. (e'', y) \<in> epoch_items ((e', zs) # m)"
      using m less_trans [OF before] by fastforce
    then show ?thesis
      using before less_imp_neq [OF before] by - (rule exI [of _ "[]"], rule exI [of _ "concat (map snd ((e', zs) # m))"], simp)
  next
    case after
    then have ne: "e \<noteq> e'" "\<not> e < e'" by auto
    then obtain xs ys where "concat (map snd m) = xs @ ys" "concat (map snd (epoch_push m e x)) = xs @ x # ys"
        "\<forall>y\<in>set ys. \<exists>e'>e. (e', y) \<in> epoch_items m"
      using 2(1) [OF ne] 2(2) by auto
    then show ?thesis using ne by (intro exI [of _ "zs @ xs"] exI [of _ ys]) auto
  qed
qed simp

lemma range_view_push:
  assumes "maps_sorted s" "\<forall>(e', ev)\<in>epoch_items (rx_key_set s). e < e' \<longrightarrow> ev_key ev \<noteq> key"
  shows "range_view (push_event s tx e key d) k \<longleftrightarrow> (if k = key then \<not> d else range_view s k)"
proof -
  let ?ev = "\<lparr>ev_key = key, ev_is_delete = d, ev_tx = tx\<rparr>"
  obtain xs ys where c: "concat (map snd (rx_key_set s)) = xs @ ys"
      "concat (map snd (epoch_push (rx_key_set s) e ?ev)) = xs @ ?ev # ys"
      and ys: "\<forall>y\<in>set ys. \<exists>e'>e. (e', y) \<in> epoch_items (rx_key_set s)"
    using epoch_push_split [of "rx_key_set s" e ?ev] assms(1) by (auto simp: maps_sorted_def)
  have later: "\<forall>y\<in>set ys. ev_key y \<noteq> key" using ys assms(2) by fastforce
  have m: "map_sorted (rx_container s)" using assms(1) by (simp add: maps_sorted_def)
  have "last_update (?ev # ys) k D = (if k = key then Some d else last_update ys k D)" for D
    using last_update_other [OF later] by (auto simp: last_update_def)
  then show ?thesis
    using apply_events_map [OF m]
    by (simp add: range_view_def push_event_def c(1) c(2) last_update_append del: foldl_append)
qed

lemma range_view_round: "range_view (manager_round s global) k = range_view s k"
proof -
  let ?t = "\<lambda>p. fst p \<le> global - 2"
  have "concat (map snd (rx_key_set s)) =
      concat (map snd (takeWhile ?t (rx_key_set s))) @ concat (map snd (dropWhile ?t (rx_key_set s)))"
    by (metis concat_append map_append takeWhile_dropWhile_id)
  then show ?thesis
    by (auto simp: range_view_def manager_round_def Let_def simp flip: foldl_append)
qed

section \<open>Reachable states\<close>

inductive range_moves :: "range_index \<Rightarrow> range_index \<Rightarrow> bool" where
  "range_moves s (snd (range_Insert s tx e key))"
| "range_moves s (snd (range_Delete s tx e key))"
| "range_moves s (range_ForceInsert s tx e key)"
| "range_Scan s tx e b u operation (a :: bytes list) = (r, a', s') \<Longrightarrow> range_moves s s'"
| "range_ScanReverse s tx e b u operation (a :: bytes list) = (r, a', s') \<Longrightarrow> range_moves s s'"
| "range_moves s (manager_round s global)"

lemma maps_sorted_round: "maps_sorted s \<Longrightarrow> maps_sorted (manager_round s global)"
  by (auto simp: maps_sorted_def manager_round_def Let_def map_sorted_dropWhile apply_events_sorted)

interpretation rs: inv_system "\<lambda>s. s = range_new" range_moves maps_sorted
proof
  show "maps_sorted s'" if "maps_sorted s" "range_moves s s'" for s s'
    using that(2,1)
    by cases (auto simp: range_Insert_def range_Delete_def range_ForceInsert_def range_Scan_def range_ScanReverse_def
        maps_sorted_push maps_sorted_round split: if_splits prod.splits)
qed (simp add: range_new_def maps_sorted_def)

section \<open>Properties\<close>

text \<open>C32. No phantoms for checked updates. After a transaction's scan of a range has succeeded, whatever other
  transactions insert, delete or scan, whatever it updates itself, and however often the manager runs
  without reaching the transaction's epoch, the same scan would succeed again, with the same number of
  hits and the same calls of its callback.\<close>

theorem scan_is_repeatable:
  assumes "range_moves\<^sup>*\<^sup>* range_new s" "own_events_current t ep s"
    and "range_Scan s (Some t) ep b u operation a = (Some n, a', s1)" "(range_step t ep)\<^sup>*\<^sup>* s1 s2"
  shows "\<exists>s3. range_Scan s2 (Some t) ep b u operation a = (Some n, a', s3)"
proof -
  have "maps_sorted s" using rs.inv_reachable [OF refl assms(1)] .
  note g = scan_guards [OF assms(3) this assms(2)]
  show ?thesis using guards_scan [OF guards_run [OF assms(4) g(1)] g(2,3)] .
qed

definition collect :: "bytes \<Rightarrow> bytes list \<Rightarrow> bool \<times> bytes list" where
  "collect k acc = (False, acc @ [k])"

theorem scan_is_repeatable_witness:
  "range_Scan (snd (range_Insert range_new (Some 1) 5 [7])) (Some 1) 5 [1] None collect [] =
     (Some 0, [], push_predicate (snd (range_Insert range_new (Some 1) 5 [7])) (Some 1) 5 [1] None) \<and>
   (\<exists>s3. range_Scan (manager_round (push_predicate (snd (range_Insert range_new (Some 1) 5 [7])) (Some 1) 5 [1] None) 6)
      (Some 1) 5 [1] None collect [] = (Some 0, [], s3))"
proof -
  let ?s = "snd (range_Insert range_new (Some 1) 5 [7])"
  let ?s1 = "push_predicate ?s (Some 1) 5 [1] None"
  have r: "range_moves\<^sup>*\<^sup>* range_new ?s" by (rule r_into_rtranclp) (rule range_moves.intros)
  have o: "own_events_current 1 5 ?s"
    by (simp add: own_events_current_def range_Insert_def IsInPredicateSet_def push_event_def range_new_def)
  have sc: "range_Scan ?s (Some 1) 5 [1] None collect [] = (Some 0, [], ?s1)"
    by (simp add: range_Scan_def IsOverlapWithInsertOrDelete_def range_Insert_def IsInPredicateSet_def push_event_def
        range_new_def range_entries_def)
  have m: "(range_step 1 5)\<^sup>*\<^sup>* ?s1 (manager_round ?s1 6)"
    by (rule r_into_rtranclp) (rule range_step.round, simp)
  show ?thesis using sc scan_is_repeatable [OF r o sc m] by simp
qed



text \<open>An idle index never becomes linearizable. While no update waits, the manager's rounds, however
  many, do not move the epoch it reports as processed, so a \<open>WaitForIndexIsLinearizable\<close> that has to wait
  keeps waiting; in particular a wait on a new index at epoch 3 or later does.\<close>

theorem idle_index_never_linearizable:
  assumes "rx_key_set s = []" "\<not> index_is_linearizable s target"
  shows "\<not> index_is_linearizable (foldl manager_round s globals) target"
proof -
  have "rx_key_set (foldl manager_round s globals) = [] \<and>
      rx_last_processed (foldl manager_round s globals) = rx_last_processed s"
    using assms(1) by (induction globals arbitrary: s) (simp_all add: manager_round_def Let_def)
  then show ?thesis using assms(2) by (simp add: index_is_linearizable_def)
qed

theorem idle_index_never_linearizable_witness:
  "\<not> index_is_linearizable (foldl manager_round range_new [3, 5, 7, 9]) 3"
  using idle_index_never_linearizable [of range_new 3 "[3, 5, 7, 9]"]
  by (simp add: range_new_def index_is_linearizable_def)

text \<open>\<open>ForceInsert\<close> does not look at the scans. A key inside the range of another transaction's live scan is
  refused by \<open>Insert\<close> but recorded by \<open>ForceInsert\<close>, after which the scan no longer repeats.\<close>

theorem force_insert_ignores_predicates:
  assumes "guards t ep b u entries s" "in_range b u key" "tx \<noteq> Some t"
  shows "fst (range_Insert s tx e key) = False \<and>
    fst (range_Scan (range_ForceInsert s tx e key) (Some t) ep b u operation a) = None"
proof -
  obtain e' where "(e', \<lparr>pr_begin = b, pr_end = u, pr_tx = Some t\<rparr>) \<in> epoch_items (rx_predicate_list s)"
    using assms(1) by (auto simp: guards_def)
  then have "\<lparr>pr_begin = b, pr_end = u, pr_tx = Some t\<rparr> \<in> set (concat (map snd (rx_predicate_list s)))"
    unfolding items_iff by blast
  then have "IsInPredicateSet s tx key"
    unfolding IsInPredicateSet_def list_ex_iff by (rule rev_bexI) (use assms(2,3) in auto)
  moreover have "\<lparr>ev_key = key, ev_is_delete = False, ev_tx = tx\<rparr>
      \<in> set (concat (map snd (rx_key_set (range_ForceInsert s tx e key))))"
    unfolding items_iff by (auto simp: range_ForceInsert_def push_event_def)
  then have "IsOverlapWithInsertOrDelete (range_ForceInsert s tx e key) (Some t) b u"
    unfolding IsOverlapWithInsertOrDelete_def list_ex_iff by (rule rev_bexI) (use assms(2,3) in auto)
  ultimately show ?thesis by (simp add: range_Insert_def range_Scan_def)
qed

theorem force_insert_ignores_predicates_witness:
  "let s = push_predicate range_new (Some 1) 5 [1] None
   in fst (range_Insert s (Some 2) 5 [7]) = False \<and>
      fst (range_Scan (range_ForceInsert s (Some 2) 5 [7]) (Some 1) 5 [1] None collect []) = None"
proof -
  have "guards 1 5 [1] None [] (push_predicate range_new (Some 1) 5 [1] None)"
    by (simp add: guards_def push_predicate_def range_new_def maps_sorted_def)
  from force_insert_ignores_predicates [OF this, of "[7]" "Some 2" 5 collect "[]"] show ?thesis
    by (simp add: in_range_def Let_def)
qed

end
