(* ===== verification/PlIndex.thy ===== *)
theory PlIndex
  imports ConcurrentSet PrecisionLocking DataItems
begin

text \<open>
  \<open>HashTableWithPrecisionLockingIndex\<close> (\<^verbatim>\<open>src/index/precision_locking_index/index.hpp\<close>), the default index of a
  table: a point index from keys to data items beside the range index. The point index appears through the
  map it implements, as a call sees it once it neither meets a redirect nor probes too long. A step is one
  operation; what another thread does between the accesses of one operation is left out.
\<close>

section \<open>State and operations\<close>

record pl_index =
  pl_point :: "bytes \<Rightarrow> data_item option"
  pl_range :: range_index

definition pl_new :: pl_index where
  "pl_new = \<lparr>pl_point = (\<lambda>_. None), pl_range = range_new\<rparr>"

datatype EntryState = EXISTS | NOT_EXISTS | DELETED | INCONSISTENT

definition GetEntryState :: "pl_index \<Rightarrow> bytes \<Rightarrow> EntryState" where
  "GetEntryState s key =
     (let in_point = (pl_point s key \<noteq> None);
          in_rng = range_Contains (pl_range s) key;
          deleted = (case pl_point s key of None \<Rightarrow> False | Some d \<Rightarrow> \<not> IsInitialized d)
      in if in_rng \<and> in_point \<and> \<not> deleted then EXISTS
         else if \<not> in_rng \<and> \<not> in_point then NOT_EXISTS
         else if deleted then DELETED
         else INCONSISTENT)"

text \<open>\<open>point_index_.Put\<close> keeps the entry that is there.\<close>

definition point_put :: "pl_index \<Rightarrow> bytes \<Rightarrow> data_item \<Rightarrow> bool \<times> pl_index" where
  "point_put s key d =
     (if pl_point s key = None then (True, s\<lparr>pl_point := (pl_point s)(key \<mapsto> d)\<rparr>) else (False, s))"

definition pl_range_insert :: "pl_index \<Rightarrow> tx_context \<Rightarrow> epoch_number \<Rightarrow> bytes \<Rightarrow> bool \<times> pl_index" where
  "pl_range_insert s tx e key =
     (case range_Insert (pl_range s) tx e key of (ok, r) \<Rightarrow> (ok, s\<lparr>pl_range := r\<rparr>))"

definition pl_Put :: "pl_index \<Rightarrow> tx_context \<Rightarrow> epoch_number \<Rightarrow> bytes \<Rightarrow> data_item \<Rightarrow> bool \<times> pl_index" where
  "pl_Put s tx e key d =
     (case pl_range_insert s tx e key of
        (False, s') \<Rightarrow> (False, s')
      | (True, s') \<Rightarrow> (True, snd (point_put s' key d)))"

definition ForcePutBlankEntry :: "pl_index \<Rightarrow> tx_context \<Rightarrow> epoch_number \<Rightarrow> bytes \<Rightarrow> pl_index" where
  "ForcePutBlankEntry s tx e key =
     (let s' = snd (point_put s key DataItem_default)
      in s'\<lparr>pl_range := range_ForceInsert (pl_range s') tx e key\<rparr>)"

text \<open>\<open>Insert\<close>; \<open>None\<close> is the failed assertion.\<close>

definition pl_Insert :: "pl_index \<Rightarrow> tx_context \<Rightarrow> epoch_number \<Rightarrow> bytes \<Rightarrow> (bool \<times> pl_index) option" where
  "pl_Insert s tx e key =
     (case GetEntryState s key of
        EXISTS \<Rightarrow> Some (False, s)
      | NOT_EXISTS \<Rightarrow>
          (case point_put s key DataItem_default of
             (False, s') \<Rightarrow> Some (False, s')
           | (True, s') \<Rightarrow> Some (pl_range_insert s' tx e key))
      | DELETED \<Rightarrow> Some (pl_range_insert s tx e key)
      | INCONSISTENT \<Rightarrow> None)"

definition EnsureVisibleForSecondaryWrite ::
  "pl_index \<Rightarrow> tx_context \<Rightarrow> epoch_number \<Rightarrow> bytes \<Rightarrow> bool \<times> pl_index" where
  "EnsureVisibleForSecondaryWrite s tx e key =
     (let in_rng = range_Contains (pl_range s) key
      in case pl_point s key of
           None \<Rightarrow>
             (let s' = snd (point_put s key DataItem_default)
              in if \<not> in_rng then pl_range_insert s' tx e key else (True, s'))
         | Some d \<Rightarrow>
             if \<not> IsInitialized d then pl_range_insert s tx e key
             else if \<not> in_rng then pl_range_insert s tx e key
             else (True, s))"

definition pl_Scan ::
  "pl_index \<Rightarrow> tx_context \<Rightarrow> epoch_number \<Rightarrow> bytes \<Rightarrow> bytes option \<Rightarrow> (bytes \<Rightarrow> 'a \<Rightarrow> bool \<times> 'a) \<Rightarrow> 'a \<Rightarrow>
   nat option \<times> 'a \<times> pl_index" where
  "pl_Scan s tx e b u operation a =
     (case range_Scan (pl_range s) tx e b u operation a of (r, a', rx) \<Rightarrow> (r, a', s\<lparr>pl_range := rx\<rparr>))"

text \<open>The overload that hands the callback the item: \<open>None\<close> is the null pointer it would dereference.\<close>

definition pl_Scan_values ::
  "pl_index \<Rightarrow> tx_context \<Rightarrow> epoch_number \<Rightarrow> bytes \<Rightarrow> bytes option \<Rightarrow>
   (bytes \<Rightarrow> data_item \<Rightarrow> 'a \<Rightarrow> bool \<times> 'a) \<Rightarrow> 'a \<Rightarrow> nat option \<times> 'a option \<times> pl_index" where
  "pl_Scan_values s tx e b u operation a =
     pl_Scan s tx e b u
       (\<lambda>k acc. case acc of
          None \<Rightarrow> (True, None)
        | Some a \<Rightarrow> (case pl_point s k of None \<Rightarrow> (True, None) | Some d \<Rightarrow> map_prod id Some (operation k d a)))
       (Some a)"

definition pl_ScanReverse ::
  "pl_index \<Rightarrow> tx_context \<Rightarrow> epoch_number \<Rightarrow> bytes \<Rightarrow> bytes option \<Rightarrow> (bytes \<Rightarrow> 'a \<Rightarrow> bool \<times> 'a) \<Rightarrow> 'a \<Rightarrow>
   nat option \<times> 'a \<times> pl_index" where
  "pl_ScanReverse s tx e b u operation a =
     (case range_ScanReverse (pl_range s) tx e b u operation a of (r, a', rx) \<Rightarrow> (r, a', s\<lparr>pl_range := rx\<rparr>))"

definition pl_Delete :: "pl_index \<Rightarrow> tx_context \<Rightarrow> epoch_number \<Rightarrow> bytes \<Rightarrow> bool \<times> pl_index" where
  "pl_Delete s tx e key =
     (case range_Delete (pl_range s) tx e key of (ok, r) \<Rightarrow> (ok, s\<lparr>pl_range := r\<rparr>))"

text \<open>A committed transaction installs its version in the item the index points to.\<close>

definition pl_install :: "pl_index \<Rightarrow> bytes \<Rightarrow> data_item \<Rightarrow> pl_index" where
  "pl_install s key d = (if pl_point s key = None then s else s\<lparr>pl_point := (pl_point s)(key \<mapsto> d)\<rparr>)"

definition pl_round :: "pl_index \<Rightarrow> epoch_number \<Rightarrow> pl_index" where
  "pl_round s global = s\<lparr>pl_range := manager_round (pl_range s) global\<rparr>"

inductive pl_step :: "pl_index \<Rightarrow> pl_index \<Rightarrow> bool" where
  "pl_step s (snd (pl_Put s tx e key d))"
| "pl_step s (ForcePutBlankEntry s tx e key)"
| "pl_Insert s tx e key = Some (ok, s') \<Longrightarrow> pl_step s s'"
| "pl_step s (snd (EnsureVisibleForSecondaryWrite s tx e key))"
| "pl_Scan s tx e b u operation (a :: bytes list) = (r, a', s') \<Longrightarrow> pl_step s s'"
| "pl_ScanReverse s tx e b u operation (a :: bytes list) = (r, a', s') \<Longrightarrow> pl_step s s'"
| "pl_step s (snd (pl_Delete s tx e key))"
| "pl_step s (pl_install s key d)"
| "pl_step s (pl_round s global)"

section \<open>Every key of the range index has an item\<close>

definition has_items :: "pl_index \<Rightarrow> bool" where
  "has_items s \<longleftrightarrow> maps_sorted (pl_range s) \<and>
     (\<forall>k. map_of (rx_container (pl_range s)) k = Some False \<longrightarrow> pl_point s k \<noteq> None) \<and>
     (\<forall>(e, ev)\<in>epoch_items (rx_key_set (pl_range s)). \<not> ev_is_delete ev \<longrightarrow> pl_point s (ev_key ev) \<noteq> None)"

lemma has_itemsD:
  assumes "has_items s"
  shows "maps_sorted (pl_range s)" "map_of (rx_container (pl_range s)) k = Some False \<Longrightarrow> pl_point s k \<noteq> None"
    "(e, ev) \<in> epoch_items (rx_key_set (pl_range s)) \<Longrightarrow> \<not> ev_is_delete ev \<Longrightarrow> pl_point s (ev_key ev) \<noteq> None"
  using assms unfolding has_items_def by blast+

lemma has_items_grow:
  "has_items s \<Longrightarrow> (\<And>k. pl_point s k \<noteq> None \<Longrightarrow> f k \<noteq> None) \<Longrightarrow> has_items (s\<lparr>pl_point := f\<rparr>)"
  unfolding has_items_def by fastforce

lemma has_items_event:
  assumes "has_items s" "\<not> d \<Longrightarrow> pl_point s key \<noteq> None"
  shows "has_items (s\<lparr>pl_range := push_event (pl_range s) tx e key d\<rparr>)"
  using has_itemsD [OF assms(1)] assms(2) maps_sorted_push(2) [of "pl_range s" tx e key d]
  unfolding has_items_def by (auto simp: push_event_def)

lemma has_items_predicate: "has_items s \<Longrightarrow> has_items (s\<lparr>pl_range := push_predicate (pl_range s) tx e b u\<rparr>)"
  using maps_sorted_push(1) [of "pl_range s" tx e b u] unfolding has_items_def by (auto simp: push_predicate_def)

lemma point_put_item: "has_items s \<Longrightarrow> has_items (snd (point_put s key d)) \<and> pl_point (snd (point_put s key d)) key \<noteq> None"
  using has_items_grow [of s "(pl_point s)(key \<mapsto> d)"] by (auto simp: point_put_def)

lemma range_insert_items:
  "has_items s \<Longrightarrow> pl_point s key \<noteq> None \<Longrightarrow> has_items (snd (pl_range_insert s tx e key))"
  using has_items_event [of s False key tx e] by (auto simp: pl_range_insert_def range_Insert_def)

text \<open>Ordering of the accesses does not matter to the state an operation leaves.\<close>

lemma pl_Put_alt:
  "snd (pl_Put s tx e key d) =
     (if IsInPredicateSet (pl_range s) tx key then s
      else (let s' = snd (point_put s key d) in s'\<lparr>pl_range := push_event (pl_range s') tx e key False\<rparr>))"
  by (auto simp: pl_Put_def pl_range_insert_def range_Insert_def point_put_def Let_def)

lemma last_update_Some: "last_update evs k d = Some b \<Longrightarrow> d = Some b \<or> (\<exists>ev\<in>set evs. ev_key ev = k \<and> ev_is_delete ev = b)"
  unfolding last_update_def by (induction evs arbitrary: d) (auto split: if_splits)

lemma has_items_round:
  assumes "has_items s"
  shows "has_items (pl_round s global)"
proof -
  note inv = has_itemsD [OF assms]
  let ?old = "takeWhile (\<lambda>p. fst p \<le> global - 2) (rx_key_set (pl_range s))"
  have srt: "map_sorted (rx_container (pl_range s))" "map_sorted (rx_key_set (pl_range s))"
    using inv(1) by (auto simp: maps_sorted_def)
  have c: "pl_point s k \<noteq> None"
    if k: "map_of (foldl apply_event (rx_container (pl_range s)) (concat (map snd ?old))) k = Some False" for k
  proof -
    have "map_of (rx_container (pl_range s)) k = Some False \<or>
        (\<exists>ev\<in>set (concat (map snd ?old)). ev_key ev = k \<and> ev_is_delete ev = False)"
      using k last_update_Some unfolding apply_events_map [OF srt(1)] by blast
    then show ?thesis
    proof
      assume "\<exists>ev\<in>set (concat (map snd ?old)). ev_key ev = k \<and> ev_is_delete ev = False"
      then obtain ev e where "(e, ev) \<in> epoch_items ?old" "ev_key ev = k" "\<not> ev_is_delete ev"
        unfolding items_iff Bex_def by blast
      then show ?thesis using inv(3) [of e ev] takeWhile_epochs [of "global - 2" "rx_key_set (pl_range s)"] by blast
    qed (rule inv(2))
  qed
  show ?thesis
    using c inv(2,3) maps_sorted_round [OF inv(1), of global]
    by (auto simp: has_items_def pl_round_def manager_round_def Let_def dropWhile_epochs [OF srt(2)])
qed

lemma has_items_step:
  assumes "has_items s" "pl_step s s'"
  shows "has_items s'"
  using assms(2)
proof cases
  case (1 tx e key d)
  then show ?thesis using point_put_item [OF assms(1), of key d] assms(1) has_items_event
    by (auto simp: pl_Put_alt Let_def)
next
  case (2 tx e key)
  then show ?thesis using point_put_item [OF assms(1), of key DataItem_default] has_items_event
    by (auto simp: ForcePutBlankEntry_def range_ForceInsert_def Let_def)
next
  case (3 tx e key ok)
  then show ?thesis
    using assms(1) point_put_item [OF assms(1), of key DataItem_default] range_insert_items [of _ key tx e]
    by (fastforce simp: pl_Insert_def GetEntryState_def Let_def point_put_def split: EntryState.splits if_splits option.splits)
next
  case (4 tx e key)
  then show ?thesis
    using assms(1) point_put_item [OF assms(1), of key DataItem_default] range_insert_items [of _ key tx e]
    by (auto simp: EnsureVisibleForSecondaryWrite_def Let_def split: option.splits)
next
  case 5
  then show ?thesis using assms(1) has_items_predicate
    by (auto simp: pl_Scan_def range_Scan_def split: if_splits prod.splits)
next
  case 6
  then show ?thesis using assms(1) has_items_predicate
    by (auto simp: pl_ScanReverse_def range_ScanReverse_def split: if_splits prod.splits)
next
  case (7 tx e key)
  then show ?thesis using assms(1) has_items_event [of s True] by (auto simp: pl_Delete_def range_Delete_def)
next
  case (8 key d)
  then show ?thesis using assms(1) has_items_grow by (auto simp: pl_install_def)
next
  case (9 global)
  then show ?thesis using has_items_round [OF assms(1)] by simp
qed

interpretation pli: inv_system "\<lambda>s. s = pl_new" pl_step has_items
proof
  show "has_items s" if "s = pl_new" for s
    using that by (simp add: has_items_def pl_new_def range_new_def maps_sorted_def)
qed (rule has_items_step)

section \<open>Properties\<close>

lemma visit_never_null:
  "\<forall>(k, d)\<in>set m. \<not> d \<longrightarrow> point k \<noteq> None \<Longrightarrow>
   snd (visit_entries (\<lambda>k acc. case acc of
          None \<Rightarrow> (True, None)
        | Some a \<Rightarrow> (case point k of None \<Rightarrow> (True, None) | Some d \<Rightarrow> map_prod id Some (operation k d a))) m hit (Some a)) \<noteq> None"
proof (induction m arbitrary: hit a)
  case (Cons x m)
  obtain k d where x: "x = (k, d)" by force
  show ?case
  proof (cases d)
    case False
    then obtain item where "point k = Some item" using Cons.prems x by auto
    then show ?thesis using Cons x False by (cases "operation k item a"; cases "fst (operation k item a)") auto
  qed (use Cons x in auto)
qed simp

lemma contains_has_item: "has_items s \<Longrightarrow> range_Contains (pl_range s) k \<Longrightarrow> pl_point s k \<noteq> None"
  using has_itemsD(2) by (fastforce simp: range_Contains_def split: option.splits)

text \<open>C36. A scan never dereferences a null item. Whatever sequence of index operations, installations and
  manager rounds led to the state, the scan that hands items to its callback finds an item for every
  key it visits.\<close>

theorem scan_values_never_null:
  assumes "pl_step\<^sup>*\<^sup>* pl_new s" "pl_Scan_values s tx e b u operation a = (r, a', s')"
  shows "a' \<noteq> None"
proof -
  have inv: "has_items s" using pli.inv_reachable [OF refl assms(1)] .
  have srt: "map_sorted (rx_container (pl_range s))" using has_itemsD(1) [OF inv] by (simp add: maps_sorted_def)
  have "distinct (map fst (rx_container (pl_range s)))"
    using srt by (simp add: map_sorted_def strict_sorted_iff)
  then have item: "pl_point s k \<noteq> None" if "(k, False) \<in> set (rx_container (pl_range s))" for k
    using that has_itemsD(2) [OF inv, of k] by simp
  then have "\<forall>(k, d)\<in>set (range_entries (rx_container (pl_range s)) b u). \<not> d \<longrightarrow> pl_point s k \<noteq> None"
    by (auto simp: range_entries_filter [OF srt])
  from visit_never_null [OF this, of operation 0 a] show ?thesis
    using assms(2) by (auto simp: pl_Scan_values_def pl_Scan_def range_Scan_def split: if_splits prod.splits)
qed

theorem scan_values_never_null_witness:
  "let s = ForcePutBlankEntry pl_new (Some 1) 3 [7] in
   snd (snd (pl_Scan_values (pl_round s 5) (Some 2) 5 [1] None (\<lambda>k d a. (False, a @ [k])) [])) \<noteq> s \<and>
   fst (snd (pl_Scan_values (pl_round s 5) (Some 2) 5 [1] None (\<lambda>k d a. (False, a @ [k])) [])) \<noteq> None"
proof -
  let ?s = "ForcePutBlankEntry pl_new (Some 1) 3 [7]"
  have "pl_step pl_new ?s" "pl_step ?s (pl_round ?s 5)" by (rule pl_step.intros)+
  then have r: "pl_step\<^sup>*\<^sup>* pl_new (pl_round ?s 5)" by (rule converse_rtranclp_into_rtranclp [OF _ r_into_rtranclp])
  obtain x a' s' where e: "pl_Scan_values (pl_round ?s 5) (Some 2) 5 [1] None (\<lambda>k d a. (False, a @ [k])) [] = (x, a', s')"
    by (metis prod_cases3)
  have "rx_key_set (pl_range s') = []"
    using e by (auto simp: pl_Scan_values_def pl_Scan_def range_Scan_def push_predicate_def pl_round_def manager_round_def
        ForcePutBlankEntry_def range_ForceInsert_def push_event_def pl_new_def range_new_def point_put_def Let_def
        split: if_splits prod.splits)
  then have "s' \<noteq> ?s"
    by (auto simp: ForcePutBlankEntry_def range_ForceInsert_def push_event_def pl_new_def range_new_def point_put_def Let_def)
  then show ?thesis using scan_values_never_null [OF r e] e by simp
qed



text \<open>A row is inconsistent until the manager has seen it. After \<open>Put\<close> has stored an initialised row in an
  empty index, the row's state is the one the code calls impossible, and inserting its key again fails the
  assertion, until a round of the manager has applied the update.\<close>

theorem fresh_row_is_inconsistent:
  assumes "IsInitialized d" "e \<le> global - 2"
  shows "GetEntryState (snd (pl_Put pl_new tx e key d)) key = INCONSISTENT \<and>
    pl_Insert (snd (pl_Put pl_new tx e key d)) tx' e' key = None \<and>
    GetEntryState (pl_round (snd (pl_Put pl_new tx e key d)) global) key = EXISTS"
proof -
  let ?s = "snd (pl_Put pl_new tx e key d)"
  have s: "?s = \<lparr>pl_point = [key \<mapsto> d], pl_range = range_new\<lparr>rx_key_set :=
      [(e, [\<lparr>ev_key = key, ev_is_delete = False, ev_tx = tx\<rparr>])]\<rparr>\<rparr>"
    by (simp add: pl_Put_def pl_new_def pl_range_insert_def range_Insert_def IsInPredicateSet_def range_new_def
        push_event_def point_put_def)
  have "GetEntryState ?s key = INCONSISTENT"
    using assms(1) by (simp add: s GetEntryState_def range_Contains_def range_new_def)
  moreover have "GetEntryState (pl_round ?s global) key = EXISTS"
    using assms by (simp add: s GetEntryState_def range_Contains_def range_new_def pl_round_def manager_round_def apply_event_def)
  ultimately show ?thesis by (simp add: pl_Insert_def)
qed

theorem fresh_row_is_inconsistent_witness:
  "GetEntryState (snd (pl_Put pl_new None 3 [7] (DataItem_Reset DataItem_default (Some [1]) (TransactionId 3 2)))) [7] = INCONSISTENT"
  using fresh_row_is_inconsistent [of "DataItem_Reset DataItem_default (Some [1]) (TransactionId 3 2)" 3 5 None "[7]"]
  by (simp add: IsInitialized_def DataItem_Reset_def DataItem_default_def heap_Reset_def heap_empty_def Let_def)

text \<open>A delete is applied to the range index whatever becomes of its transaction. Nothing takes the waiting
  update back: once the manager's round reaches its epoch, scans no longer show the key, even if the
  item still holds the row because the transaction aborted.\<close>

theorem aborted_delete_hides_row:
  assumes "pl_step\<^sup>*\<^sup>* pl_new s" "pl_Delete s tx e key = (True, s1)" "e \<le> global - 2"
    and "\<forall>(e', ev)\<in>epoch_items (rx_key_set (pl_range s)). ev_key ev \<noteq> key"
  shows "pl_point (pl_round s1 global) key = pl_point s key \<and> \<not> range_Contains (pl_range (pl_round s1 global)) key"
proof -
  have inv: "has_items s" using pli.inv_reachable [OF refl assms(1)] .
  have s1: "s1 = s\<lparr>pl_range := push_event (pl_range s) tx e key True\<rparr>"
    using assms(2) by (auto simp: pl_Delete_def range_Delete_def split: if_splits)
  let ?r = "push_event (pl_range s) tx e key True"
  have ms: "maps_sorted ?r" by (rule maps_sorted_push(2) [OF has_itemsD(1) [OF inv]])
  have "\<not> range_view (manager_round ?r global) key"
    using range_view_push [OF has_itemsD(1) [OF inv], of e key tx True key] assms(4)
    by (auto simp: range_view_round)
  moreover have "\<forall>ev\<in>set (concat (map snd (rx_key_set (manager_round ?r global)))). ev_key ev \<noteq> key"
  proof -
    have "\<not> global - 2 < e'" if "(e', ev) \<in> epoch_items (rx_key_set ?r)" "ev_key ev = key" for e' ev
      using that assms(3,4) by (auto simp: push_event_def)
    moreover have "takeWhile (\<lambda>p. fst p \<le> global - 2) (rx_key_set ?r) = [] \<Longrightarrow> rx_key_set ?r = dropWhile (\<lambda>p. fst p \<le> global - 2) (rx_key_set ?r)"
      by (metis append_Nil takeWhile_dropWhile_id)
    ultimately show ?thesis
      using dropWhile_epochs [of "rx_key_set ?r" "global - 2"] ms
      unfolding items_iff Ball_def by (auto simp: manager_round_def Let_def maps_sorted_def) (metis (no_types, lifting) fst_conv mem_Collect_eq)+
  qed
  ultimately have "\<not> range_Contains (manager_round ?r global) key"
    using maps_sorted_round [OF ms, of global] last_update_other
    by (auto simp: range_view_def range_Contains_def maps_sorted_def apply_events_map split: option.splits)
  then show ?thesis by (simp add: s1 pl_round_def)
qed

theorem aborted_delete_hides_row_witness:
  "let s = pl_round (ForcePutBlankEntry pl_new (Some 4) 3 [7]) 5 in
   range_Contains (pl_range s) [7] \<and>
   \<not> range_Contains (pl_range (pl_round (snd (pl_Delete s (Some 2) 6 [7])) 8)) [7]"
proof -
  let ?s = "pl_round (ForcePutBlankEntry pl_new (Some 4) 3 [7]) 5"
  have "pl_step pl_new (ForcePutBlankEntry pl_new (Some 4) 3 [7])" "pl_step (ForcePutBlankEntry pl_new (Some 4) 3 [7]) ?s"
    by (rule pl_step.intros)+
  then have r: "pl_step\<^sup>*\<^sup>* pl_new ?s" by (rule converse_rtranclp_into_rtranclp [OF _ r_into_rtranclp])
  have s: "pl_range ?s = range_new\<lparr>rx_container := [([7], False)], rx_last_processed := 3\<rparr>"
    by (simp add: pl_round_def manager_round_def ForcePutBlankEntry_def range_ForceInsert_def push_event_def pl_new_def
        range_new_def point_put_def apply_event_def)
  have d: "pl_Delete ?s (Some 2) 6 [7] = (True, snd (pl_Delete ?s (Some 2) 6 [7]))"
    by (simp add: pl_Delete_def s range_Delete_def IsInPredicateSet_def range_new_def)
  have "\<not> range_Contains (pl_range (pl_round (snd (pl_Delete ?s (Some 2) 6 [7])) 8)) [7]"
    using aborted_delete_hides_row [OF r d, of 8] by (simp add: s range_new_def)
  then show ?thesis by (simp add: s range_Contains_def range_new_def)
qed

end
