(* ===== verification/Silo.thy ===== *)
theory Silo
  imports DataItems "HOL-Library.Product_Lexorder"
begin

text \<open>
  \<open>SiloNWRTyped<false>\<close>, the Silo protocol (\<^verbatim>\<open>src/concurrency_control/impl/silo_nwr.hpp\<close>): optimistic
  reads, and a commit that locks the write set in a global order, reloads the epoch, validates the reads, installs
  the writes and publishes new version words.

  A step is one atomic access of a transaction to the shared state: a load or a compare-and-swap of a version word,
  the copy or the installation of one item. A copy that runs while an item is being installed may hold anything.
  What the index layer answers (whether an item is still attached, whether the scanned ranges are unchanged) is an
  outcome of the step that asks. The clock and the history are ghosts: they record the order in which transactions
  reloaded the epoch, and what those that passed validation read and wrote.
\<close>

section \<open>Version words\<close>

definition tid_locked :: "TransactionId \<Rightarrow> bool" where
  "tid_locked t \<longleftrightarrow> tid_tid t AND 1 \<noteq> 0"

definition tid_lock :: "TransactionId \<Rightarrow> TransactionId" where
  "tid_lock t = TransactionId (tid_epoch t) (tid_tid t OR 1)"

definition tid_unlock :: "TransactionId \<Rightarrow> TransactionId" where
  "tid_unlock t = TransactionId (tid_epoch t) (tid_tid t - 1)"

definition unlocked_id :: "epoch_number \<Rightarrow> TransactionId \<Rightarrow> TransactionId" where
  "unlocked_id current_epoch current_tid =
     (if current_epoch \<noteq> tid_epoch current_tid then TransactionId current_epoch 2
      else TransactionId current_epoch (tid_tid current_tid + 1))"

section \<open>State\<close>

text \<open>What a reader sees of an item: the payload and the posting list.\<close>

type_synonym row = "bytes \<times> packed_ptr"

definition row_of :: "data_item \<Rightarrow> row" where
  "row_of d = (toString (di_buffer d), di_primary_keys d)"

text \<open>Where a transaction stands: between calls; inside the read loop, before the copy and before the second
  load; locking the write of the given position; validating the read of the given position; installing,
  unlocking; giving locks back, with or without looking at the lock bit first; finished; or thrown out of the
  installation by an exception.\<close>

datatype silo_pc =
    Running
  | ReadLoaded nat TransactionId
  | ReadCopied nat TransactionId row
  | Locking nat
  | Validating nat
  | Installing nat
  | Threw nat
  | Unlocking nat
  | RollingBack bool "nat list"
  | Finished bool

record silo_tx =
  sx_pc :: silo_pc
  sx_validation_set :: "(nat \<times> TransactionId) list"
  sx_reads :: "row list"
  sx_write_set :: "snapshot list"
  sx_epoch :: epoch_number
  sx_serial :: nat

record committed =
  ct_serial :: nat
  ct_epoch :: epoch_number
  ct_reads :: "(nat \<times> row) list"
  ct_writes :: "snapshot list"

record silo =
  sl_items :: "nat \<Rightarrow> data_item"
  sl_epoch :: epoch_number
  sl_txs :: "silo_tx list"
  sl_clock :: nat
  sl_history :: "committed list"

definition silo_tx_new :: silo_tx where
  "silo_tx_new = \<lparr>sx_pc = Running, sx_validation_set = [], sx_reads = [], sx_write_set = [], sx_epoch = 0, sx_serial = 0\<rparr>"

abbreviation tx_at :: "silo \<Rightarrow> nat \<Rightarrow> silo_tx" where
  "tx_at s t \<equiv> sl_txs s ! t"

abbreviation put_tx :: "silo \<Rightarrow> nat \<Rightarrow> silo_tx \<Rightarrow> silo" where
  "put_tx s t x \<equiv> s\<lparr>sl_txs := (sl_txs s)[t := x]\<rparr>"

abbreviation put_item :: "silo \<Rightarrow> nat \<Rightarrow> data_item \<Rightarrow> silo" where
  "put_item s i d \<equiv> s\<lparr>sl_items := (sl_items s)(i := d)\<rparr>"

abbreviation tid_at :: "silo \<Rightarrow> nat \<Rightarrow> TransactionId" where
  "tid_at s i \<equiv> di_transaction_id (sl_items s i)"

definition item_of :: "snapshot \<Rightarrow> nat" where
  "item_of w = the (sn_index_cache w)"

abbreviation items_of :: "snapshot list \<Rightarrow> nat list" where
  "items_of ws \<equiv> map item_of ws"

section \<open>Reads\<close>

text \<open>The first load, and the loop when the lock bit is set.\<close>

definition read_load :: "silo \<Rightarrow> nat \<Rightarrow> nat \<Rightarrow> silo" where
  "read_load s t i =
     (if tid_locked (tid_at s i) then s
      else put_tx s t ((tx_at s t)\<lparr>sx_pc := ReadLoaded i (tid_at s i)\<rparr>))"

definition being_installed :: "silo \<Rightarrow> nat \<Rightarrow> bool" where
  "being_installed s i \<longleftrightarrow>
     (\<exists>x\<in>set (sl_txs s). case sx_pc x of
        Installing k \<Rightarrow> k < length (sx_write_set x) \<and> item_of (sx_write_set x ! k) = i | _ \<Rightarrow> False)"

definition read_copy :: "silo \<Rightarrow> nat \<Rightarrow> nat \<Rightarrow> TransactionId \<Rightarrow> row \<Rightarrow> silo" where
  "read_copy s t i tx_id r = put_tx s t ((tx_at s t)\<lparr>sx_pc := ReadCopied i tx_id r\<rparr>)"

text \<open>The second load: an equal word ends the loop; the flag tells \<open>Read\<close>, which records the version for
  validation, from \<open>ReadUnvalidated\<close>.\<close>

definition read_recheck :: "silo \<Rightarrow> nat \<Rightarrow> nat \<Rightarrow> TransactionId \<Rightarrow> row \<Rightarrow> bool \<Rightarrow> silo" where
  "read_recheck s t i tx_id r validated =
     (let x = (tx_at s t)\<lparr>sx_pc := Running\<rparr>
      in put_tx s t
           (if tid_at s i = tx_id \<and> validated
            then x\<lparr>sx_validation_set := sx_validation_set x @ [(i, tx_id)], sx_reads := sx_reads x @ [r]\<rparr> else x))"

section \<open>Commit\<close>

definition SortWriteSet :: "snapshot list \<Rightarrow> snapshot list" where
  "SortWriteSet = sort_key location"

definition own_locks :: "nat \<Rightarrow> (nat \<times> TransactionId) list \<Rightarrow> (nat \<times> TransactionId) list" where
  "own_locks i = map (\<lambda>(j, t). if j = i then (j, tid_lock t) else (j, t))"

definition with_tid :: "snapshot \<Rightarrow> TransactionId \<Rightarrow> snapshot" where
  "with_tid w t = w\<lparr>sn_data_item_copy := (sn_data_item_copy w)\<lparr>di_transaction_id := t\<rparr>\<rparr>"

text \<open>A successful compare-and-swap on the item of the write at position \<open>k\<close>. A write whose item has left its
  index gives back every lock.\<close>

definition lock_write :: "silo \<Rightarrow> nat \<Rightarrow> nat \<Rightarrow> bool \<Rightarrow> silo" where
  "lock_write s t k attached =
     (let x = tx_at s t; w = sx_write_set x ! k; i = item_of w;
          desired = tid_lock (tid_at s i);
          s' = put_item s i ((sl_items s i)\<lparr>di_transaction_id := desired\<rparr>);
          x' = x\<lparr>sx_write_set := (sx_write_set x)[k := with_tid w desired]\<rparr>
      in put_tx s' t
           (if attached
            then x'\<lparr>sx_pc := Locking (k + 1), sx_validation_set := own_locks i (sx_validation_set x)\<rparr>
            else x'\<lparr>sx_pc := RollingBack True (items_of (take (k + 1) (sx_write_set x)))\<rparr>))"

definition refresh_epoch :: "silo \<Rightarrow> nat \<Rightarrow> silo" where
  "refresh_epoch s t =
     (put_tx s t ((tx_at s t)\<lparr>sx_pc := Validating 0, sx_epoch := sl_epoch s, sx_serial := sl_clock s\<rparr>))
       \<lparr>sl_clock := sl_clock s + 1\<rparr>"

definition start_rollback :: "silo_tx \<Rightarrow> silo_tx" where
  "start_rollback x = x\<lparr>sx_pc := RollingBack False (items_of (sx_write_set x))\<rparr>"

definition AntiDependencyValidation_step :: "silo \<Rightarrow> nat \<Rightarrow> nat \<Rightarrow> silo" where
  "AntiDependencyValidation_step s t j =
     (let x = tx_at s t
      in put_tx s t
           (case sx_validation_set x ! j of
              (i, expected) \<Rightarrow> if tid_at s i \<noteq> expected then start_rollback x else x\<lparr>sx_pc := Validating (j + 1)\<rparr>))"

definition claims_taken_key :: "silo \<Rightarrow> snapshot list \<Rightarrow> bool" where
  "claims_taken_key s ws \<longleftrightarrow> (\<exists>w\<in>set ws. sn_is_insert w \<and> IsPrimaryInitialized (sl_items s (item_of w)))"

text \<open>The rest of the validation phase; from here on the transaction commits.\<close>

definition decide :: "silo \<Rightarrow> nat \<Rightarrow> bool \<Rightarrow> silo" where
  "decide s t phantoms_still_valid =
     (let x = tx_at s t
      in if \<not> phantoms_still_valid then put_tx s t (start_rollback x)
         else if claims_taken_key s (sx_write_set x) then put_tx s t (start_rollback x)
         else (put_tx s t (x\<lparr>sx_pc := Installing 0\<rparr>))
                \<lparr>sl_history := sl_history s @
                   [\<lparr>ct_serial = sx_serial x, ct_epoch = sx_epoch x,
                     ct_reads = zip (map fst (sx_validation_set x)) (sx_reads x), ct_writes = sx_write_set x\<rparr>]\<rparr>)"

definition IsUnique :: "u32 \<Rightarrow> bool" where
  "IsUnique raw \<longleftrightarrow> raw AND 1 \<noteq> 0"

definition merges_deltas :: "snapshot \<Rightarrow> bool" where
  "merges_deltas w \<longleftrightarrow> sn_index_name w \<noteq> [] \<and> sn_secondary_index_deltas w \<noteq> [] \<and> \<not> IsUnique (sn_index_type w)"

fun merge_deltas :: "data_item \<Rightarrow> SecondaryIndexDelta list \<Rightarrow> pk_error + data_item" where
  "merge_deltas d [] = Inr d"
| "merge_deltas d (delta # ds) =
     (case (case sd_op delta of
              OpAdd \<Rightarrow> AddSecondaryIndexValue d (sd_primary_key delta)
            | OpRemove \<Rightarrow> RemoveSecondaryIndexValue d (sd_primary_key delta)
            | _ \<Rightarrow> Inl AssertFailed) of
        Inl e \<Rightarrow> Inl e
      | Inr d' \<Rightarrow> merge_deltas d' ds)"

definition install_write :: "snapshot \<Rightarrow> data_item \<Rightarrow> pk_error + data_item \<times> snapshot" where
  "install_write w d =
     (if merges_deltas w
      then case merge_deltas d (sn_secondary_index_deltas w) of
             Inl e \<Rightarrow> Inl e
           | Inr d' \<Rightarrow> Inr (d', w\<lparr>sn_data_item_copy := DataItem_assign (sn_data_item_copy w) d'\<rparr>)
      else Inr (DataItem_assign d (sn_data_item_copy w), w))"

definition install_step :: "silo \<Rightarrow> nat \<Rightarrow> nat \<Rightarrow> silo" where
  "install_step s t k =
     (let x = tx_at s t; w = sx_write_set x ! k; i = item_of w
      in case install_write w (sl_items s i) of
           Inl e \<Rightarrow> put_tx s t (x\<lparr>sx_pc := Threw k\<rparr>)
         | Inr (d', w') \<Rightarrow>
             put_tx (put_item s i d') t (x\<lparr>sx_write_set := (sx_write_set x)[k := w'], sx_pc := Installing (k + 1)\<rparr>))"

text \<open>One round of \<open>PostProcessing\<close>.\<close>

definition PostProcessing_step :: "silo \<Rightarrow> nat \<Rightarrow> nat \<Rightarrow> silo" where
  "PostProcessing_step s t k =
     (let x = tx_at s t; w = sx_write_set x ! k; i = item_of w;
          unlocked = unlocked_id (sx_epoch x) (di_transaction_id (sn_data_item_copy w))
      in put_tx (put_item s i ((sl_items s i)\<lparr>di_transaction_id := unlocked\<rparr>)) t
           (x\<lparr>sx_write_set := (sx_write_set x)[k := with_tid w unlocked], sx_pc := Unlocking (k + 1)\<rparr>))"

definition rollback_step :: "silo \<Rightarrow> nat \<Rightarrow> bool \<Rightarrow> nat \<Rightarrow> nat list \<Rightarrow> silo" where
  "rollback_step s t guarded i rest =
     (let d = sl_items s i;
          d' = (if guarded \<and> \<not> tid_locked (di_transaction_id d) then d
                else d\<lparr>di_transaction_id := tid_unlock (di_transaction_id d)\<rparr>)
      in put_tx (put_item s i d') t ((tx_at s t)\<lparr>sx_pc := RollingBack guarded rest\<rparr>))"

section \<open>Steps\<close>

text \<open>The location an item belongs to is \<open>loc\<close>. A transaction prepares a write set with one entry per location.\<close>

definition write_set_ok :: "(nat \<Rightarrow> bytes \<times> bytes \<times> bytes) \<Rightarrow> snapshot list \<Rightarrow> bool" where
  "write_set_ok loc ws \<longleftrightarrow> (\<forall>w\<in>set ws. location w = loc (item_of w)) \<and> distinct (map location ws)"

inductive silo_step :: "(nat \<Rightarrow> bytes \<times> bytes \<times> bytes) \<Rightarrow> nat \<Rightarrow> silo \<Rightarrow> silo \<Rightarrow> bool" for loc t where
  stage: "t < length (sl_txs s) \<Longrightarrow> sx_pc (tx_at s t) = Running \<Longrightarrow> write_set_ok loc ws \<Longrightarrow>
    silo_step loc t s (put_tx s t ((tx_at s t)\<lparr>sx_write_set := ws\<rparr>))"
| user_abort: "t < length (sl_txs s) \<Longrightarrow> sx_pc (tx_at s t) = Running \<Longrightarrow>
    silo_step loc t s (put_tx s t ((tx_at s t)\<lparr>sx_pc := Finished False\<rparr>))"
| load: "t < length (sl_txs s) \<Longrightarrow> sx_pc (tx_at s t) = Running \<Longrightarrow> silo_step loc t s (read_load s t i)"
| copy: "t < length (sl_txs s) \<Longrightarrow> sx_pc (tx_at s t) = ReadLoaded i tx_id \<Longrightarrow>
    r = row_of (sl_items s i) \<or> being_installed s i \<Longrightarrow> silo_step loc t s (read_copy s t i tx_id r)"
| recheck: "t < length (sl_txs s) \<Longrightarrow> sx_pc (tx_at s t) = ReadCopied i tx_id r \<Longrightarrow>
    silo_step loc t s (read_recheck s t i tx_id r validated)"
| precommit: "t < length (sl_txs s) \<Longrightarrow> sx_pc (tx_at s t) = Running \<Longrightarrow>
    silo_step loc t s (put_tx s t ((tx_at s t)\<lparr>sx_write_set := SortWriteSet (sx_write_set (tx_at s t)), sx_pc := Locking 0\<rparr>))"
| lock: "t < length (sl_txs s) \<Longrightarrow> sx_pc (tx_at s t) = Locking k \<Longrightarrow> k < length (sx_write_set (tx_at s t)) \<Longrightarrow>
    \<not> tid_locked (tid_at s (item_of (sx_write_set (tx_at s t) ! k))) \<Longrightarrow> silo_step loc t s (lock_write s t k attached)"
| refresh: "t < length (sl_txs s) \<Longrightarrow> sx_pc (tx_at s t) = Locking (length (sx_write_set (tx_at s t))) \<Longrightarrow>
    silo_step loc t s (refresh_epoch s t)"
| validate: "t < length (sl_txs s) \<Longrightarrow> sx_pc (tx_at s t) = Validating j \<Longrightarrow> j < length (sx_validation_set (tx_at s t)) \<Longrightarrow>
    silo_step loc t s (AntiDependencyValidation_step s t j)"
| decided: "t < length (sl_txs s) \<Longrightarrow> sx_pc (tx_at s t) = Validating (length (sx_validation_set (tx_at s t))) \<Longrightarrow>
    silo_step loc t s (decide s t phantoms_still_valid)"
| install: "t < length (sl_txs s) \<Longrightarrow> sx_pc (tx_at s t) = Installing k \<Longrightarrow> k < length (sx_write_set (tx_at s t)) \<Longrightarrow>
    silo_step loc t s (install_step s t k)"
| installed: "t < length (sl_txs s) \<Longrightarrow> sx_pc (tx_at s t) = Installing (length (sx_write_set (tx_at s t))) \<Longrightarrow>
    silo_step loc t s (put_tx s t ((tx_at s t)\<lparr>sx_pc := Unlocking 0\<rparr>))"
| unlock: "t < length (sl_txs s) \<Longrightarrow> sx_pc (tx_at s t) = Unlocking k \<Longrightarrow> k < length (sx_write_set (tx_at s t)) \<Longrightarrow>
    silo_step loc t s (PostProcessing_step s t k)"
| unlocked: "t < length (sl_txs s) \<Longrightarrow> sx_pc (tx_at s t) = Unlocking (length (sx_write_set (tx_at s t))) \<Longrightarrow>
    silo_step loc t s (put_tx s t ((tx_at s t)\<lparr>sx_pc := Finished True\<rparr>))"
| rollback: "t < length (sl_txs s) \<Longrightarrow> sx_pc (tx_at s t) = RollingBack guarded (i # rest) \<Longrightarrow>
    silo_step loc t s (rollback_step s t guarded i rest)"
| rolled_back: "t < length (sl_txs s) \<Longrightarrow> sx_pc (tx_at s t) = RollingBack guarded [] \<Longrightarrow>
    silo_step loc t s (put_tx s t ((tx_at s t)\<lparr>sx_pc := Finished False\<rparr>))"

text \<open>Version words do not wrap within an epoch: the largest locked word has not been reached.\<close>

definition tids_fit :: "silo \<Rightarrow> bool" where
  "tids_fit s \<longleftrightarrow> (\<forall>i. tid_tid (tid_at s i) \<noteq> 0xFFFFFFFF)"

inductive silo_moves :: "(nat \<Rightarrow> bytes \<times> bytes \<times> bytes) \<Rightarrow> silo \<Rightarrow> silo \<Rightarrow> bool" for loc where
  tx_begins: "silo_moves loc s (s\<lparr>sl_txs := sl_txs s @ [silo_tx_new]\<rparr>)"
| tx_moves: "silo_step loc t s s' \<Longrightarrow> tids_fit s \<Longrightarrow> silo_moves loc s s'"
| epoch_ticks: "sl_epoch s < 0xFFFFFFFF \<Longrightarrow> silo_moves loc s (s\<lparr>sl_epoch := sl_epoch s + 1\<rparr>)"

definition silo_init :: "(nat \<Rightarrow> data_item) \<Rightarrow> silo \<Rightarrow> bool" where
  "silo_init items0 s \<longleftrightarrow> sl_items s = items0 \<and> sl_txs s = [] \<and> sl_clock s = 0 \<and> sl_history s = [] \<and>
     (\<forall>i. \<not> tid_locked (tid_at s i) \<and> tid_epoch (tid_at s i) \<le> sl_epoch s)"

end
