(* ===== verification/SiloSerial.thy ===== *)
theory SiloSerial
  imports Silo
begin

text \<open>
  What serializability is measured against: the order of version words, the effect of a write on a row, and the
  execution of committed transactions one after the other, as a whole and item by item.
\<close>

section \<open>Version words\<close>

definition tid_base :: "TransactionId \<Rightarrow> TransactionId" where
  "tid_base t = (if tid_locked t then TransactionId (tid_epoch t) (tid_tid t - 1) else t)"

lemma word_lsb:
  fixes w :: u32
  shows "w AND 1 = 0 \<longleftrightarrow> even w" "even w \<Longrightarrow> w OR 1 = w + 1" "odd w \<Longrightarrow> w OR 1 = w"
proof -
  show *: "w AND 1 = 0 \<longleftrightarrow> even w" for w :: u32 by (simp add: and_one_eq even_iff_mod_2_eq_zero)
  show "even w \<Longrightarrow> w OR 1 = w + 1" by (simp add: disjunctive_add_eq_or *)
  show "odd w \<Longrightarrow> w OR 1 = w" by (rule bit_eqI) (auto simp: bit_or_iff bit_1_iff bit_0)
qed

lemma tid_locked_iff: "tid_locked t \<longleftrightarrow> odd (tid_tid t)"
  by (simp add: tid_locked_def word_lsb)

lemma tid_lock_simps [simp]:
  "tid_locked (tid_lock t)" "tid_base (tid_lock t) = tid_base t" "tid_epoch (tid_lock t) = tid_epoch t"
  "tid_epoch (tid_base t) = tid_epoch t" "\<not> tid_locked (tid_base t)"
  by (cases t; cases "odd (tid_tid t)"; simp add: tid_locked_iff tid_lock_def tid_base_def word_lsb)+

lemma tid_base_unlocked [simp]: "\<not> tid_locked t \<Longrightarrow> tid_base t = t"
  by (simp add: tid_base_def)

lemma tid_unlock_locked [simp]: "tid_locked t \<Longrightarrow> tid_unlock t = tid_base t"
  by (simp add: tid_unlock_def tid_base_def)

text \<open>A commit advances the version of an item.\<close>

lemma unlocked_id_advances:
  assumes "tid_locked t" "tid_tid t \<noteq> 0xFFFFFFFF" "tid_epoch t \<le> e"
  shows "tid_base t < unlocked_id e t" "\<not> tid_locked (unlocked_id e t)" "tid_epoch (unlocked_id e t) = e"
proof -
  have "unat (tid_tid t) \<noteq> unat (0xFFFFFFFF :: u32)" using assms(2) by (simp add: word_unat_eq_iff)
  then have w: "unat (tid_tid t) + 1 < 2 ^ 32" using unsigned_less [of "tid_tid t", where ?'a = nat] by simp
  have "0 < tid_tid t" using assms(1) by (metis tid_locked_iff even_zero word_gt_0)
  then have "tid_tid t - 1 < tid_tid t" by (metis measure_unat word_less_nat_alt word_gt_0)
  moreover have "tid_tid t < tid_tid t + 1" using w by (simp add: word_less_nat_alt unat_word_ariths)
  ultimately have "tid_tid t - 1 < tid_tid t + 1" by (rule less_trans)
  then show "tid_base t < unlocked_id e t"
    using assms(1,3) by (auto simp: less_TransactionId_def TransactionId_less_def tid_base_def unlocked_id_def)
  show "\<not> tid_locked (unlocked_id e t)" using assms(1) by (auto simp: tid_locked_iff unlocked_id_def)
  show "tid_epoch (unlocked_id e t) = e" by (simp add: unlocked_id_def)
qed

section \<open>What a write does to a row\<close>

fun key_deltas :: "packed_ptr \<Rightarrow> SecondaryIndexDelta list \<Rightarrow> pk_error + packed_ptr" where
  "key_deltas p [] = Inr p"
| "key_deltas p (delta # ds) =
     (case (case sd_op delta of
              OpAdd \<Rightarrow> Insert p (sd_primary_key delta)
            | OpRemove \<Rightarrow> Erase p (sd_primary_key delta)
            | _ \<Rightarrow> Inl AssertFailed) of
        Inl e \<Rightarrow> Inl e
      | Inr p' \<Rightarrow> key_deltas p' ds)"

lemma merge_deltas_keys:
  "merge_deltas d ds = map_sum id (\<lambda>p. d\<lparr>di_primary_keys := p\<rparr>) (key_deltas (di_primary_keys d) ds)"
proof (induction ds arbitrary: d)
  case (Cons delta ds)
  show ?case
    by (cases "sd_op delta")
      (auto simp: AddSecondaryIndexValue_def RemoveSecondaryIndexValue_def Cons split: sum.splits)
qed simp

text \<open>The row a write leaves; a write that throws leaves the row.\<close>

definition write_row :: "snapshot \<Rightarrow> row \<Rightarrow> row" where
  "write_row w r =
     (if merges_deltas w
      then (fst r, case key_deltas (snd r) (sn_secondary_index_deltas w) of Inl e \<Rightarrow> snd r | Inr p \<Rightarrow> p)
      else row_of (sn_data_item_copy w))"

lemma install_write_row:
  assumes "install_write w d = Inr (d', w')"
  shows "row_of d' = write_row w (row_of d)" "item_of w' = item_of w" "location w' = location w"
    "di_transaction_id (sn_data_item_copy w) = di_transaction_id d \<Longrightarrow>
       di_transaction_id d' = di_transaction_id d \<and> di_transaction_id (sn_data_item_copy w') = di_transaction_id d"
  using assms
  by (auto simp: install_write_def write_row_def merge_deltas_keys row_of_def DataItem_assign_def item_of_def
      location_def map_sum_def split: if_splits sum.splits)

lemma with_tid_simps [simp]:
  "item_of (with_tid w t) = item_of w" "location (with_tid w t) = location w"
  "di_transaction_id (sn_data_item_copy (with_tid w t)) = t" "write_row (with_tid w t) = write_row w"
  "sn_is_insert (with_tid w t) = sn_is_insert w"
  by (simp_all add: with_tid_def item_of_def location_def write_row_def merges_deltas_def row_of_def fun_eq_iff)

section \<open>Serial execution\<close>

type_synonym db = "nat \<Rightarrow> row"

definition apply_writes :: "snapshot list \<Rightarrow> db \<Rightarrow> db" where
  "apply_writes ws db = fold (\<lambda>w db. db(item_of w := write_row w (db (item_of w)))) ws db"

text \<open>Transactions one after the other: each reads what is there, and an insertion finds no row.\<close>

fun serial_run :: "db \<Rightarrow> committed list \<Rightarrow> db option" where
  "serial_run db [] = Some db"
| "serial_run db (c # cs) =
     (if (\<forall>(i, r)\<in>set (ct_reads c). db i = r) \<and> (\<forall>w\<in>set (ct_writes c). sn_is_insert w \<longrightarrow> fst (db (item_of w)) = [])
      then serial_run (apply_writes (ct_writes c) db) cs else None)"

abbreviation writes :: "committed \<Rightarrow> nat set" where
  "writes c \<equiv> item_of ` set (ct_writes c)"

definition row_after :: "committed \<Rightarrow> nat \<Rightarrow> row \<Rightarrow> row" where
  "row_after c i r = apply_writes (ct_writes c) (\<lambda>_. r) i"

text \<open>The row of an item after the transactions with a serial number below \<open>n\<close>.\<close>

definition replay :: "db \<Rightarrow> committed list \<Rightarrow> nat \<Rightarrow> nat \<Rightarrow> row" where
  "replay db0 h n i = fold (\<lambda>c. row_after c i) (sort_key ct_serial (filter (\<lambda>c. ct_serial c < n \<and> i \<in> writes c) h)) (db0 i)"

lemma apply_writes_pointwise: "db i = db' i \<Longrightarrow> apply_writes ws db i = apply_writes ws db' i"
proof (induction ws arbitrary: db db')
  case (Cons w ws)
  let ?up = "\<lambda>db. db(item_of w := write_row w (db (item_of w)))"
  have "?up db i = ?up db' i" using Cons.prems by auto
  from Cons.IH [where db = "?up db" and db' = "?up db'", OF this] show ?case by (simp add: apply_writes_def fun_upd_def)
qed (simp add: apply_writes_def)

lemma apply_writes_other: "i \<notin> item_of ` set ws \<Longrightarrow> apply_writes ws db i = db i"
  by (induction ws arbitrary: db) (auto simp: apply_writes_def)

lemma apply_writes_one:
  "distinct (items_of ws) \<Longrightarrow> w \<in> set ws \<Longrightarrow> apply_writes ws db (item_of w) = write_row w (db (item_of w))"
proof (induction ws arbitrary: db)
  case (Cons v ws)
  show ?case
  proof (cases "v = w")
    case True
    then show ?thesis
      using apply_writes_other [of "item_of w" ws] Cons.prems by (simp add: apply_writes_def)
  next
    case False
    then have "item_of v \<noteq> item_of w" using Cons.prems by (metis distinct.simps(2) image_eqI list.set_map list.simps(9) set_ConsD)
    then show ?thesis using Cons False by (simp add: apply_writes_def)
  qed
qed simp

lemma row_after_write: "distinct (items_of (ct_writes c)) \<Longrightarrow> w \<in> set (ct_writes c) \<Longrightarrow> row_after c (item_of w) r = write_row w r"
  unfolding row_after_def by (simp add: apply_writes_one)

lemma sort_key_snoc:
  fixes f :: "'a \<Rightarrow> nat"
  assumes "\<forall>y\<in>set ys. f y < f c"
  shows "sort_key f (ys @ [c]) = sort_key f ys @ [c]"
proof (rule properties_for_sort_key)
  show "filter (\<lambda>x. f k = f x) (sort_key f ys @ [c]) = filter (\<lambda>x. f k = f x) (ys @ [c])" if "k \<in> set (sort_key f ys @ [c])" for k
    using sort_key_stable [of f "f k" ys] by (simp add: eq_commute [of "f k"])
  show "sorted (map f (sort_key f ys @ [c]))" using assms by (auto simp: sorted_append less_imp_le)
qed simp

lemma replay_below: "n \<le> ct_serial c \<Longrightarrow> replay db0 (h @ [c]) n i = replay db0 h n i"
  by (simp add: replay_def)

lemma replay_other: "i \<notin> writes c \<Longrightarrow> replay db0 (h @ [c]) n i = replay db0 h n i"
  by (simp add: replay_def)

lemma replay_stable:
  "\<forall>e\<in>set h. i \<in> writes e \<longrightarrow> ct_serial e < m \<Longrightarrow> m \<le> n \<Longrightarrow> replay db0 h n i = replay db0 h m i"
  unfolding replay_def by (rule arg_cong [where f = "\<lambda>l. fold _ (sort_key ct_serial l) _"], rule filter_cong) auto

lemma replay_write:
  assumes "\<forall>e\<in>set h. i \<in> writes e \<longrightarrow> ct_serial e < ct_serial c" "i \<in> writes c" "ct_serial c < n"
  shows "replay db0 (h @ [c]) n i = row_after c i (replay db0 h (ct_serial c) i)"
proof -
  have "filter (\<lambda>e. ct_serial e < n \<and> i \<in> writes e) h = filter (\<lambda>e. ct_serial e < ct_serial c \<and> i \<in> writes e) h"
    using assms by (intro filter_cong) auto
  then show ?thesis using assms unfolding replay_def by (simp add: sort_key_snoc)
qed

text \<open>Replaying item by item is running one after the other.\<close>

definition run_all :: "committed list \<Rightarrow> db \<Rightarrow> db" where
  "run_all cs db = fold (\<lambda>c. apply_writes (ct_writes c)) cs db"

lemma run_all_item: "run_all cs db i = fold (\<lambda>c. row_after c i) (filter (\<lambda>c. i \<in> writes c) cs) (db i)"
proof (induction cs arbitrary: db)
  case (Cons c cs)
  then show ?case
    using apply_writes_pointwise [of db i "\<lambda>_. db i"]
    by (auto simp: run_all_def row_after_def apply_writes_other)
qed (simp add: run_all_def)

lemma replay_run_all: "replay db0 h n i = run_all (filter (\<lambda>c. ct_serial c < n) (sort_key ct_serial h)) db0 i"
  by (simp add: replay_def run_all_item filter_sort [symmetric] conj_commute)

lemma serial_run_all:
  assumes "\<And>as c bs. cs = as @ c # bs \<Longrightarrow> (\<forall>(i, r)\<in>set (ct_reads c). run_all as db i = r) \<and>
    (\<forall>w\<in>set (ct_writes c). sn_is_insert w \<longrightarrow> fst (run_all as db (item_of w)) = [])"
  shows "serial_run db cs = Some (run_all cs db)"
  using assms
proof (induction cs arbitrary: db)
  case (Cons c cs)
  have "serial_run (apply_writes (ct_writes c) db) cs = Some (run_all cs (apply_writes (ct_writes c) db))"
  proof (rule Cons.IH)
    fix as d bs
    assume "cs = as @ d # bs"
    then show "(\<forall>(i, r)\<in>set (ct_reads d). run_all as (apply_writes (ct_writes c) db) i = r) \<and>
      (\<forall>w\<in>set (ct_writes d). sn_is_insert w \<longrightarrow> fst (run_all as (apply_writes (ct_writes c) db) (item_of w)) = [])"
      using Cons.prems [of "c # as" d bs] by (simp add: run_all_def)
  qed
  then show ?case using Cons.prems [of "[]" c cs] by (simp add: run_all_def)
qed (simp add: run_all_def)

lemma sorted_prefix_filter:
  assumes "sort_key ct_serial h = as @ c # bs" "distinct (map ct_serial h)"
  shows "filter (\<lambda>e. ct_serial e < ct_serial c) (sort_key ct_serial h) = as"
proof -
  have "distinct (map ct_serial (as @ c # bs))" using assms by (metis distinct_map distinct_sort mset_map mset_sort set_sort)
  moreover have "sorted (map ct_serial (as @ c # bs))" using assms(1) by (metis sorted_sort_key)
  ultimately have "\<forall>e\<in>set as. ct_serial e < ct_serial c" "\<forall>e\<in>set bs. ct_serial c < ct_serial e"
    by (auto simp: sorted_append le_less image_iff) (metis)+
  then show ?thesis using assms(1) by (simp add: filter_id_conv filter_empty_conv) (metis not_less_iff_gr_or_eq order_less_imp_le linorder_not_le)
qed

end
