(* ===== verification/SiloInvariant.thy ===== *)
theory SiloInvariant
  imports SiloSerial
begin

text \<open>
  The invariant of the protocol: locks have one holder and set the lock bit, a copy is good for as long as its version
  stands, validated reads agree with the serial order, items carry the rows of that order. The frame lemmas say what a
  step of one transaction leaves to the others.
\<close>

section \<open>The invariant\<close>

definition held_writes :: "silo_tx \<Rightarrow> snapshot list" where
  "held_writes x =
     (case sx_pc x of
        Locking k \<Rightarrow> take k (sx_write_set x) | Validating j \<Rightarrow> sx_write_set x | Installing k \<Rightarrow> sx_write_set x
      | Threw k \<Rightarrow> sx_write_set x | Unlocking k \<Rightarrow> drop k (sx_write_set x) | _ \<Rightarrow> [])"

definition held :: "silo_tx \<Rightarrow> nat list" where
  "held x = (case sx_pc x of RollingBack g is \<Rightarrow> is | _ \<Rightarrow> items_of (held_writes x))"

definition validating :: "silo_tx \<Rightarrow> bool" where
  "validating x \<longleftrightarrow> (case sx_pc x of Validating j \<Rightarrow> True | _ \<Rightarrow> False)"

definition committing :: "silo_tx \<Rightarrow> bool" where
  "committing x \<longleftrightarrow> (case sx_pc x of Installing k \<Rightarrow> True | Threw k \<Rightarrow> True | Unlocking k \<Rightarrow> True | _ \<Rightarrow> False)"

definition before_commit :: "silo_tx \<Rightarrow> bool" where
  "before_commit x \<longleftrightarrow>
     (case sx_pc x of Running \<Rightarrow> True | ReadLoaded i t \<Rightarrow> True | ReadCopied i t r \<Rightarrow> True | Locking k \<Rightarrow> True
      | Validating j \<Rightarrow> True | _ \<Rightarrow> False)"

text \<open>The writes that a committing transaction has not installed yet.\<close>

definition pending :: "silo_tx \<Rightarrow> snapshot list" where
  "pending x =
     (case sx_pc x of Installing k \<Rightarrow> drop k (sx_write_set x) | Threw k \<Rightarrow> drop k (sx_write_set x) | _ \<Rightarrow> [])"

definition busy :: "silo \<Rightarrow> nat set" where
  "busy s = {i. \<exists>x\<in>set (sl_txs s). committing x \<and> i \<in> set (held x)}"

abbreviation version :: "silo \<Rightarrow> nat \<Rightarrow> TransactionId" where
  "version s i \<equiv> tid_base (tid_at s i)"

text \<open>A copy taken at a version is the row for as long as the version stands and nobody installs.\<close>

definition seen :: "silo \<Rightarrow> nat \<Rightarrow> TransactionId \<Rightarrow> row \<Rightarrow> bool" where
  "seen s i t r \<longleftrightarrow> t \<le> version s i \<and> (t = version s i \<and> i \<notin> busy s \<longrightarrow> r = row_of (sl_items s i))"

definition locks_ok :: "silo \<Rightarrow> bool" where
  "locks_ok s \<longleftrightarrow>
     (\<forall>x\<in>set (sl_txs s). distinct (held x)) \<and>
     (\<forall>t u. t < length (sl_txs s) \<longrightarrow> u < length (sl_txs s) \<longrightarrow> t \<noteq> u \<longrightarrow> set (held (tx_at s t)) \<inter> set (held (tx_at s u)) = {}) \<and>
     (\<forall>i. tid_locked (tid_at s i) \<longleftrightarrow> (\<exists>x\<in>set (sl_txs s). i \<in> set (held x)))"

definition pc_ok :: "silo \<Rightarrow> silo_tx \<Rightarrow> bool" where
  "pc_ok s x \<longleftrightarrow>
     (case sx_pc x of
        ReadLoaded i t \<Rightarrow> \<not> tid_locked t \<and> t \<le> version s i
      | ReadCopied i t r \<Rightarrow> \<not> tid_locked t \<and> seen s i t r
      | Locking k \<Rightarrow> k \<le> length (sx_write_set x)
      | Validating j \<Rightarrow> j \<le> length (sx_validation_set x)
      | Installing k \<Rightarrow> k \<le> length (sx_write_set x)
      | Unlocking k \<Rightarrow> k \<le> length (sx_write_set x)
      | _ \<Rightarrow> True)"

definition tx_ok :: "silo \<Rightarrow> silo_tx \<Rightarrow> bool" where
  "tx_ok s x \<longleftrightarrow> pc_ok s x \<and> distinct (items_of (sx_write_set x)) \<and>
     (\<forall>w\<in>set (held_writes x). di_transaction_id (sn_data_item_copy w) = tid_at s (item_of w)) \<and>
     (validating x \<or> committing x \<longrightarrow> sx_epoch x \<le> sl_epoch s \<and> sx_serial x < sl_clock s \<and>
        (\<forall>i\<in>set (held x). tid_epoch (tid_at s i) \<le> sx_epoch x)) \<and>
     length (sx_reads x) = length (sx_validation_set x) \<and>
     (before_commit x \<longrightarrow>
        (\<forall>((i, t), r)\<in>set (zip (sx_validation_set x) (sx_reads x)). seen s i (tid_base t) r) \<and>
        (\<forall>(i, t)\<in>set (sx_validation_set x). tid_locked t \<longrightarrow> i \<in> set (held x)))"

text \<open>Reads that are validated, and those that are not.\<close>

definition validated_ok :: "db \<Rightarrow> silo \<Rightarrow> silo_tx \<Rightarrow> nat \<Rightarrow> bool" where
  "validated_ok db0 s x j \<longleftrightarrow>
     (\<forall>l<j. case (sx_validation_set x ! l, sx_reads x ! l) of ((i, t), r) \<Rightarrow>
        r = replay db0 (sl_history s) (sx_serial x) i \<and>
        (\<forall>u\<in>set (sl_txs s). validating u \<and> i \<in> set (held u) \<and> sx_serial u \<noteq> sx_serial x \<longrightarrow> sx_serial x < sx_serial u)) \<and>
     (\<forall>(i, t)\<in>set (sx_validation_set x). tid_base t = version s i \<and> i \<notin> busy s \<longrightarrow>
        (\<forall>e\<in>set (sl_history s). i \<in> writes e \<longrightarrow> ct_serial e < sx_serial x))"

definition tx_history_ok :: "db \<Rightarrow> silo \<Rightarrow> silo_tx \<Rightarrow> bool" where
  "tx_history_ok db0 s x \<longleftrightarrow>
     (validating x \<or> committing x \<longrightarrow>
        (\<forall>e\<in>set (sl_history s). \<forall>i\<in>set (held x). i \<in> writes e \<longrightarrow> ct_serial e = sx_serial x \<and> committing x \<or> ct_serial e < sx_serial x)) \<and>
     (case sx_pc x of Validating j \<Rightarrow> validated_ok db0 s x j | _ \<Rightarrow> True) \<and>
     (\<forall>w\<in>set (pending x). row_of (sl_items s (item_of w)) = replay db0 (sl_history s) (sx_serial x) (item_of w) \<and>
        write_row w (replay db0 (sl_history s) (sx_serial x) (item_of w)) = replay db0 (sl_history s) (sl_clock s) (item_of w))"

definition rows_ok :: "db \<Rightarrow> silo \<Rightarrow> bool" where
  "rows_ok db0 s \<longleftrightarrow>
     (\<forall>i. (\<forall>x\<in>set (sl_txs s). i \<notin> set (items_of (pending x))) \<longrightarrow>
        row_of (sl_items s i) = replay db0 (sl_history s) (sl_clock s) i) \<and>
     (\<forall>i. tid_epoch (tid_at s i) \<le> sl_epoch s)"

text \<open>The serial numbers and epochs of the transactions that have committed or may still do.\<close>

definition stamps :: "silo \<Rightarrow> (nat \<times> epoch_number) set" where
  "stamps s = (\<lambda>c. (ct_serial c, ct_epoch c)) ` set (sl_history s) \<union>
     (\<lambda>x. (sx_serial x, sx_epoch x)) ` {x\<in>set (sl_txs s). validating x}"

definition stamps_ok :: "silo \<Rightarrow> bool" where
  "stamps_ok s \<longleftrightarrow> distinct (map ct_serial (sl_history s)) \<and>
     (\<forall>x\<in>set (sl_txs s). validating x \<longrightarrow> sx_serial x \<notin> ct_serial ` set (sl_history s)) \<and>
     (\<forall>t u. t < length (sl_txs s) \<longrightarrow> u < length (sl_txs s) \<longrightarrow> t \<noteq> u \<longrightarrow> validating (tx_at s t) \<longrightarrow>
        validating (tx_at s u) \<longrightarrow> sx_serial (tx_at s t) \<noteq> sx_serial (tx_at s u)) \<and>
     (\<forall>(m, e)\<in>stamps s. m < sl_clock s \<and> e \<le> sl_epoch s) \<and>
     (\<forall>(m, e)\<in>stamps s. \<forall>(m', e')\<in>stamps s. m < m' \<longrightarrow> e \<le> e')"

definition history_ok :: "db \<Rightarrow> silo \<Rightarrow> bool" where
  "history_ok db0 s \<longleftrightarrow>
     (\<forall>e\<in>set (sl_history s). distinct (items_of (ct_writes e)) \<and>
        (\<forall>(i, r)\<in>set (ct_reads e). r = replay db0 (sl_history s) (ct_serial e) i \<and>
           (\<forall>u\<in>set (sl_txs s). validating u \<and> i \<in> set (held u) \<longrightarrow> ct_serial e < sx_serial u)) \<and>
        (\<forall>w\<in>set (ct_writes e). sn_is_insert w \<longrightarrow> fst (replay db0 (sl_history s) (ct_serial e) (item_of w)) = []))"

definition silo_inv :: "db \<Rightarrow> silo \<Rightarrow> bool" where
  "silo_inv db0 s \<longleftrightarrow> locks_ok s \<and> (\<forall>x\<in>set (sl_txs s). tx_ok s x \<and> tx_history_ok db0 s x) \<and> rows_ok db0 s \<and>
     stamps_ok s \<and> history_ok db0 s"

section \<open>Frames\<close>

lemma all_tx_update:
  "t < length l \<Longrightarrow> (\<forall>x\<in>set (l[t := x']). P x) \<longleftrightarrow> P x' \<and> (\<forall>u<length l. u \<noteq> t \<longrightarrow> P (l ! u))"
  unfolding all_set_conv_all_nth by (auto simp: nth_list_update)

lemma ex_tx_update:
  "t < length l \<Longrightarrow> (\<exists>x\<in>set (l[t := x']). P x) \<longleftrightarrow> P x' \<or> (\<exists>u<length l. u \<noteq> t \<and> P (l ! u))"
  using all_tx_update [of t l x' "\<lambda>x. \<not> P x"] by auto

lemma locks_okD:
  assumes "locks_ok s"
  shows "t < length (sl_txs s) \<Longrightarrow> distinct (held (tx_at s t))"
    "t < length (sl_txs s) \<Longrightarrow> u < length (sl_txs s) \<Longrightarrow> t \<noteq> u \<Longrightarrow> i \<in> set (held (tx_at s t)) \<Longrightarrow> i \<notin> set (held (tx_at s u))"
    "t < length (sl_txs s) \<Longrightarrow> i \<in> set (held (tx_at s t)) \<Longrightarrow> tid_locked (tid_at s i)"
    "tid_locked (tid_at s i) \<Longrightarrow> \<exists>t<length (sl_txs s). i \<in> set (held (tx_at s t))"
proof -
  show "t < length (sl_txs s) \<Longrightarrow> distinct (held (tx_at s t))" using assms by (simp add: locks_ok_def)
  show "t < length (sl_txs s) \<Longrightarrow> u < length (sl_txs s) \<Longrightarrow> t \<noteq> u \<Longrightarrow> i \<in> set (held (tx_at s t)) \<Longrightarrow> i \<notin> set (held (tx_at s u))"
    using assms unfolding locks_ok_def by blast
  show "t < length (sl_txs s) \<Longrightarrow> i \<in> set (held (tx_at s t)) \<Longrightarrow> tid_locked (tid_at s i)"
    using assms unfolding locks_ok_def by (meson nth_mem)
  show "tid_locked (tid_at s i) \<Longrightarrow> \<exists>t<length (sl_txs s). i \<in> set (held (tx_at s t))"
    using assms unfolding locks_ok_def by (metis in_set_conv_nth)
qed

text \<open>A step of transaction \<open>t\<close> that leaves it as \<open>x'\<close> and nothing in the history.\<close>

definition tx_update :: "silo \<Rightarrow> nat \<Rightarrow> silo_tx \<Rightarrow> silo \<Rightarrow> bool" where
  "tx_update s t x' s' \<longleftrightarrow> t < length (sl_txs s) \<and> sl_txs s' = (sl_txs s)[t := x'] \<and>
     sl_history s' = sl_history s \<and> sl_epoch s' = sl_epoch s \<and> sl_clock s \<le> sl_clock s'"

lemma locks_ok_update:
  assumes inv: "locks_ok s" and up: "t < length (sl_txs s)" "sl_txs s' = (sl_txs s)[t := x']" "distinct (held x')"
    and locked: "\<And>j. tid_locked (tid_at s' j) \<longleftrightarrow>
      (if j \<in> set (held (tx_at s t)) \<union> set (held x') then j \<in> set (held x') else tid_locked (tid_at s j))"
    and gain: "\<And>j. j \<in> set (held x') \<Longrightarrow> j \<notin> set (held (tx_at s t)) \<Longrightarrow> \<not> tid_locked (tid_at s j)"
  shows "locks_ok s'"
proof -
  have other: "j \<notin> set (held (tx_at s u))" if "u < length (sl_txs s)" "u \<noteq> t" "j \<in> set (held x')" for u j
    using that gain locks_okD(2) [OF inv up(1)] locks_okD(3) [OF inv] by (metis)
  have "\<forall>x\<in>set (sl_txs s'). distinct (held x)"
    using locks_okD(1) [OF inv] up by (simp add: all_tx_update)
  moreover have "set (held (tx_at s' v)) \<inter> set (held (tx_at s' u)) = {}"
    if "v < length (sl_txs s')" "u < length (sl_txs s')" "v \<noteq> u" for v u
    using that other locks_okD(2) [OF inv, of v u] up by (cases "v = t"; cases "u = t") auto
  moreover have "tid_locked (tid_at s' j) \<longleftrightarrow> (\<exists>x\<in>set (sl_txs s'). j \<in> set (held x))" for j
  proof -
    have "(\<exists>x\<in>set (sl_txs s'). j \<in> set (held x)) \<longleftrightarrow> j \<in> set (held x') \<or> (\<exists>u<length (sl_txs s). u \<noteq> t \<and> j \<in> set (held (tx_at s u)))"
      using up by (simp add: ex_tx_update)
    moreover have "\<not> (\<exists>u<length (sl_txs s). u \<noteq> t \<and> j \<in> set (held (tx_at s u)))" if "j \<in> set (held (tx_at s t)) \<union> set (held x')"
      using that other locks_okD(2) [OF inv up(1)] by blast
    moreover have "tid_locked (tid_at s j) \<longleftrightarrow> (\<exists>u<length (sl_txs s). u \<noteq> t \<and> j \<in> set (held (tx_at s u)))"
      if "j \<notin> set (held (tx_at s t)) \<union> set (held x')"
      using that locks_okD(3,4) [OF inv] by blast
    ultimately show ?thesis unfolding locked by (cases "j \<in> set (held (tx_at s t)) \<union> set (held x')") auto
  qed
  ultimately show ?thesis unfolding locks_ok_def by blast
qed

definition evolves :: "silo \<Rightarrow> silo \<Rightarrow> bool" where
  "evolves s s' \<longleftrightarrow>
     (\<forall>i. version s i \<le> version s' i \<and>
        (version s' i = version s i \<and> i \<notin> busy s' \<longrightarrow> i \<notin> busy s \<and> row_of (sl_items s' i) = row_of (sl_items s i)))"

lemma seen_evolves: "evolves s s' \<Longrightarrow> seen s i t r \<Longrightarrow> seen s' i t r"
  unfolding evolves_def seen_def by (metis order.trans order.antisym)

lemma busy_iff: "i \<in> busy s \<longleftrightarrow> (\<exists>u<length (sl_txs s). committing (tx_at s u) \<and> i \<in> set (held (tx_at s u)))"
  unfolding busy_def mem_Collect_eq by (metis in_set_conv_nth)

lemma evolves_update:
  assumes up: "t < length (sl_txs s)" "sl_txs s' = (sl_txs s)[t := x']"
    and "\<And>i. version s i \<le> version s' i"
    and "\<And>i. version s' i = version s i \<Longrightarrow> i \<notin> busy s' \<Longrightarrow> row_of (sl_items s' i) = row_of (sl_items s i)"
    and com: "\<And>i. committing (tx_at s t) \<Longrightarrow> i \<in> set (held (tx_at s t)) \<Longrightarrow>
      committing x' \<and> i \<in> set (held x') \<or> version s' i \<noteq> version s i"
  shows "evolves s s'"
proof -
  have "i \<notin> busy s" if "version s' i = version s i" "i \<notin> busy s'" for i
  proof
    assume "i \<in> busy s"
    then obtain u where u: "u < length (sl_txs s)" "committing (tx_at s u)" "i \<in> set (held (tx_at s u))" by (auto simp: busy_iff)
    show False
    proof (cases "u = t")
      case True
      then show False using u com [of i] that up by (metis busy_iff length_list_update nth_list_update_eq)
    next
      case False
      then show False using u that(2) up by (metis busy_iff length_list_update nth_list_update_neq)
    qed
  qed
  then show ?thesis using assms(3,4) unfolding evolves_def by blast
qed

lemma tx_ok_frame:
  assumes "tx_ok s y" "evolves s s'" "\<And>i. i \<in> set (held y) \<Longrightarrow> tid_at s' i = tid_at s i"
    "sl_epoch s \<le> sl_epoch s'" "sl_clock s \<le> sl_clock s'"
  shows "tx_ok s' y"
proof -
  have "pc_ok s' y"
    using assms(1,2) seen_evolves [OF assms(2)] unfolding tx_ok_def pc_ok_def
    by (auto split: silo_pc.splits simp: evolves_def intro: order.trans)
  moreover have "di_transaction_id (sn_data_item_copy w) = tid_at s' (item_of w)" if "w \<in> set (held_writes y)" for w
  proof -
    have "item_of w \<in> set (held y)" using that by (auto simp: held_def held_writes_def split: silo_pc.splits)
    then show ?thesis using assms(1,3) that by (simp add: tx_ok_def)
  qed
  moreover have "seen s' i (tid_base t) r"
    if "before_commit y" "((i, t), r) \<in> set (zip (sx_validation_set y) (sx_reads y))" for i t r
    using that assms(1) seen_evolves [OF assms(2)] unfolding tx_ok_def by blast
  ultimately show ?thesis using assms(1,3,4,5) unfolding tx_ok_def by fastforce
qed

lemma tx_ok_version:
  "tx_ok s y \<Longrightarrow> before_commit y \<Longrightarrow> (i, t) \<in> set (sx_validation_set y) \<Longrightarrow> tid_base t \<le> version s i"
proof -
  assume y: "tx_ok s y" "before_commit y" "(i, t) \<in> set (sx_validation_set y)"
  then obtain l where l: "l < length (sx_validation_set y)" "sx_validation_set y ! l = (i, t)" by (auto simp: in_set_conv_nth)
  then have "((i, t), sx_reads y ! l) \<in> set (zip (sx_validation_set y) (sx_reads y))"
    using y(1) unfolding tx_ok_def in_set_conv_nth by (auto intro!: exI [of _ l])
  then show ?thesis using y unfolding tx_ok_def seen_def by blast
qed

lemma tx_history_ok_frame:
  assumes "tx_history_ok db0 s y" "evolves s s'" "sl_history s' = sl_history s" "tx_ok s y"
    and clock: "\<And>i. replay db0 (sl_history s) (sl_clock s') i = replay db0 (sl_history s) (sl_clock s) i"
    and val: "\<And>u'. u' \<in> set (sl_txs s') \<Longrightarrow> validating u' \<Longrightarrow>
      (\<exists>u\<in>set (sl_txs s). validating u \<and> sx_serial u = sx_serial u' \<and> set (held u') \<subseteq> set (held u)) \<or> sl_clock s \<le> sx_serial u'"
    and rows: "\<And>w. w \<in> set (pending y) \<Longrightarrow> sl_items s' (item_of w) = sl_items s (item_of w)"
  shows "tx_history_ok db0 s' y"
proof -
  have "validated_ok db0 s' y j" if j: "sx_pc y = Validating j" for j
  proof -
    have v: "validated_ok db0 s y j" "sx_serial y < sl_clock s" "before_commit y"
      using assms(1,4) j by (auto simp: tx_history_ok_def validating_def tx_ok_def before_commit_def)
    have "sx_serial y < sx_serial u'" if "l < j" "sx_validation_set y ! l = (i, t)" "u' \<in> set (sl_txs s')" "validating u'" "i \<in> set (held u')"
        "sx_serial u' \<noteq> sx_serial y" for l i t u'
      using val [OF that(3,4)] that v unfolding validated_ok_def by fastforce
    moreover have "tid_base t = version s i \<and> i \<notin> busy s"
      if "(i, t) \<in> set (sx_validation_set y)" "tid_base t = version s' i" "i \<notin> busy s'" for i t
      using assms(2) that tx_ok_version [OF assms(4) v(3) that(1)] unfolding evolves_def by (metis order.antisym)
    ultimately show ?thesis
      using v(1) unfolding validated_ok_def assms(3) by (fastforce split: prod.splits)
  qed
  then show ?thesis
    using assms(1) rows clock unfolding tx_history_ok_def assms(3) by (auto split: silo_pc.splits)
qed

definition keeps_stamp :: "silo \<Rightarrow> silo_tx \<Rightarrow> silo_tx \<Rightarrow> silo \<Rightarrow> bool" where
  "keeps_stamp s x x' s' \<longleftrightarrow>
     validating x \<and> sx_serial x' = sx_serial x \<and> sx_epoch x' = sx_epoch x \<and> set (held x') \<subseteq> set (held x) \<or>
     sx_serial x' = sl_clock s \<and> sl_clock s < sl_clock s' \<and> sx_epoch x' = sl_epoch s"

lemma stamps_okD:
  assumes "stamps_ok s"
  shows "distinct (map ct_serial (sl_history s))"
    "u < length (sl_txs s) \<Longrightarrow> validating (tx_at s u) \<Longrightarrow> sx_serial (tx_at s u) \<notin> ct_serial ` set (sl_history s)"
    "t < length (sl_txs s) \<Longrightarrow> u < length (sl_txs s) \<Longrightarrow> t \<noteq> u \<Longrightarrow> validating (tx_at s t) \<Longrightarrow> validating (tx_at s u) \<Longrightarrow>
      sx_serial (tx_at s t) \<noteq> sx_serial (tx_at s u)"
    "(m, e) \<in> stamps s \<Longrightarrow> m < sl_clock s \<and> e \<le> sl_epoch s"
    "(m, e) \<in> stamps s \<Longrightarrow> (m', e') \<in> stamps s \<Longrightarrow> m < m' \<Longrightarrow> e \<le> e'"
    "c \<in> set (sl_history s) \<Longrightarrow> ct_serial c < sl_clock s"
proof -
  note st = assms [unfolded stamps_ok_def]
  show "distinct (map ct_serial (sl_history s))" by (rule conjunct1 [OF st])
  show "u < length (sl_txs s) \<Longrightarrow> validating (tx_at s u) \<Longrightarrow> sx_serial (tx_at s u) \<notin> ct_serial ` set (sl_history s)"
    using conjunct1 [OF conjunct2 [OF st]] nth_mem by blast
  show "t < length (sl_txs s) \<Longrightarrow> u < length (sl_txs s) \<Longrightarrow> t \<noteq> u \<Longrightarrow> validating (tx_at s t) \<Longrightarrow> validating (tx_at s u) \<Longrightarrow>
      sx_serial (tx_at s t) \<noteq> sx_serial (tx_at s u)"
    using conjunct1 [OF conjunct2 [OF conjunct2 [OF st]]] by blast
  show bound: "(m, e) \<in> stamps s \<Longrightarrow> m < sl_clock s \<and> e \<le> sl_epoch s" for m e
    using conjunct1 [OF conjunct2 [OF conjunct2 [OF conjunct2 [OF st]]]] by blast
  show "(m, e) \<in> stamps s \<Longrightarrow> (m', e') \<in> stamps s \<Longrightarrow> m < m' \<Longrightarrow> e \<le> e'"
    using conjunct2 [OF conjunct2 [OF conjunct2 [OF conjunct2 [OF st]]]] by blast
  show "c \<in> set (sl_history s) \<Longrightarrow> ct_serial c < sl_clock s" using bound [of "ct_serial c" "ct_epoch c"] by (simp add: stamps_def)
qed

lemma stamps_okI:
  assumes "distinct (map ct_serial (sl_history s))"
    "\<And>x. x \<in> set (sl_txs s) \<Longrightarrow> validating x \<Longrightarrow> sx_serial x \<notin> ct_serial ` set (sl_history s)"
    "\<And>t u. t < length (sl_txs s) \<Longrightarrow> u < length (sl_txs s) \<Longrightarrow> t \<noteq> u \<Longrightarrow> validating (tx_at s t) \<Longrightarrow> validating (tx_at s u) \<Longrightarrow>
      sx_serial (tx_at s t) \<noteq> sx_serial (tx_at s u)"
    "\<And>m e. (m, e) \<in> stamps s \<Longrightarrow> m < sl_clock s \<and> e \<le> sl_epoch s"
    "\<And>m e m' e'. (m, e) \<in> stamps s \<Longrightarrow> (m', e') \<in> stamps s \<Longrightarrow> m < m' \<Longrightarrow> e \<le> e'"
  shows "stamps_ok s"
  unfolding stamps_ok_def using assms by (intro conjI) blast+

lemma stamps_ok_update:
  assumes "stamps_ok s" and up: "tx_update s t x' s'" and val: "validating x' \<Longrightarrow> keeps_stamp s (tx_at s t) x' s'"
  shows "stamps_ok s'"
proof -
  note t = up [unfolded tx_update_def] and inv = stamps_okD [OF assms(1)]
  have old: "(sx_serial (tx_at s u), sx_epoch (tx_at s u)) \<in> stamps s" if "u < length (sl_txs s)" "validating (tx_at s u)" for u
    using that unfolding stamps_def by auto
  have x': "(sx_serial x', sx_epoch x') \<in> stamps s \<or> sx_serial x' = sl_clock s \<and> sl_clock s < sl_clock s' \<and> sx_epoch x' = sl_epoch s"
    if "validating x'"
    using val [OF that] old [of t] t unfolding keeps_stamp_def by auto
  have new: "(m, e) \<in> stamps s \<or> m = sl_clock s \<and> sl_clock s < sl_clock s' \<and> e = sl_epoch s" if "(m, e) \<in> stamps s'" for m e
  proof -
    have "(m, e) \<in> (\<lambda>c. (ct_serial c, ct_epoch c)) ` set (sl_history s) \<or>
        (\<exists>x\<in>set ((sl_txs s)[t := x']). validating x \<and> m = sx_serial x \<and> e = sx_epoch x)"
      using that t unfolding stamps_def by auto
    then have "(m, e) \<in> stamps s \<or> validating x' \<and> m = sx_serial x' \<and> e = sx_epoch x'"
      using old t by (auto simp: ex_tx_update stamps_def)
    then show ?thesis using x' by blast
  qed
  have hist: "sx_serial x' \<notin> ct_serial ` set (sl_history s)" if "validating x'"
    using val [OF that] inv(2) [of t] t unfolding keeps_stamp_def by (metis inv(6) imageE less_irrefl)
  have pair: "sx_serial x' \<noteq> sx_serial (tx_at s u)" if "validating x'" "u < length (sl_txs s)" "u \<noteq> t" "validating (tx_at s u)" for u
    using val [OF that(1)] inv(4) [OF old [OF that(2,4)]] inv(3) [of u t] that t unfolding keeps_stamp_def by auto
  show ?thesis
  proof (rule stamps_okI)
    show "sx_serial x \<notin> ct_serial ` set (sl_history s')" if "x \<in> set (sl_txs s')" "validating x" for x
      using that hist inv(2) t by (metis in_set_conv_nth length_list_update nth_list_update)
    show "sx_serial (tx_at s' v) \<noteq> sx_serial (tx_at s' u)" if "v < length (sl_txs s')" "u < length (sl_txs s')" "v \<noteq> u"
        "validating (tx_at s' v)" "validating (tx_at s' u)" for v u
      using that pair [of v] pair [of u] inv(3) [of v u] t by (cases "v = t"; cases "u = t") auto
    show "m < sl_clock s' \<and> e \<le> sl_epoch s'" if "(m, e) \<in> stamps s'" for m e
      using new [OF that] inv(4) [of m e] t by auto
    show "e \<le> e'" if "(m, e) \<in> stamps s'" "(m', e') \<in> stamps s'" "m < m'" for m e m' e'
      using new [OF that(1)] new [OF that(2)] that(3) inv(4) [of m e] inv(4) [of m' e'] inv(5) [of m e m' e'] by auto
  qed (use inv(1) t in simp)
qed

lemma silo_invD:
  assumes "silo_inv db0 s"
  shows "locks_ok s" "rows_ok db0 s" "stamps_ok s" "history_ok db0 s"
    "t < length (sl_txs s) \<Longrightarrow> tx_ok s (tx_at s t)" "t < length (sl_txs s) \<Longrightarrow> tx_history_ok db0 s (tx_at s t)"
  using assms unfolding silo_inv_def by auto

lemma validating_update:
  assumes up: "tx_update s t x' s'" and val: "validating x' \<Longrightarrow> keeps_stamp s (tx_at s t) x' s'"
    and "u' \<in> set (sl_txs s')" "validating u'"
  shows "(\<exists>u\<in>set (sl_txs s). validating u \<and> sx_serial u = sx_serial u' \<and> set (held u') \<subseteq> set (held u)) \<or> sl_clock s \<le> sx_serial u'"
proof -
  note t = up [unfolded tx_update_def]
  consider "u' = x'" | u where "u < length (sl_txs s)" "u' = tx_at s u"
    using assms(3) t by (metis in_set_conv_nth length_list_update nth_list_update)
  then show ?thesis
  proof cases
    case 1
    then show ?thesis using val assms(4) t unfolding keeps_stamp_def by (metis nth_mem order.refl)
  next
    case 2
    then show ?thesis using assms(4) by (metis nth_mem order.refl)
  qed
qed

lemma history_ok_update:
  assumes "history_ok db0 s" "stamps_ok s" and up: "tx_update s t x' s'" and val: "validating x' \<Longrightarrow> keeps_stamp s (tx_at s t) x' s'"
  shows "history_ok db0 s'"
proof -
  have h: "sl_history s' = sl_history s" using up by (simp add: tx_update_def)
  have "ct_serial e < sl_clock s" if "e \<in> set (sl_history s)" for e
    using assms(2) that unfolding stamps_ok_def stamps_def by fastforce
  then have "ct_serial e < sx_serial u'" if "e \<in> set (sl_history s)" "(i, r) \<in> set (ct_reads e)" "u' \<in> set (sl_txs s')" "validating u'"
      "i \<in> set (held u')" for e i r u'
    using validating_update [OF up val that(3,4)] that assms(1) unfolding history_ok_def by fastforce
  then show ?thesis using assms(1) unfolding history_ok_def h by fastforce
qed

lemma replay_clock:
  assumes "stamps_ok s" "sl_clock s \<le> n"
  shows "replay db0 (sl_history s) n i = replay db0 (sl_history s) (sl_clock s) i"
proof (rule replay_stable)
  show "\<forall>e\<in>set (sl_history s). i \<in> writes e \<longrightarrow> ct_serial e < sl_clock s"
    using assms(1) unfolding stamps_ok_def stamps_def by fastforce
qed (rule assms(2))

lemma silo_inv_update:
  assumes inv: "silo_inv db0 s" and up: "tx_update s t x' s'"
    and "distinct (held x')"
    and locked: "\<And>j. tid_locked (tid_at s' j) \<longleftrightarrow>
      (if j \<in> set (held (tx_at s t)) \<union> set (held x') then j \<in> set (held x') else tid_locked (tid_at s j))"
    and gain: "\<And>j. j \<in> set (held x') \<Longrightarrow> j \<notin> set (held (tx_at s t)) \<Longrightarrow> \<not> tid_locked (tid_at s j)"
    and same: "\<And>j. j \<notin> set (held (tx_at s t)) \<Longrightarrow> j \<notin> set (held x') \<Longrightarrow> sl_items s' j = sl_items s j"
    and ev: "evolves s s'"
    and val: "validating x' \<Longrightarrow> keeps_stamp s (tx_at s t) x' s'"
    and "rows_ok db0 s'" "tx_ok s' x'" "tx_history_ok db0 s' x'"
  shows "silo_inv db0 s'"
proof -
  note t = up [unfolded tx_update_def] and invs = silo_invD [OF inv]
  have "locks_ok s'" using t by (intro locks_ok_update [OF invs(1) _ _ assms(3) locked gain]) auto
  moreover have "tx_ok s' (tx_at s u) \<and> tx_history_ok db0 s' (tx_at s u)" if u: "u < length (sl_txs s)" "u \<noteq> t" for u
  proof
    have other: "sl_items s' i = sl_items s i" if i: "i \<in> set (held (tx_at s u))" for i
    proof (rule same)
      show "i \<notin> set (held (tx_at s t))" using locks_okD(2) [OF invs(1)] u t i by metis
      then show "i \<notin> set (held x')" using gain locks_okD(3) [OF invs(1) u(1) i] by metis
    qed
    show "tx_ok s' (tx_at s u)" by (rule tx_ok_frame [OF invs(5) [OF u(1)] ev]) (use other t in auto)
    show "tx_history_ok db0 s' (tx_at s u)"
    proof (rule tx_history_ok_frame [OF invs(6) [OF u(1)] ev _ invs(5) [OF u(1)]])
      show "sl_items s' (item_of w) = sl_items s (item_of w)" if "w \<in> set (pending (tx_at s u))" for w
        by (rule other) (use that in \<open>auto simp: pending_def held_def held_writes_def dest!: in_set_dropD split: silo_pc.splits\<close>)
      show "replay db0 (sl_history s) (sl_clock s') i = replay db0 (sl_history s) (sl_clock s) i" for i
        by (rule replay_clock [OF invs(3)]) (use t in simp)
    qed (use t validating_update [OF up val] in auto)
  qed
  ultimately show ?thesis
    using stamps_ok_update [OF invs(3) up val] history_ok_update [OF invs(4,3) up val] assms(9-11) t
    unfolding silo_inv_def by (simp add: all_tx_update)
qed

end
