(* ===== verification/SiloSteps.thy ===== *)
theory SiloSteps
  imports SiloInvariant
begin

text \<open>
  Every step of the protocol keeps the invariant.
\<close>

section \<open>Steps that touch no item\<close>

lemmas pc_defs = held_writes_def held_def validating_def committing_def before_commit_def pending_def pc_ok_def

lemma quiet_update:
  assumes inv: "silo_inv db0 s" and t: "t < length (sl_txs s)"
    and held: "held x' = held (tx_at s t)" and pend: "pending x' = pending (tx_at s t)"
    and com: "committing (tx_at s t) \<Longrightarrow> committing x' \<or> held x' = []"
    and val: "validating x' \<Longrightarrow> validating (tx_at s t) \<and> sx_serial x' = sx_serial (tx_at s t) \<and> sx_epoch x' = sx_epoch (tx_at s t)"
    and own: "tx_ok s x'" "tx_history_ok db0 s x'"
  shows "silo_inv db0 (put_tx s t x')"
proof -
  let ?s = "put_tx s t x'"
  note invs = silo_invD [OF inv]
  have up: "tx_update s t x' ?s" using t by (simp add: tx_update_def)
  have ev: "evolves s ?s" by (rule evolves_update [of t _ _ x']) (use t held com in auto)
  have keep: "validating x' \<Longrightarrow> keeps_stamp s (tx_at s t) x' ?s" using val held by (simp add: keeps_stamp_def)
  show ?thesis
  proof (rule silo_inv_update [OF inv up _ _ _ _ ev keep])
    show "distinct (held x')" using locks_okD(1) [OF invs(1) t] held by simp
    show "tid_locked (tid_at ?s j) \<longleftrightarrow>
        (if j \<in> set (held (tx_at s t)) \<union> set (held x') then j \<in> set (held x') else tid_locked (tid_at s j))" for j
      using held locks_okD(3) [OF invs(1) t] by simp
    show "rows_ok db0 ?s"
      using invs(2) t pend unfolding rows_ok_def by (simp add: all_tx_update) (metis in_set_conv_nth)
    show "tx_ok ?s x'" by (rule tx_ok_frame [OF own(1) ev]) auto
    show "tx_history_ok db0 ?s x'"
      by (rule tx_history_ok_frame [OF own(2) ev _ own(1)]) (use validating_update [OF up keep] in auto)
  qed (use held in auto)
qed

lemma distinct_items_of_ok: "write_set_ok loc ws \<Longrightarrow> distinct (items_of ws)"
proof -
  assume "write_set_ok loc ws"
  then have "map location ws = map loc (items_of ws)" "distinct (map location ws)" by (auto simp: write_set_ok_def)
  then show ?thesis by (metis distinct_map)
qed

lemma stage_inv:
  assumes "silo_inv db0 s" "t < length (sl_txs s)" "sx_pc (tx_at s t) = Running" "write_set_ok loc ws"
  shows "silo_inv db0 (put_tx s t ((tx_at s t)\<lparr>sx_write_set := ws\<rparr>))"
  by (rule quiet_update [OF assms(1,2)])
    (use silo_invD(5,6) [OF assms(1,2)] assms(3) distinct_items_of_ok [OF assms(4)] in \<open>auto simp: pc_defs tx_ok_def tx_history_ok_def\<close>)

lemma running_to_inv:
  assumes "silo_inv db0 s" "t < length (sl_txs s)" "before_commit (tx_at s t)" "held (tx_at s t) = []"
    and "pc = Running \<or> pc = Finished False \<or> (\<exists>i tx_id. pc = ReadLoaded i tx_id \<and> \<not> tid_locked tx_id \<and> tx_id \<le> version s i) \<or>
      (\<exists>i tx_id r. pc = ReadCopied i tx_id r \<and> \<not> tid_locked tx_id \<and> seen s i tx_id r)"
    and "\<not> validating (tx_at s t)"
  shows "silo_inv db0 (put_tx s t ((tx_at s t)\<lparr>sx_pc := pc\<rparr>))"
  by (rule quiet_update [OF assms(1,2)])
    (use silo_invD(5,6) [OF assms(1,2)] assms(3-6) in \<open>auto simp: pc_defs tx_ok_def tx_history_ok_def split: silo_pc.splits\<close>)

lemma precommit_inv:
  assumes "silo_inv db0 s" "t < length (sl_txs s)" "sx_pc (tx_at s t) = Running"
  shows "silo_inv db0 (put_tx s t ((tx_at s t)\<lparr>sx_write_set := SortWriteSet (sx_write_set (tx_at s t)), sx_pc := Locking 0\<rparr>))"
proof -
  have "distinct (items_of (SortWriteSet (sx_write_set (tx_at s t))))"
    using silo_invD(5) [OF assms(1,2)] unfolding tx_ok_def SortWriteSet_def
    by (metis distinct_map distinct_sort set_sort)
  then show ?thesis
    by (intro quiet_update [OF assms(1,2)])
      (use silo_invD(5,6) [OF assms(1,2)] assms(3) in \<open>auto simp: pc_defs tx_ok_def tx_history_ok_def\<close>)
qed

lemma rollback_begins_inv:
  assumes "silo_inv db0 s" "t < length (sl_txs s)" "sx_pc (tx_at s t) = Validating j"
  shows "silo_inv db0 (put_tx s t (start_rollback (tx_at s t)))"
  by (rule quiet_update [OF assms(1,2)])
    (use silo_invD(5,6) [OF assms(1,2)] assms(3) in \<open>auto simp: pc_defs tx_ok_def tx_history_ok_def start_rollback_def\<close>)

lemma committing_quiet_inv:
  assumes "silo_inv db0 s" "t < length (sl_txs s)"
  shows "sx_pc (tx_at s t) = Installing k \<Longrightarrow> silo_inv db0 (put_tx s t ((tx_at s t)\<lparr>sx_pc := Threw k\<rparr>))"
    "sx_pc (tx_at s t) = Installing (length (sx_write_set (tx_at s t))) \<Longrightarrow> silo_inv db0 (put_tx s t ((tx_at s t)\<lparr>sx_pc := Unlocking 0\<rparr>))"
    "sx_pc (tx_at s t) = Unlocking (length (sx_write_set (tx_at s t))) \<Longrightarrow> silo_inv db0 (put_tx s t ((tx_at s t)\<lparr>sx_pc := Finished True\<rparr>))"
    "sx_pc (tx_at s t) = RollingBack guarded [] \<Longrightarrow> silo_inv db0 (put_tx s t ((tx_at s t)\<lparr>sx_pc := Finished False\<rparr>))"
  by (rule quiet_update [OF assms];
      use silo_invD(5,6) [OF assms] in \<open>simp add: pc_defs tx_ok_def tx_history_ok_def\<close>)+

lemma recheck_inv:
  assumes inv: "silo_inv db0 s" and t: "t < length (sl_txs s)" and pc: "sx_pc (tx_at s t) = ReadCopied i tx_id r"
  shows "silo_inv db0 (read_recheck s t i tx_id r validated)"
proof -
  note own = silo_invD(5,6) [OF inv t]
  have sn: "\<not> tid_locked tx_id" "seen s i tx_id r" using own(1) pc by (auto simp: tx_ok_def pc_ok_def)
  show ?thesis
  proof (cases "tid_at s i = tx_id \<and> validated")
    case True
    let ?x = "(tx_at s t)\<lparr>sx_pc := Running, sx_validation_set := sx_validation_set (tx_at s t) @ [(i, tx_id)],
      sx_reads := sx_reads (tx_at s t) @ [r]\<rparr>"
    have "silo_inv db0 (put_tx s t ?x)"
      by (rule quiet_update [OF inv t]) (use own pc sn in \<open>auto simp: pc_defs tx_ok_def tx_history_ok_def\<close>)
    then show ?thesis using True by (simp add: read_recheck_def)
  next
    case False
    have "silo_inv db0 (put_tx s t ((tx_at s t)\<lparr>sx_pc := Running\<rparr>))"
      by (rule running_to_inv [OF inv t]) (use pc in \<open>auto simp: pc_defs\<close>)
    then show ?thesis using False by (auto simp: read_recheck_def Let_def)
  qed
qed

lemma pending_held: "i \<in> set (items_of (pending x)) \<Longrightarrow> committing x \<and> i \<in> set (held x)"
  by (auto simp: pc_defs dest!: in_set_dropD split: silo_pc.splits)

lemma not_busy_row:
  assumes inv: "silo_inv db0 s" and "i \<notin> busy s"
  shows "row_of (sl_items s i) = replay db0 (sl_history s) (sl_clock s) i"
proof -
  have "i \<notin> set (items_of (pending x))" if "x \<in> set (sl_txs s)" for x
    using pending_held assms(2) that unfolding busy_def by blast
  then show ?thesis using silo_invD(2) [OF inv] unfolding rows_ok_def by blast
qed

text \<open>An item that a transaction other than the one that commits can hold is neither busy nor held elsewhere.\<close>

lemma own_or_free:
  assumes inv: "silo_inv db0 s" and t: "t < length (sl_txs s)" "\<not> committing (tx_at s t)"
    and "tid_locked (tid_at s i) \<Longrightarrow> i \<in> set (held (tx_at s t))"
  shows "i \<notin> busy s" "u < length (sl_txs s) \<Longrightarrow> i \<in> set (held (tx_at s u)) \<Longrightarrow> u = t"
proof -
  note lk = silo_invD(1) [OF inv]
  show u: "u = t" if "u < length (sl_txs s)" "i \<in> set (held (tx_at s u))" for u
    using that assms(4) locks_okD(3) [OF lk that] locks_okD(2) [OF lk t(1)] by metis
  show "i \<notin> busy s" using u t(2) by (auto simp: busy_iff)
qed

lemma validate_inv:
  assumes inv: "silo_inv db0 s" and t: "t < length (sl_txs s)" and pc: "sx_pc (tx_at s t) = Validating j"
    and j: "j < length (sx_validation_set (tx_at s t))"
  shows "silo_inv db0 (AntiDependencyValidation_step s t j)"
proof -
  let ?x = "tx_at s t"
  note own = silo_invD(5,6) [OF inv t]
  obtain i t' where e: "sx_validation_set ?x ! j = (i, t')" by force
  let ?r = "sx_reads ?x ! j" and ?h = "sl_history s"
  show ?thesis
  proof (cases "tid_at s i = t'")
    case True
    have mem: "(i, t') \<in> set (sx_validation_set ?x)" "((i, t'), ?r) \<in> set (zip (sx_validation_set ?x) (sx_reads ?x))"
      using j e own(1) by (auto simp: in_set_conv_nth tx_ok_def intro!: exI [of _ j])
    have v: "validated_ok db0 s ?x j" "before_commit ?x" "\<not> committing ?x" using own(2) pc by (auto simp: tx_history_ok_def pc_defs)
    have "tid_locked (tid_at s i) \<Longrightarrow> i \<in> set (held ?x)" using own(1) v(2) mem(1) True unfolding tx_ok_def by blast
    note free = own_or_free [OF inv t v(3) this]
    have "seen s i (tid_base t') ?r" using own(1) v(2) mem(2) unfolding tx_ok_def by blast
    then have "?r = replay db0 ?h (sl_clock s) i" using free(1) True not_busy_row [OF inv free(1)] by (simp add: seen_def)
    moreover have "\<forall>e\<in>set ?h. i \<in> writes e \<longrightarrow> ct_serial e < sx_serial ?x"
      using v(1) mem(1) True free(1) unfolding validated_ok_def by blast
    then have "replay db0 ?h (sl_clock s) i = replay db0 ?h (sx_serial ?x) i"
      by (rule replay_stable) (use own(1) pc in \<open>simp add: tx_ok_def validating_def\<close>)
    moreover have "\<not> (i \<in> set (held u) \<and> sx_serial u \<noteq> sx_serial ?x)" if "u \<in> set (sl_txs s)" for u
      using that free(2) by (metis in_set_conv_nth)
    ultimately have "validated_ok db0 s ?x (Suc j)" using v(1) e unfolding validated_ok_def by (auto simp: less_Suc_eq)
    then have "silo_inv db0 (put_tx s t (?x\<lparr>sx_pc := Validating (j + 1)\<rparr>))"
      by (intro quiet_update [OF inv t])
        (use own pc j in \<open>simp_all add: pc_defs tx_ok_def tx_history_ok_def validated_ok_def\<close>)
    then show ?thesis using True e by (simp add: AntiDependencyValidation_step_def)
  next
    case False
    then show ?thesis using rollback_begins_inv [OF inv t pc] e by (simp add: AntiDependencyValidation_step_def Let_def)
  qed
qed

section \<open>Steps that change a version word\<close>

lemma items_of_update: "item_of w' = item_of (ws ! k) \<Longrightarrow> items_of (ws[k := w']) = items_of ws"
  by (metis list_update_beyond list_update_id map_update not_le nth_map)

lemma row_of_tid [simp]: "row_of (d\<lparr>di_transaction_id := t\<rparr>) = row_of d"
  by (simp add: row_of_def)

lemma rows_ok_same:
  assumes "rows_ok db0 s" "tx_update s t x' s'" "stamps_ok s" "pending (tx_at s t) = []" "pending x' = []"
    and "\<And>i. row_of (sl_items s' i) = row_of (sl_items s i)" "\<And>i. tid_epoch (tid_at s' i) \<le> sl_epoch s"
  shows "rows_ok db0 s'"
proof -
  note t = assms(2) [unfolded tx_update_def]
  have "row_of (sl_items s' i) = replay db0 (sl_history s) (sl_clock s') i" if "\<forall>x\<in>set (sl_txs s'). i \<notin> set (items_of (pending x))" for i
  proof -
    have "\<forall>x\<in>set (sl_txs s). i \<notin> set (items_of (pending x))"
      using that t assms(4) by (auto simp: all_tx_update in_set_conv_nth) (metis nth_mem set_map image_eqI empty_iff list.set(1) in_set_conv_nth)
    then show ?thesis using assms(1,6) replay_clock [OF assms(3), of "sl_clock s'"] t unfolding rows_ok_def by simp
  qed
  then show ?thesis using assms(7) t by (simp add: rows_ok_def)
qed

lemma tx_okI:
  assumes "pc_ok s x" "distinct (items_of (sx_write_set x))"
    "\<And>w. w \<in> set (held_writes x) \<Longrightarrow> di_transaction_id (sn_data_item_copy w) = tid_at s (item_of w)"
    "validating x \<or> committing x \<Longrightarrow> sx_epoch x \<le> sl_epoch s \<and> sx_serial x < sl_clock s \<and>
       (\<forall>i\<in>set (held x). tid_epoch (tid_at s i) \<le> sx_epoch x)"
    "length (sx_reads x) = length (sx_validation_set x)"
    "\<And>i t r. before_commit x \<Longrightarrow> ((i, t), r) \<in> set (zip (sx_validation_set x) (sx_reads x)) \<Longrightarrow> seen s i (tid_base t) r"
    "\<And>i t. before_commit x \<Longrightarrow> (i, t) \<in> set (sx_validation_set x) \<Longrightarrow> tid_locked t \<Longrightarrow> i \<in> set (held x)"
  shows "tx_ok s x"
  unfolding tx_ok_def using assms by blast

lemma lock_tx_ok:
  assumes own: "tx_ok s x" and x: "sx_pc x = Locking k" "k < length (sx_write_set x)" and i: "i = item_of (sx_write_set x ! k)"
    and free: "i \<notin> set (held x)" and s': "evolves s s'" "tid_at s' i = tid_lock (tid_at s i)" "\<And>j. j \<noteq> i \<Longrightarrow> tid_at s' j = tid_at s j"
  shows "tx_ok s' (x\<lparr>sx_write_set := (sx_write_set x)[k := with_tid (sx_write_set x ! k) (tid_lock (tid_at s i))],
      sx_pc := Locking (k + 1), sx_validation_set := own_locks i (sx_validation_set x)\<rparr>)" (is "tx_ok s' ?x")
proof -
  let ?w = "with_tid (sx_write_set x ! k) (tid_lock (tid_at s i))"
  have hw: "held_writes ?x = take k (sx_write_set x) @ [?w]" "held ?x = held x @ [i]"
    using x i by (auto simp: pc_defs take_Suc_conv_app_nth take_map map_update)
  show ?thesis
  proof (rule tx_okI)
    show "pc_ok s' ?x" using x by (simp add: pc_ok_def)
    show "distinct (items_of (sx_write_set ?x))" using own by (simp add: tx_ok_def items_of_update)
    show "di_transaction_id (sn_data_item_copy w) = tid_at s' (item_of w)" if "w \<in> set (held_writes ?x)" for w
    proof (cases "w = ?w")
      case True
      then show ?thesis using s'(2) i by simp
    next
      case False
      then have "w \<in> set (held_writes x)" using that hw(1) x(1) by (auto simp: held_writes_def)
      moreover from this have "item_of w \<noteq> i" using free x(1) by (auto simp: pc_defs)
      ultimately show ?thesis using own s'(3) by (simp add: tx_ok_def)
    qed
    show "seen s' j (tid_base t) r" if jt: "((j, t), r) \<in> set (zip (sx_validation_set ?x) (sx_reads ?x))" for j t r
    proof -
      have "zip (own_locks i vs) rs = map (\<lambda>((j, t), r). (if j = i then (j, tid_lock t) else (j, t), r)) (zip vs rs)" for vs and rs :: "row list"
        by (simp add: own_locks_def zip_map1 map_zip_map split_def)
      then obtain t0 where "((j, t0), r) \<in> set (zip (sx_validation_set x) (sx_reads x))" "tid_base t = tid_base t0"
        using jt by (auto split: if_splits)
      then show ?thesis using own x(1) seen_evolves [OF s'(1)] unfolding tx_ok_def before_commit_def by fastforce
    qed
    show "j \<in> set (held ?x)" if "(j, t) \<in> set (sx_validation_set ?x)" "tid_locked t" for j t
      using that own x(1) hw(2) unfolding tx_ok_def before_commit_def by (auto simp: own_locks_def split: if_splits)
  qed (use own in \<open>simp_all add: tx_ok_def own_locks_def validating_def committing_def\<close>)
qed

lemma lock_inv:
  assumes inv: "silo_inv db0 s" and t: "t < length (sl_txs s)" and pc: "sx_pc (tx_at s t) = Locking k"
    and k: "k < length (sx_write_set (tx_at s t))" and free: "\<not> tid_locked (tid_at s (item_of (sx_write_set (tx_at s t) ! k)))"
  shows "silo_inv db0 (lock_write s t k attached)"
proof -
  let ?x = "tx_at s t" and ?s = "lock_write s t k attached"
  define i where "i = item_of (sx_write_set ?x ! k)"
  define x' where "x' = tx_at ?s t"
  note invs = silo_invD [OF inv] and own = silo_invD(5,6) [OF inv t]
  have s: "sl_items ?s = (sl_items s)(i := (sl_items s i)\<lparr>di_transaction_id := tid_lock (tid_at s i)\<rparr>)"
    by (simp add: lock_write_def Let_def i_def)
  have up: "tx_update s t x' ?s" using t by (simp add: tx_update_def x'_def lock_write_def Let_def)
  have iheld: "i \<notin> set (held ?x)" using locks_okD(3) [OF invs(1) t] free i_def by metis
  have held: "held x' = held ?x @ [i]" and x': "\<not> validating x'" "\<not> committing x'" "pending x' = []"
    and x: "\<not> committing ?x" "pending ?x = []"
    using t k pc by (auto simp: x'_def lock_write_def Let_def pc_defs i_def take_Suc_conv_app_nth take_map map_update)
  have ev: "evolves s ?s" by (rule evolves_update [of t _ _ x']) (use up x s in \<open>auto simp: tx_update_def\<close>)
  show ?thesis
  proof (rule silo_inv_update [OF inv up _ _ _ _ ev])
    show "distinct (held x')" using locks_okD(1) [OF invs(1) t] held iheld by simp
    show "rows_ok db0 ?s" by (rule rows_ok_same [OF invs(2) up invs(3) x(2) x'(3)]) (use invs(2) s in \<open>auto simp: rows_ok_def\<close>)
    show "tx_ok ?s x'"
    proof (cases attached)
      case True
      then show ?thesis using lock_tx_ok [OF own(1) pc k i_def iheld ev] s t by (simp add: x'_def lock_write_def Let_def i_def)
    next
      case False
      then show ?thesis using own(1) t by (simp add: tx_ok_def x'_def lock_write_def Let_def pc_defs items_of_update)
    qed
    show "tx_history_ok db0 ?s x'" using x' by (auto simp: tx_history_ok_def validating_def split: silo_pc.splits)
  qed (use held s x' locks_okD(3) [OF invs(1) t] free i_def in auto)
qed

lemma rollback_inv:
  assumes inv: "silo_inv db0 s" and t: "t < length (sl_txs s)" and pc: "sx_pc (tx_at s t) = RollingBack guarded (i # rest)"
  shows "silo_inv db0 (rollback_step s t guarded i rest)"
proof -
  let ?x = "tx_at s t" and ?s = "rollback_step s t guarded i rest"
  define x' where "x' = ?x\<lparr>sx_pc := RollingBack guarded rest\<rparr>"
  note invs = silo_invD [OF inv] and own = silo_invD(5,6) [OF inv t]
  have held: "held ?x = i # rest" "held x' = rest" using pc by (simp_all add: x'_def held_def)
  have lk: "tid_locked (tid_at s i)" "i \<notin> set rest" "distinct rest"
    using locks_okD(1,3) [OF invs(1) t] held(1) by auto
  have s: "sl_items ?s = (sl_items s)(i := (sl_items s i)\<lparr>di_transaction_id := tid_base (tid_at s i)\<rparr>)"
    using lk(1) by (simp add: rollback_step_def Let_def)
  have up: "tx_update s t x' ?s" using t by (simp add: tx_update_def x'_def rollback_step_def Let_def)
  have pc': "\<not> committing ?x" "pending ?x = []" "pending x' = []" "\<not> validating x'" "\<not> committing x'" using pc by (simp_all add: x'_def pc_defs)
  have ev: "evolves s ?s" by (rule evolves_update [of t _ _ x']) (use up pc' s in \<open>auto simp: tx_update_def\<close>)
  show ?thesis
  proof (rule silo_inv_update [OF inv up _ _ _ _ ev])
    show "rows_ok db0 ?s" by (rule rows_ok_same [OF invs(2) up invs(3) pc'(2,3)]) (use invs(2) s in \<open>auto simp: rows_ok_def\<close>)
    show "tx_ok ?s x'" using own(1) by (simp add: tx_ok_def x'_def pc_defs)
    show "tx_history_ok db0 ?s x'" using pc' by (simp add: tx_history_ok_def x'_def)
  qed (use held lk s pc' locks_okD(3) [OF invs(1) t] in auto)
qed

lemma install_inv:
  assumes inv: "silo_inv db0 s" and t: "t < length (sl_txs s)" and pc: "sx_pc (tx_at s t) = Installing k"
    and k: "k < length (sx_write_set (tx_at s t))"
  shows "silo_inv db0 (install_step s t k)"
proof (cases "install_write (sx_write_set (tx_at s t) ! k) (sl_items s (item_of (sx_write_set (tx_at s t) ! k)))")
  case (Inl e)
  then show ?thesis using committing_quiet_inv(1) [OF inv t pc] by (simp add: install_step_def)
next
  case (Inr r)
  obtain d' w' where r: "r = (d', w')" by force
  let ?x = "tx_at s t" and ?s = "install_step s t k"
  define w i where "w = sx_write_set ?x ! k" and "i = item_of w"
  define x' where "x' = ?x\<lparr>sx_write_set := (sx_write_set ?x)[k := w'], sx_pc := Installing (k + 1)\<rparr>"
  note invs = silo_invD [OF inv] and own = silo_invD(5,6) [OF inv t]
  have ww: "w \<in> set (held_writes ?x)" "pending ?x = w # pending x'" "held x' = held ?x" "i \<in> set (held ?x)"
      "distinct (items_of (sx_write_set x'))"
    and com: "committing ?x" "committing x'" "\<not> validating x'"
    using pc k own(1) install_write_row(2) [OF Inr [unfolded r]]
    by (auto simp: w_def i_def x'_def pc_defs Cons_nth_drop_Suc items_of_update tx_ok_def)
  have iw: "row_of d' = write_row w (row_of (sl_items s i))" "item_of w' = i" "di_transaction_id d' = tid_at s i"
      "di_transaction_id (sn_data_item_copy w') = tid_at s i"
    using install_write_row [OF Inr [unfolded r]] own(1) ww(1) by (auto simp: w_def i_def tx_ok_def)
  have s: "?s = put_tx (put_item s i d') t x'"
    using Inr r by (simp add: install_step_def Let_def w_def i_def x'_def)
  have tids: "tid_at ?s j = tid_at s j" for j using s iw(3) by simp
  have up: "tx_update s t x' ?s" using t s by (simp add: tx_update_def)
  have busy: "i \<in> busy ?s" using ww(3,4) com(2) t s by (auto simp: busy_iff intro!: exI [of _ t])
  have ev: "evolves s ?s" by (rule evolves_update [of t _ _ x']) (use t s iw(3) busy ww(3) com in \<open>auto simp: tids\<close>)
  have pend: "j \<noteq> i" if "j \<in> set (items_of (pending x'))" for j
    using that own(1) pc k unfolding x'_def pending_def tx_ok_def i_def w_def
    by (auto simp: in_set_conv_nth distinct_conv_nth)
  show ?thesis
  proof (rule silo_inv_update [OF inv up _ _ _ _ ev])
    show "distinct (held x')" using locks_okD(1) [OF invs(1) t] ww(3) by simp
    show "rows_ok db0 ?s"
    proof -
      have "row_of (sl_items ?s j) = replay db0 (sl_history s) (sl_clock s) j"
        if "\<forall>x\<in>set (sl_txs ?s). j \<notin> set (items_of (pending x))" for j
      proof (cases "j = i")
        case True
        then show ?thesis using own(2) ww(2) iw(1) s by (simp add: tx_history_ok_def i_def)
      next
        case False
        then have "\<forall>x\<in>set (sl_txs s). j \<notin> set (items_of (pending x))"
          using that ww(2) t s by (simp add: all_tx_update i_def) (metis in_set_conv_nth insert_iff list.simps(15) list.set_map list.simps(9))
        then show ?thesis using invs(2) False s by (simp add: rows_ok_def)
      qed
      then show ?thesis using invs(2) tids s by (simp add: rows_ok_def)
    qed
    show "tx_ok ?s x'"
    proof (rule tx_okI)
      show "di_transaction_id (sn_data_item_copy v) = tid_at ?s (item_of v)" if "v \<in> set (held_writes x')" for v
      proof (cases "v = w'")
        case False
        then have "v \<in> set (held_writes ?x)" using that pc set_update_subset_insert [of "sx_write_set ?x" k w'] by (auto simp: x'_def pc_defs)
        then show ?thesis using own(1) tids by (simp add: tx_ok_def)
      qed (use iw tids in simp)
    qed (use own(1) pc k ww com tids s in \<open>auto simp: tx_ok_def x'_def pc_ok_def before_commit_def\<close>)
    show "tx_history_ok db0 ?s x'"
      using own(2) com ww(2,3) pend s by (auto simp: tx_history_ok_def x'_def)
  qed (use ww tids com s locks_okD(3) [OF invs(1) t] in auto)
qed

lemma unlock_inv:
  assumes inv: "silo_inv db0 s" and t: "t < length (sl_txs s)" and pc: "sx_pc (tx_at s t) = Unlocking k"
    and k: "k < length (sx_write_set (tx_at s t))" and fit: "tids_fit s"
  shows "silo_inv db0 (PostProcessing_step s t k)"
proof -
  let ?x = "tx_at s t" and ?s = "PostProcessing_step s t k"
  define w i where "w = sx_write_set ?x ! k" and "i = item_of w"
  define x' where "x' = ?x\<lparr>sx_write_set := (sx_write_set ?x)[k := with_tid w (unlocked_id (sx_epoch ?x) (tid_at s i))], sx_pc := Unlocking (k + 1)\<rparr>"
  note invs = silo_invD [OF inv] and own = silo_invD(5,6) [OF inv t]
  have dr: "drop k (sx_write_set ?x) = w # drop (Suc k) (sx_write_set ?x)" using k by (simp add: w_def Cons_nth_drop_Suc)
  have hw: "held_writes ?x = w # held_writes x'" "held ?x = i # held x'" "pending ?x = []" "pending x' = []"
      "distinct (items_of (sx_write_set x'))"
    and com: "committing ?x" "committing x'" "\<not> validating x'"
    using pc own(1) dr by (simp_all add: i_def x'_def pc_defs items_of_update tx_ok_def w_def)
  have i: "tid_locked (tid_at s i)" "i \<notin> set (held x')" "distinct (held x')"
    using locks_okD(1,3) [OF invs(1) t] hw(2) by auto
  have ep: "tid_epoch (tid_at s i) \<le> sx_epoch ?x" "sx_epoch ?x \<le> sl_epoch s" "di_transaction_id (sn_data_item_copy w) = tid_at s i"
    using own(1) com(1) hw(1,2) by (auto simp: tx_ok_def i_def)
  note new = unlocked_id_advances [OF i(1) _ ep(1)]
  have fit': "tid_tid (tid_at s i) \<noteq> 0xFFFFFFFF" using fit by (simp add: tids_fit_def)
  have s: "?s = put_tx (put_item s i ((sl_items s i)\<lparr>di_transaction_id := unlocked_id (sx_epoch ?x) (tid_at s i)\<rparr>)) t x'"
    using ep(3) by (simp add: PostProcessing_step_def Let_def w_def i_def x'_def)
  have up: "tx_update s t x' ?s" using t s by (simp add: tx_update_def)
  have ev: "evolves s ?s"
    by (rule evolves_update [of t _ _ x']) (use t s com hw(2) new [OF fit'] in \<open>auto split: if_splits\<close>)
  show ?thesis
  proof (rule silo_inv_update [OF inv up i(3) _ _ _ ev])
    show "rows_ok db0 ?s"
      by (rule rows_ok_same [OF invs(2) up invs(3) hw(3,4)]) (use invs(2) s new [OF fit'] ep in \<open>auto simp: rows_ok_def\<close>)
    show "tx_ok ?s x'"
    proof (rule tx_okI)
      show "di_transaction_id (sn_data_item_copy v) = tid_at ?s (item_of v)" if "v \<in> set (held_writes x')" for v
        using that own(1) hw(1,2) i(2) s by (auto simp: tx_ok_def held_def x'_def)
    qed (use own(1) k hw com i s in \<open>auto simp: tx_ok_def x'_def pc_ok_def before_commit_def\<close>)
    show "tx_history_ok db0 ?s x'" using own(2) com hw s by (auto simp: tx_history_ok_def x'_def)
  qed (use hw i s com new(2) [OF fit'] locks_okD(3) [OF invs(1) t] in auto)
qed

section \<open>The serialization point and the decision\<close>

lemma refresh_inv:
  assumes inv: "silo_inv db0 s" and t: "t < length (sl_txs s)" and pc: "sx_pc (tx_at s t) = Locking (length (sx_write_set (tx_at s t)))"
  shows "silo_inv db0 (refresh_epoch s t)"
proof -
  let ?x = "tx_at s t" and ?s = "refresh_epoch s t"
  define x' where "x' = ?x\<lparr>sx_pc := Validating 0, sx_epoch := sl_epoch s, sx_serial := sl_clock s\<rparr>"
  note invs = silo_invD [OF inv] and own = silo_invD(5,6) [OF inv t]
  have up: "tx_update s t x' ?s" using t by (simp add: tx_update_def x'_def refresh_epoch_def)
  have held: "held x' = held ?x" "held_writes x' = held_writes ?x" using pc by (simp_all add: x'_def pc_defs)
  have pc': "\<not> committing ?x" "pending ?x = []" "pending x' = []" "validating x'" "\<not> committing x'" "before_commit ?x"
    using pc by (simp_all add: x'_def pc_defs)
  have s: "sl_items ?s = sl_items s" "sl_history ?s = sl_history s" "sl_epoch ?s = sl_epoch s" "sl_clock ?s = sl_clock s + 1"
    by (simp_all add: refresh_epoch_def)
  have ev: "evolves s ?s" by (rule evolves_update [of t _ _ x']) (use up pc' s in \<open>auto simp: tx_update_def\<close>)
  show ?thesis
  proof (rule silo_inv_update [OF inv up _ _ _ _ ev])
    show "distinct (held x')" using locks_okD(1) [OF invs(1) t] held by simp
    show "rows_ok db0 ?s" by (rule rows_ok_same [OF invs(2) up invs(3) pc'(2,3)]) (use invs(2) s in \<open>auto simp: rows_ok_def\<close>)
    show "tx_ok ?s x'"
    proof (rule tx_okI)
      show "sx_epoch x' \<le> sl_epoch ?s \<and> sx_serial x' < sl_clock ?s \<and> (\<forall>i\<in>set (held x'). tid_epoch (tid_at ?s i) \<le> sx_epoch x')"
        using invs(2) s by (simp add: x'_def rows_ok_def)
      show "seen ?s i (tid_base t') r" if "((i, t'), r) \<in> set (zip (sx_validation_set x') (sx_reads x'))" for i t' r
        by (rule seen_evolves [OF ev]) (use that own(1) pc'(6) in \<open>auto simp: tx_ok_def x'_def\<close>)
    qed (use own(1) held pc' s in \<open>auto simp: tx_ok_def x'_def pc_ok_def\<close>)
    show "tx_history_ok db0 ?s x'"
      using pc' stamps_okD(6) [OF invs(3)] s by (auto simp: tx_history_ok_def x'_def validated_ok_def)
    show "keeps_stamp s ?x x' ?s" using s by (simp add: keeps_stamp_def x'_def)
  qed (use held s locks_okD(3) [OF invs(1) t] in auto)
qed

text \<open>The transaction commits: the facts that hold when it passes the last check.\<close>

lemma decide_facts:
  assumes inv: "silo_inv db0 s" and t: "t < length (sl_txs s)" and pc: "sx_pc (tx_at s t) = Validating j"
    and i: "i \<in> item_of ` set (sx_write_set (tx_at s t))"
  shows "i \<in> set (held (tx_at s t))"
    "\<forall>e\<in>set (sl_history s). i \<in> writes e \<longrightarrow> ct_serial e < sx_serial (tx_at s t)"
    "row_of (sl_items s i) = replay db0 (sl_history s) (sx_serial (tx_at s t)) i"
proof -
  let ?x = "tx_at s t"
  note own = silo_invD(5,6) [OF inv t]
  show h: "i \<in> set (held ?x)" using i pc by (simp add: pc_defs)
  show w: "\<forall>e\<in>set (sl_history s). i \<in> writes e \<longrightarrow> ct_serial e < sx_serial ?x"
    using own(2) h pc by (auto simp: tx_history_ok_def validating_def committing_def)
  have "i \<notin> busy s" by (rule own_or_free [OF inv t]) (use h pc in \<open>auto simp: committing_def\<close>)
  then have "row_of (sl_items s i) = replay db0 (sl_history s) (sl_clock s) i" by (rule not_busy_row [OF inv])
  also have "\<dots> = replay db0 (sl_history s) (sx_serial ?x) i"
    by (rule replay_stable [OF w]) (use own(1) pc in \<open>simp add: tx_ok_def validating_def\<close>)
  finally show "row_of (sl_items s i) = replay db0 (sl_history s) (sx_serial ?x) i" .
qed

definition commit_entry :: "silo_tx \<Rightarrow> committed" where
  "commit_entry x = \<lparr>ct_serial = sx_serial x, ct_epoch = sx_epoch x,
     ct_reads = zip (map fst (sx_validation_set x)) (sx_reads x), ct_writes = sx_write_set x\<rparr>"

text \<open>A committing transaction changes no row of an earlier serial number that others have relied on.\<close>

lemma commit_replay:
  assumes inv: "silo_inv db0 s" and t: "t < length (sl_txs s)" and pc: "sx_pc (tx_at s t) = Validating j"
    and "i \<in> set (held (tx_at s t)) \<Longrightarrow> n \<le> sx_serial (tx_at s t)"
  shows "replay db0 (sl_history s @ [commit_entry (tx_at s t)]) n i = replay db0 (sl_history s) n i"
proof (cases "i \<in> writes (commit_entry (tx_at s t))")
  case True
  then have "i \<in> set (held (tx_at s t))" using decide_facts(1) [OF inv t pc, of i] by (simp add: commit_entry_def)
  then show ?thesis using assms(4) by (intro replay_below) (simp add: commit_entry_def)
qed (rule replay_other)

lemma validated_okD:
  assumes "validated_ok db0 s x j"
  shows "l < j \<Longrightarrow> sx_validation_set x ! l = (i, t) \<Longrightarrow> sx_reads x ! l = replay db0 (sl_history s) (sx_serial x) i"
    "l < j \<Longrightarrow> sx_validation_set x ! l = (i, t) \<Longrightarrow> u \<in> set (sl_txs s) \<Longrightarrow> validating u \<Longrightarrow> i \<in> set (held u) \<Longrightarrow>
      sx_serial u \<noteq> sx_serial x \<Longrightarrow> sx_serial x < sx_serial u"
    "(i, t) \<in> set (sx_validation_set x) \<Longrightarrow> tid_base t = version s i \<Longrightarrow> i \<notin> busy s \<Longrightarrow> e \<in> set (sl_history s) \<Longrightarrow>
      i \<in> writes e \<Longrightarrow> ct_serial e < sx_serial x"
proof -
  note v = assms [unfolded validated_ok_def]
  show "l < j \<Longrightarrow> sx_validation_set x ! l = (i, t) \<Longrightarrow> sx_reads x ! l = replay db0 (sl_history s) (sx_serial x) i"
    using conjunct1 [OF v] by auto
  show "l < j \<Longrightarrow> sx_validation_set x ! l = (i, t) \<Longrightarrow> u \<in> set (sl_txs s) \<Longrightarrow> validating u \<Longrightarrow> i \<in> set (held u) \<Longrightarrow>
      sx_serial u \<noteq> sx_serial x \<Longrightarrow> sx_serial x < sx_serial u"
    using conjunct1 [OF v] by fastforce
  show "(i, t) \<in> set (sx_validation_set x) \<Longrightarrow> tid_base t = version s i \<Longrightarrow> i \<notin> busy s \<Longrightarrow> e \<in> set (sl_history s) \<Longrightarrow>
      i \<in> writes e \<Longrightarrow> ct_serial e < sx_serial x"
    using conjunct2 [OF v] by blast
qed

lemma validated_okI:
  assumes "\<And>l i t. l < j \<Longrightarrow> sx_validation_set x ! l = (i, t) \<Longrightarrow> sx_reads x ! l = replay db0 (sl_history s) (sx_serial x) i"
    "\<And>l i t u. l < j \<Longrightarrow> sx_validation_set x ! l = (i, t) \<Longrightarrow> u \<in> set (sl_txs s) \<Longrightarrow> validating u \<Longrightarrow> i \<in> set (held u) \<Longrightarrow>
      sx_serial u \<noteq> sx_serial x \<Longrightarrow> sx_serial x < sx_serial u"
    "\<And>i t e. (i, t) \<in> set (sx_validation_set x) \<Longrightarrow> tid_base t = version s i \<Longrightarrow> i \<notin> busy s \<Longrightarrow> e \<in> set (sl_history s) \<Longrightarrow>
      i \<in> writes e \<Longrightarrow> ct_serial e < sx_serial x"
  shows "validated_ok db0 s x j"
  unfolding validated_ok_def using assms by (intro conjI allI impI ballI) (auto split: prod.splits)

lemma tx_history_okD:
  "tx_history_ok db0 s x \<Longrightarrow> validating x \<or> committing x \<Longrightarrow> e \<in> set (sl_history s) \<Longrightarrow> i \<in> set (held x) \<Longrightarrow> i \<in> writes e \<Longrightarrow>
     ct_serial e = sx_serial x \<and> committing x \<or> ct_serial e < sx_serial x"
  unfolding tx_history_ok_def by blast

lemma decide_other:
  assumes inv: "silo_inv db0 s" and t: "t < length (sl_txs s)" and pc: "sx_pc (tx_at s t) = Validating j"
    and s': "s' = (put_tx s t ((tx_at s t)\<lparr>sx_pc := Installing 0\<rparr>))\<lparr>sl_history := sl_history s @ [commit_entry (tx_at s t)]\<rparr>"
    and ev: "evolves s s'" and u: "u < length (sl_txs s)" "u \<noteq> t"
  shows "tx_history_ok db0 s' (tx_at s u)"
proof -
  let ?x = "tx_at s t" and ?y = "tx_at s u" and ?c = "commit_entry (tx_at s t)"
  note own = silo_invD(5,6) [OF inv u(1)] and lk = locks_okD [OF silo_invD(1) [OF inv]]
  have cw: "writes ?c = set (held ?x)" using pc by (simp add: commit_entry_def pc_defs)
  have off: "i \<notin> set (held ?x)" if "i \<in> set (held ?y)" for i using lk(2) [OF u(1) t] u(2) that by metis
  have txs: "v \<in> set (sl_txs s)" if "v \<in> set (sl_txs s')" "validating v" for v
  proof -
    have "v \<noteq> ?x\<lparr>sx_pc := Installing 0\<rparr>" using that(2) by (auto simp: validating_def)
    then show ?thesis using that(1) s' set_update_subset_insert [of "sl_txs s" t "?x\<lparr>sx_pc := Installing 0\<rparr>"] by auto
  qed
  have bz: "i \<in> busy s'" if "i \<in> set (held ?x)" for i
    using that s' t pc unfolding busy_iff by (intro exI [of _ t]) (simp add: pc_defs)
  have "validated_ok db0 s' ?y l" if l: "sx_pc ?y = Validating l" for l
  proof -
    have v: "validated_ok db0 s ?y l" "before_commit ?y" "validating ?y" using own(2) l by (auto simp: tx_history_ok_def pc_defs)
    have ne: "sx_serial ?x \<noteq> sx_serial ?y"
      using stamps_okD(3) [OF silo_invD(3) [OF inv] u(1) t u(2) v(3)] pc by (simp add: validating_def)
    show ?thesis
    proof (rule validated_okI)
      fix m i t'
      assume m: "m < l" "sx_validation_set ?y ! m = (i, t')"
      have "i \<in> set (held ?x) \<Longrightarrow> sx_serial ?y \<le> sx_serial ?x"
        using validated_okD(2) [OF v(1) m, of ?x] ne t pc by (simp add: validating_def less_imp_le)
      then show "sx_reads ?y ! m = replay db0 (sl_history s') (sx_serial ?y) i"
        using validated_okD(1) [OF v(1) m] commit_replay [OF inv t pc] s' by simp
      show "sx_serial ?y < sx_serial v"
        if "v \<in> set (sl_txs s')" "validating v" "i \<in> set (held v)" "sx_serial v \<noteq> sx_serial ?y" for v
        by (rule validated_okD(2) [OF v(1) m txs [OF that(1,2)] that(2-4)])
    next
      fix i t' e
      assume a: "(i, t') \<in> set (sx_validation_set ?y)" "tid_base t' = version s' i" "i \<notin> busy s'" "e \<in> set (sl_history s')" "i \<in> writes e"
      have "tid_base t' = version s i \<and> i \<notin> busy s"
        using ev a(2,3) tx_ok_version [OF own(1) v(2) a(1)] unfolding evolves_def by (metis order.antisym)
      moreover have "e \<noteq> ?c" using a(3,5) cw bz by metis
      ultimately show "ct_serial e < sx_serial ?y" using validated_okD(3) [OF v(1) a(1)] a(4,5) s' by auto
    qed
  qed
  moreover have "replay db0 (sl_history s') n (item_of w) = replay db0 (sl_history s) n (item_of w)" if "w \<in> set (pending ?y)" for w n
  proof -
    have "item_of w \<notin> set (held ?x)" using off pending_held [of "item_of w" ?y] that by simp
    then show ?thesis using commit_replay [OF inv t pc, of "item_of w" n] s' by simp
  qed
  moreover have "ct_serial e = sx_serial ?y \<and> committing ?y \<or> ct_serial e < sx_serial ?y"
    if "validating ?y \<or> committing ?y" "e \<in> set (sl_history s')" "i \<in> set (held ?y)" "i \<in> writes e" for e i
  proof (cases "e = ?c")
    case True
    then show ?thesis using that(3,4) off cw by metis
  next
    case False
    then show ?thesis using that s' tx_history_okD [OF own(2) that(1) _ that(3,4)] by simp
  qed
  ultimately show ?thesis
    using own(2) s' unfolding tx_history_ok_def by (simp split: silo_pc.splits)
qed

lemma decide_own:
  assumes inv: "silo_inv db0 s" and t: "t < length (sl_txs s)" and pc: "sx_pc (tx_at s t) = Validating j"
    and s': "s' = (put_tx s t ((tx_at s t)\<lparr>sx_pc := Installing 0\<rparr>))\<lparr>sl_history := sl_history s @ [commit_entry (tx_at s t)]\<rparr>"
  shows "tx_history_ok db0 s' ((tx_at s t)\<lparr>sx_pc := Installing 0\<rparr>)"
proof -
  let ?x = "tx_at s t" and ?c = "commit_entry (tx_at s t)"
  note own = silo_invD(5,6) [OF inv t]
  have c: "ct_serial ?c = sx_serial ?x" "ct_writes ?c = sx_write_set ?x" by (simp_all add: commit_entry_def)
  have "row_of (sl_items s (item_of w)) = replay db0 (sl_history s @ [?c]) (sx_serial ?x) (item_of w) \<and>
      write_row w (replay db0 (sl_history s @ [?c]) (sx_serial ?x) (item_of w)) = replay db0 (sl_history s @ [?c]) (sl_clock s) (item_of w)"
    if w: "w \<in> set (sx_write_set ?x)" for w
  proof -
    have i: "item_of w \<in> item_of ` set (sx_write_set ?x)" using w by simp
    note f = decide_facts [OF inv t pc i]
    have "replay db0 (sl_history s @ [?c]) (sl_clock s) (item_of w) = row_after ?c (item_of w) (replay db0 (sl_history s) (sx_serial ?x) (item_of w))"
      using replay_write [of "sl_history s" "item_of w" ?c "sl_clock s" db0] f(2) i c own(1) pc by (simp add: tx_ok_def validating_def)
    then show ?thesis
      using f(3) row_after_write [of ?c w] c w own(1) commit_replay [OF inv t pc, of "item_of w" "sx_serial ?x"] by (simp add: tx_ok_def)
  qed
  moreover have "\<forall>e\<in>set (sl_history s). \<forall>i\<in>set (held ?x). i \<in> writes e \<longrightarrow> ct_serial e < sx_serial ?x"
    using decide_facts(2) [OF inv t pc] pc by (simp add: pc_defs)
  ultimately show ?thesis using s' pc c by (auto simp: tx_history_ok_def pc_defs)
qed

lemma history_okI:
  assumes "\<And>e. e \<in> set (sl_history s) \<Longrightarrow> distinct (items_of (ct_writes e))"
    "\<And>e i r. e \<in> set (sl_history s) \<Longrightarrow> (i, r) \<in> set (ct_reads e) \<Longrightarrow> r = replay db0 (sl_history s) (ct_serial e) i \<and>
      (\<forall>u\<in>set (sl_txs s). validating u \<and> i \<in> set (held u) \<longrightarrow> ct_serial e < sx_serial u)"
    "\<And>e w. e \<in> set (sl_history s) \<Longrightarrow> w \<in> set (ct_writes e) \<Longrightarrow> sn_is_insert w \<Longrightarrow>
      fst (replay db0 (sl_history s) (ct_serial e) (item_of w)) = []"
  shows "history_ok db0 s"
  unfolding history_ok_def using assms by blast

lemma history_okD:
  assumes "history_ok db0 s" "e \<in> set (sl_history s)"
  shows "distinct (items_of (ct_writes e))"
    "(i, r) \<in> set (ct_reads e) \<Longrightarrow> r = replay db0 (sl_history s) (ct_serial e) i"
    "(i, r) \<in> set (ct_reads e) \<Longrightarrow> u \<in> set (sl_txs s) \<Longrightarrow> validating u \<Longrightarrow> i \<in> set (held u) \<Longrightarrow> ct_serial e < sx_serial u"
    "w \<in> set (ct_writes e) \<Longrightarrow> sn_is_insert w \<Longrightarrow> fst (replay db0 (sl_history s) (ct_serial e) (item_of w)) = []"
  using assms unfolding history_ok_def by blast+

lemma decide_history:
  assumes inv: "silo_inv db0 s" and t: "t < length (sl_txs s)" and pc: "sx_pc (tx_at s t) = Validating (length (sx_validation_set (tx_at s t)))"
    and s': "s' = (put_tx s t ((tx_at s t)\<lparr>sx_pc := Installing 0\<rparr>))\<lparr>sl_history := sl_history s @ [commit_entry (tx_at s t)]\<rparr>"
    and free: "\<not> claims_taken_key s (sx_write_set (tx_at s t))"
  shows "history_ok db0 s'"
proof -
  let ?x = "tx_at s t" and ?c = "commit_entry (tx_at s t)" and ?h = "sl_history s"
  note own = silo_invD(5,6) [OF inv t] and invs = silo_invD [OF inv]
  have vx: "validating ?x" "?x \<in> set (sl_txs s)" using pc t by (auto simp: validating_def)
  have h: "sl_history s' = ?h @ [?c]" using s' by simp
  have val: "u \<in> set (sl_txs s) \<and> (\<exists>v<length (sl_txs s). v \<noteq> t \<and> u = tx_at s v)" if u: "u \<in> set (sl_txs s')" "validating u" for u
  proof -
    obtain v where "v < length (sl_txs s')" "u = tx_at s' v"
      using u(1) unfolding in_set_conv_nth by blast
    then have "v < length (sl_txs s)" "u = (if v = t then ?x\<lparr>sx_pc := Installing 0\<rparr> else tx_at s v)"
      using s' by (simp_all add: nth_list_update)
    then show ?thesis using u(2) by (auto simp: validating_def split: if_splits)
  qed
  have old: "history_ok db0 s" by (rule invs(4))
  have v: "validated_ok db0 s ?x (length (sx_validation_set ?x))" using own(2) pc by (simp add: tx_history_ok_def)
  have len: "length (sx_reads ?x) = length (sx_validation_set ?x)" using own(1) by (simp add: tx_ok_def)
  have c: "ct_serial ?c = sx_serial ?x" "ct_writes ?c = sx_write_set ?x" "ct_reads ?c = zip (map fst (sx_validation_set ?x)) (sx_reads ?x)"
    by (simp_all add: commit_entry_def)
  show ?thesis
  proof (rule history_okI)
    fix e
    assume "e \<in> set (sl_history s')"
    then consider "e = ?c" | "e \<in> set ?h" using h by auto
    note e = this
    show "distinct (items_of (ct_writes e))"
      using e
    proof cases
      case 1
      then show ?thesis using own(1) c(2) by (simp add: tx_ok_def)
    qed (rule history_okD(1) [OF old])
    show "r = replay db0 (sl_history s') (ct_serial e) i \<and>
        (\<forall>u\<in>set (sl_txs s'). validating u \<and> i \<in> set (held u) \<longrightarrow> ct_serial e < sx_serial u)" if ir: "(i, r) \<in> set (ct_reads e)" for i r
      using e
    proof cases
      case 1
      then obtain l where "l < length (sx_validation_set ?x)" "fst (sx_validation_set ?x ! l) = i" "r = sx_reads ?x ! l"
        using ir c(3) len by (auto simp: in_set_zip)
      then have l: "l < length (sx_validation_set ?x)" "sx_validation_set ?x ! l = (i, snd (sx_validation_set ?x ! l))" "r = sx_reads ?x ! l"
        by (auto simp: prod_eq_iff)
      have "sx_serial ?x < sx_serial u" if u: "u \<in> set (sl_txs s')" "validating u" "i \<in> set (held u)" for u
      proof (rule validated_okD(2) [OF v l(1,2) _ u(2,3)])
        obtain v where v: "v < length (sl_txs s)" "v \<noteq> t" "u = tx_at s v" "u \<in> set (sl_txs s)" using val [OF u(1,2)] by blast
        then show "sx_serial u \<noteq> sx_serial ?x" using stamps_okD(3) [OF invs(3) v(1) t v(2)] vx(1) u(2) by simp
        show "u \<in> set (sl_txs s)" by (rule v(4))
      qed
      then show ?thesis
        using validated_okD(1) [OF v l(1,2)] l(3) commit_replay [OF inv t pc, of i "sx_serial ?x"] 1 c(1) h by simp
    next
      case 2
      note o = history_okD(2,3) [OF old 2 ir]
      have "i \<in> set (held ?x) \<Longrightarrow> ct_serial e \<le> sx_serial ?x" using o(2) [OF vx(2,1)] by (simp add: less_imp_le)
      then have "r = replay db0 (sl_history s') (ct_serial e) i" using commit_replay [OF inv t pc, of i "ct_serial e"] o(1) h by simp
      moreover have "ct_serial e < sx_serial u" if u: "u \<in> set (sl_txs s')" "validating u" "i \<in> set (held u)" for u
        using o(2) [OF _ u(2,3)] val [OF u(1,2)] by blast
      ultimately show ?thesis by blast
    qed
    show "fst (replay db0 (sl_history s') (ct_serial e) (item_of w)) = []" if w: "w \<in> set (ct_writes e)" "sn_is_insert w" for w
      using e
    proof cases
      case 1
      then have "hb_size (di_buffer (sl_items s (item_of w))) = 0"
        using free w c(2) by (auto simp: claims_taken_key_def IsPrimaryInitialized_def)
      then have "fst (row_of (sl_items s (item_of w))) = []" by (simp add: row_of_def toString_def)
      then show ?thesis
        using decide_facts(3) [OF inv t pc, of "item_of w"] w 1 c commit_replay [OF inv t pc, of "item_of w" "sx_serial ?x"] h by simp
    next
      case 2
      have "item_of w \<in> set (held ?x) \<Longrightarrow> ct_serial e \<le> sx_serial ?x"
        using tx_history_okD [OF own(2), of e "item_of w"] vx(1) 2 w by auto
      then show ?thesis using commit_replay [OF inv t pc, of "item_of w" "ct_serial e"] history_okD(4) [OF old 2 w] h by simp
    qed
  qed
qed

lemma decide_stamps:
  assumes inv: "silo_inv db0 s" and t: "t < length (sl_txs s)" and pc: "sx_pc (tx_at s t) = Validating j"
    and s': "s' = (put_tx s t ((tx_at s t)\<lparr>sx_pc := Installing 0\<rparr>))\<lparr>sl_history := sl_history s @ [commit_entry (tx_at s t)]\<rparr>"
  shows "stamps_ok s'"
proof -
  let ?x = "tx_at s t" and ?c = "commit_entry (tx_at s t)"
  let ?x' = "?x\<lparr>sx_pc := Installing 0\<rparr>"
  note st = stamps_okD [OF silo_invD(3) [OF inv]]
  have v: "validating ?x" "\<not> validating ?x'" using pc by (simp_all add: validating_def)
  have c: "ct_serial ?c = sx_serial ?x" "ct_epoch ?c = sx_epoch ?x" by (simp_all add: commit_entry_def)
  have txs: "v \<noteq> t \<and> tx_at s' v = tx_at s v" if "v < length (sl_txs s)" "validating (tx_at s' v)" for v
    using that v(2) s' t by (auto simp: nth_list_update split: if_splits)
  have sub: "stamps s' \<subseteq> stamps s"
  proof
    fix p
    assume "p \<in> stamps s'"
    then consider e where "e \<in> set (sl_history s)" "p = (ct_serial e, ct_epoch e)" | "p = (sx_serial ?x, sx_epoch ?x)"
      | y where "y \<in> set (sl_txs s')" "validating y" "p = (sx_serial y, sx_epoch y)"
      using c s' unfolding stamps_def by auto
    then show "p \<in> stamps s"
    proof cases
      case (3 y)
      then have "y \<in> set (sl_txs s)" using v(2) s' set_update_subset_insert [of "sl_txs s" t ?x'] by auto
      then show ?thesis using 3 by (auto simp: stamps_def)
    qed (use v t in \<open>auto simp: stamps_def\<close>)
  qed
  show ?thesis
  proof (rule stamps_okI)
    show "distinct (map ct_serial (sl_history s'))" using st(1) st(2) [OF t v(1)] c(1) s' by simp
    show "sx_serial y \<notin> ct_serial ` set (sl_history s')" if y: "y \<in> set (sl_txs s')" "validating y" for y
    proof -
      obtain v where v: "v < length (sl_txs s)" "y = tx_at s' v" using y(1) s' unfolding in_set_conv_nth by auto
      then have "v \<noteq> t" "y = tx_at s v" using txs [OF v(1)] y(2) by auto
      then show ?thesis using st(2) [OF v(1)] st(3) [OF v(1) t _ _ \<open>validating ?x\<close>] y(2) c(1) s' by auto
    qed
    show "sx_serial (tx_at s' a) \<noteq> sx_serial (tx_at s' b)" if "a < length (sl_txs s')" "b < length (sl_txs s')" "a \<noteq> b"
        "validating (tx_at s' a)" "validating (tx_at s' b)" for a b
      using that txs [of a] txs [of b] st(3) [of a b] s' by auto
    show "m < sl_clock s' \<and> e \<le> sl_epoch s'" if "(m, e) \<in> stamps s'" for m e using st(4) [of m e] that sub s' by auto
    show "e \<le> e'" if "(m, e) \<in> stamps s'" "(m', e') \<in> stamps s'" "m < m'" for m e m' e'
      using st(5) [of m e m' e'] that sub by auto
  qed
qed

lemma decide_inv:
  assumes inv: "silo_inv db0 s" and t: "t < length (sl_txs s)" and pc: "sx_pc (tx_at s t) = Validating (length (sx_validation_set (tx_at s t)))"
  shows "silo_inv db0 (decide s t ok)"
proof (cases "ok \<and> \<not> claims_taken_key s (sx_write_set (tx_at s t))")
  case False
  then have "decide s t ok = put_tx s t (start_rollback (tx_at s t))" by (auto simp: decide_def Let_def)
  then show ?thesis using rollback_begins_inv [OF inv t pc] by simp
next
  case True
  let ?x = "tx_at s t"
  define x' where "x' = ?x\<lparr>sx_pc := Installing 0\<rparr>"
  define s' where "s' = (put_tx s t x')\<lparr>sl_history := sl_history s @ [commit_entry ?x]\<rparr>"
  note s'' = s'_def [unfolded x'_def] and invs = silo_invD [OF inv] and own = silo_invD(5,6) [OF inv t]
  have eq: "decide s t ok = s'" using True by (simp add: decide_def Let_def s'_def x'_def commit_entry_def)
  have held: "held x' = held ?x" "held_writes x' = held_writes ?x" and pend: "pending x' = sx_write_set ?x" "pending ?x = []"
    and pcs: "\<not> before_commit x'" "committing x'" "\<not> committing ?x"
    using pc by (simp_all add: x'_def pc_defs)
  have ev: "evolves s s'" by (rule evolves_update [of t _ _ x']) (use t pcs in \<open>auto simp: s'_def\<close>)
  have "locks_ok s'"
    by (rule locks_ok_update [OF invs(1) t, of s' x'])
      (use held locks_okD(1,3) [OF invs(1) t] in \<open>auto simp: s'_def\<close>)
  moreover have "rows_ok db0 s'"
  proof -
    have "row_of (sl_items s i) = replay db0 (sl_history s @ [commit_entry ?x]) (sl_clock s) i"
      if i: "\<forall>x\<in>set (sl_txs s'). i \<notin> set (items_of (pending x))" for i
    proof -
      have i': "i \<notin> set (items_of (sx_write_set ?x))" "\<forall>u<length (sl_txs s). u \<noteq> t \<longrightarrow> i \<notin> set (items_of (pending (tx_at s u)))"
        using i t pend unfolding s'_def by (simp_all add: all_tx_update)
      then have "\<forall>x\<in>set (sl_txs s). i \<notin> set (items_of (pending x))"
        using pend(2) unfolding all_set_conv_all_nth by (metis empty_iff list.set(1) list.simps(8))
      moreover have "i \<notin> writes (commit_entry ?x)" using i'(1) by (simp add: commit_entry_def)
      ultimately show ?thesis using invs(2) by (simp add: rows_ok_def replay_other)
    qed
    then show ?thesis using invs(2) by (simp add: rows_ok_def s'_def)
  qed
  moreover have "stamps_ok s'" by (rule decide_stamps [OF inv t pc s''])
  moreover have "history_ok db0 s'" using decide_history [OF inv t pc s''] True by simp
  moreover have "tx_ok s' x'"
    by (rule tx_okI) (use own(1) pcs pc held in \<open>auto simp: tx_ok_def s'_def pc_ok_def validating_def x'_def\<close>)
  moreover have "tx_history_ok db0 s' x'" using decide_own [OF inv t pc s''] by (simp add: x'_def)
  moreover have "tx_ok s' (tx_at s u) \<and> tx_history_ok db0 s' (tx_at s u)" if u: "u < length (sl_txs s)" "u \<noteq> t" for u
    using tx_ok_frame [OF invs(5) [OF u(1)] ev] decide_other [OF inv t pc s'' ev u] by (simp add: s'_def)
  ultimately show ?thesis using t unfolding silo_inv_def eq by (simp add: s'_def all_tx_update)
qed

end
