(* ===== verification/SiloSerializable.thy ===== *)
theory SiloSerializable
  imports SiloSteps
begin

text \<open>
  The transactions that Silo commits are serializable, in the order in which they reloaded the epoch while holding
  their locks, and that order agrees with the order of epochs.
\<close>

section \<open>Serializability\<close>

lemma step_inv:
  assumes inv: "silo_inv db0 s" and step: "silo_step loc t s s'" and fit: "tids_fit s"
  shows "silo_inv db0 s'"
  using step
proof cases
  case (stage ws)
  then show ?thesis using stage_inv [OF inv] by blast
next
  case user_abort
  then show ?thesis using running_to_inv [OF inv] by (simp add: pc_defs)
next
  case (load i)
  then show ?thesis using running_to_inv [OF inv, of t "ReadLoaded i (tid_at s i)"] inv by (auto simp: read_load_def pc_defs)
next
  case (copy i tx_id r)
  have sn: "\<not> tid_locked tx_id" "tx_id \<le> version s i" using silo_invD(5) [OF inv copy(2)] copy(3) by (auto simp: tx_ok_def pc_ok_def)
  moreover have "i \<in> busy s" if "being_installed s i"
    using that by (auto simp: being_installed_def busy_def pc_defs split: silo_pc.splits intro!: bexI)
  ultimately have "seen s i tx_id r" using copy(4) by (auto simp: seen_def)
  then have "silo_inv db0 (put_tx s t ((tx_at s t)\<lparr>sx_pc := ReadCopied i tx_id r\<rparr>))"
    by (intro running_to_inv [OF inv copy(2)]) (use copy(3) sn(1) in \<open>simp_all add: pc_defs\<close>)
  then show ?thesis using copy by (simp add: read_copy_def)
next
  case (recheck i tx_id r validated)
  then show ?thesis using recheck_inv [OF inv] by blast
next
  case precommit
  then show ?thesis using precommit_inv [OF inv] by blast
next
  case (lock k attached)
  then show ?thesis using lock_inv [OF inv] by blast
next
  case refresh
  then show ?thesis using refresh_inv [OF inv] by blast
next
  case (validate j)
  then show ?thesis using validate_inv [OF inv] by blast
next
  case (decided ok)
  then show ?thesis using decide_inv [OF inv] by blast
next
  case (install k)
  then show ?thesis using install_inv [OF inv] by blast
next
  case installed
  then show ?thesis using committing_quiet_inv(2) [OF inv] by blast
next
  case (unlock k)
  then show ?thesis using unlock_inv [OF inv _ _ _ fit] by blast
next
  case unlocked
  then show ?thesis using committing_quiet_inv(3) [OF inv] by blast
next
  case (rollback guarded i rest)
  then show ?thesis using rollback_inv [OF inv] by blast
next
  case (rolled_back guarded)
  then show ?thesis using committing_quiet_inv(4) [OF inv] by blast
qed

lemma begin_inv:
  assumes inv: "silo_inv db0 s"
  shows "silo_inv db0 (s\<lparr>sl_txs := sl_txs s @ [silo_tx_new]\<rparr>)" (is "silo_inv db0 ?s")
proof -
  note invs = silo_invD [OF inv]
  have new: "held silo_tx_new = []" "\<not> validating silo_tx_new" "\<not> committing silo_tx_new" "pending silo_tx_new = []"
    by (simp_all add: silo_tx_new_def pc_defs)
  have bz: "busy ?s = busy s" using new by (auto simp: busy_def)
  have ev: "evolves s ?s" using bz by (simp add: evolves_def)
  have st: "stamps ?s = stamps s" using new by (auto simp: stamps_def)
  have "locks_ok ?s" using locks_okD [OF invs(1)] invs(1) new by (auto simp: locks_ok_def nth_append)
  moreover have "rows_ok db0 ?s" using invs(2) new by (simp add: rows_ok_def)
  moreover have "stamps_ok ?s" using invs(3) new st unfolding stamps_ok_def by (auto simp: nth_append)
  moreover have "history_ok db0 ?s" using invs(4) new by (simp add: history_ok_def)
  moreover have "tx_ok ?s silo_tx_new" "tx_history_ok db0 ?s silo_tx_new"
    by (simp_all add: tx_ok_def tx_history_ok_def silo_tx_new_def pc_defs)
  moreover have "tx_ok ?s y" if "y \<in> set (sl_txs s)" for y
    using tx_ok_frame [OF _ ev, of y] inv that by (auto simp: silo_inv_def)
  moreover have "tx_history_ok db0 ?s y" if "y \<in> set (sl_txs s)" for y
    by (rule tx_history_ok_frame [OF _ ev, of db0 y]) (use inv that new in \<open>auto simp: silo_inv_def\<close>)
  ultimately show ?thesis by (auto simp: silo_inv_def)
qed

lemma tick_inv:
  assumes inv: "silo_inv db0 s" and e: "sl_epoch s < 0xFFFFFFFF"
  shows "silo_inv db0 (s\<lparr>sl_epoch := sl_epoch s + 1\<rparr>)" (is "silo_inv db0 ?s")
proof -
  note invs = silo_invD [OF inv]
  have "unat (sl_epoch s) < unat (0xFFFFFFFF :: u32)" using e by (simp add: word_less_nat_alt)
  then have le: "sl_epoch s \<le> sl_epoch s + 1" by (simp add: word_le_nat_alt unat_word_ariths)
  have ev: "evolves s ?s" by (simp add: evolves_def busy_def)
  have st: "stamps ?s = stamps s" by (simp add: stamps_def)
  have "locks_ok ?s" using invs(1) by (simp add: locks_ok_def)
  moreover have "rows_ok db0 ?s" using invs(2) le order.trans unfolding rows_ok_def by fastforce
  moreover have "stamps_ok ?s"
  proof (rule stamps_okI)
    show "m < sl_clock ?s \<and> e \<le> sl_epoch ?s" if "(m, e) \<in> stamps ?s" for m e
      using stamps_okD(4) [OF invs(3), of m e] that st le by (auto intro: order.trans)
    show "e \<le> e'" if "(m, e) \<in> stamps ?s" "(m', e') \<in> stamps ?s" "m < m'" for m e m' e'
      using stamps_okD(5) [OF invs(3)] that st by blast
  qed (use invs(3) in \<open>auto simp: stamps_ok_def\<close>)
  moreover have "history_ok db0 ?s" using invs(4) by (simp add: history_ok_def)
  moreover have "tx_ok ?s y" "tx_history_ok db0 ?s y" if "y \<in> set (sl_txs s)" for y
  proof -
    have y: "tx_ok s y" "tx_history_ok db0 s y" using inv that by (auto simp: silo_inv_def)
    show "tx_ok ?s y" by (rule tx_ok_frame [OF y(1) ev]) (use le in auto)
    show "tx_history_ok db0 ?s y" by (rule tx_history_ok_frame [OF y(2) ev _ y(1)]) auto
  qed
  ultimately show ?thesis by (simp add: silo_inv_def)
qed

interpretation sil: inv_system "silo_init items0" "silo_moves loc" "silo_inv (row_of \<circ> items0)" for items0 loc
proof
  show "silo_inv (row_of \<circ> items0) s" if "silo_init items0 s" for s
    using that
    by (auto simp: silo_init_def silo_inv_def locks_ok_def rows_ok_def stamps_ok_def stamps_def history_ok_def replay_def)
  show "silo_inv (row_of \<circ> items0) s'" if "silo_inv (row_of \<circ> items0) s" "silo_moves loc s s'" for s s'
    using that(2,1) by cases (auto intro: step_inv begin_inv tick_inv)
qed

text \<open>C1. Serializability. In every state that any interleaving of transactions reaches, the transactions that have
  passed validation can be put in an order in which, run one after the other, each reads exactly the rows it did read,
  every insertion finds no row under its key, and the epochs of the commits never decrease. Every item that nobody
  holds carries the row that this serial run leaves.\<close>

theorem committed_transactions_serializable:
  assumes "silo_init items0 s0" "(silo_moves loc)\<^sup>*\<^sup>* s0 s"
  shows "\<exists>hs db. mset hs = mset (sl_history s) \<and> sorted (map ct_epoch hs) \<and> serial_run (row_of \<circ> items0) hs = Some db \<and>
    (\<forall>i. \<not> tid_locked (tid_at s i) \<longrightarrow> row_of (sl_items s i) = db i)"
proof -
  let ?db0 = "row_of \<circ> items0" and ?hs = "sort_key ct_serial (sl_history s)"
  have inv: "silo_inv ?db0 s" by (rule sil.inv_reachable [OF assms])
  note invs = silo_invD [OF inv] and st = stamps_okD [OF silo_invD(3) [OF inv]]
  have run: "serial_run ?db0 ?hs = Some (run_all ?hs ?db0)"
  proof (rule serial_run_all)
    fix as c bs
    assume split: "?hs = as @ c # bs"
    have c: "c \<in> set (sl_history s)" using split by (metis in_set_conv_decomp set_sort)
    have "replay ?db0 (sl_history s) (ct_serial c) i = run_all as ?db0 i" for i
      using sorted_prefix_filter [OF split st(1)] by (simp add: replay_run_all)
    then show "(\<forall>(i, r)\<in>set (ct_reads c). run_all as ?db0 i = r) \<and>
        (\<forall>w\<in>set (ct_writes c). sn_is_insert w \<longrightarrow> fst (run_all as ?db0 (item_of w)) = [])"
      using history_okD(2,4) [OF invs(4) c] by fastforce
  qed
  have "sorted (map ct_epoch ?hs)"
  proof -
    have "sorted_wrt (\<lambda>a b. ct_serial a \<le> ct_serial b) ?hs" by (metis sorted_sort_key sorted_map)
    then have "sorted_wrt (\<lambda>a b. ct_epoch a \<le> ct_epoch b) ?hs"
    proof (rule sorted_wrt_mono_rel [rotated])
      fix a b
      assume ab: "a \<in> set ?hs" "b \<in> set ?hs" "ct_serial a \<le> ct_serial b"
      have m: "(ct_serial a, ct_epoch a) \<in> stamps s" "(ct_serial b, ct_epoch b) \<in> stamps s" using ab by (auto simp: stamps_def)
      have "ct_serial a = ct_serial b \<Longrightarrow> a = b" using ab(1,2) st(1) by (auto simp: distinct_map inj_on_def)
      then show "ct_epoch a \<le> ct_epoch b" using ab(3) st(5) [OF m] by (cases "ct_serial a = ct_serial b") auto
    qed
    then show ?thesis by (simp add: sorted_map)
  qed
  moreover have "row_of (sl_items s i) = run_all ?hs ?db0 i" if "\<not> tid_locked (tid_at s i)" for i
  proof -
    have "i \<notin> busy s" using that locks_okD(3) [OF invs(1)] by (auto simp: busy_iff)
    moreover have "filter (\<lambda>c. ct_serial c < sl_clock s) ?hs = ?hs" using st(6) by (simp add: filter_id_conv)
    ultimately show ?thesis using not_busy_row [OF inv] by (simp add: replay_run_all)
  qed
  ultimately show ?thesis using run by (intro exI [of _ ?hs] exI [of _ "run_all ?hs ?db0"]) simp
qed

text \<open>A run in which one transaction inserts a row.\<close>

theorem committed_transactions_serializable_witness:
  "\<exists>(s :: silo) hs db. length (sl_history s) = 1 \<and> mset hs = mset (sl_history s) \<and>
    serial_run (row_of \<circ> (\<lambda>_. DataItem_default)) hs = Some db \<and> row_of (sl_items s 0) = db 0 \<and> fst (db 0) = [1]"
proof -
  let ?loc = "\<lambda>_ :: nat. ([] :: bytes, [] :: bytes, [7] :: bytes)"
  define w where "w = (Snapshot [7] (Some [1]) (Some 0) [] [] TransactionId_default 0)\<lparr>sn_is_insert := True\<rparr>"
  define s0 where "s0 = \<lparr>sl_items = (\<lambda>_. DataItem_default), sl_epoch = 1, sl_txs = [], sl_clock = 0, sl_history = []\<rparr>"
  define s1 where "s1 = s0\<lparr>sl_txs := [silo_tx_new]\<rparr>"
  define s2 where "s2 = put_tx s1 0 ((tx_at s1 0)\<lparr>sx_write_set := [w]\<rparr>)"
  define s3 where "s3 = put_tx s2 0 ((tx_at s2 0)\<lparr>sx_write_set := SortWriteSet (sx_write_set (tx_at s2 0)), sx_pc := Locking 0\<rparr>)"
  define s4 where "s4 = lock_write s3 0 0 True"
  define s5 where "s5 = refresh_epoch s4 0"
  define s6 where "s6 = decide s5 0 True"
  define s7 where "s7 = install_step s6 0 0"
  define s8 where "s8 = put_tx s7 0 ((tx_at s7 0)\<lparr>sx_pc := Unlocking 0\<rparr>)"
  define s9 where "s9 = PostProcessing_step s8 0 0"
  note defs = s0_def s1_def s2_def s3_def s4_def s5_def s6_def s7_def s8_def s9_def w_def
  note ev = silo_tx_new_def tids_fit_def Snapshot_def DataItem_default_def TransactionId_default_def SortWriteSet_def tid_lock_def
    lock_write_def refresh_epoch_def decide_def install_step_def PostProcessing_step_def item_of_def with_tid_def Let_def
    claims_taken_key_def IsPrimaryInitialized_def install_write_def merges_deltas_def DataItem_assign_def heap_copy_def
    DataItem_Reset_def heap_Reset_def heap_empty_def toString_def unlocked_id_def own_locks_def IsEmpty_def
  have "silo_moves ?loc s0 s1" using tx_begins [of ?loc s0] by (simp add: s0_def s1_def)
  moreover have "silo_moves ?loc s1 s2" unfolding s2_def
    by (rule tx_moves, rule stage) (simp_all add: s1_def s0_def w_def ev write_set_ok_def location_def)
  moreover have "silo_moves ?loc s2 s3" unfolding s3_def
    by (rule tx_moves, rule precommit) (simp_all add: s2_def s1_def s0_def ev)
  moreover have "silo_moves ?loc s3 s4" unfolding s4_def
    by (rule tx_moves, rule lock) (simp_all add: s3_def s2_def s1_def s0_def w_def ev tid_locked_def)
  moreover have "silo_moves ?loc s4 s5" unfolding s5_def
    by (rule tx_moves, rule refresh) (simp_all add: s4_def s3_def s2_def s1_def s0_def w_def ev)
  moreover have "silo_moves ?loc s5 s6" unfolding s6_def
    by (rule tx_moves, rule decided) (simp_all add: s5_def s4_def s3_def s2_def s1_def s0_def w_def ev)
  moreover have "silo_moves ?loc s6 s7" unfolding s7_def
    by (rule tx_moves, rule install) (simp_all add: s6_def s5_def s4_def s3_def s2_def s1_def s0_def w_def ev)
  moreover have "silo_moves ?loc s7 s8" unfolding s8_def
    by (rule tx_moves, rule installed) (simp_all add: s7_def s6_def s5_def s4_def s3_def s2_def s1_def s0_def w_def ev)
  moreover have "silo_moves ?loc s8 s9" unfolding s9_def
    by (rule tx_moves, rule unlock) (simp_all add: s8_def s7_def s6_def s5_def s4_def s3_def s2_def s1_def s0_def w_def ev)
  ultimately have "(silo_moves ?loc)\<^sup>*\<^sup>* s0 s9" by (meson rtranclp.rtrancl_refl rtranclp.rtrancl_into_rtrancl)
  moreover have "silo_init (\<lambda>_. DataItem_default) s0" by (simp add: s0_def silo_init_def tid_locked_def ev)
  ultimately obtain hs db where hs: "mset hs = mset (sl_history s9)" "serial_run (row_of \<circ> (\<lambda>_. DataItem_default)) hs = Some db"
      "\<forall>i. \<not> tid_locked (tid_at s9 i) \<longrightarrow> row_of (sl_items s9 i) = db i"
    using committed_transactions_serializable [of "\<lambda>_. DataItem_default" s0 ?loc s9] by blast
  moreover have "length (sl_history s9) = 1" "\<not> tid_locked (tid_at s9 0)" "fst (row_of (sl_items s9 0)) = [1]"
    by (simp_all add: defs ev tid_locked_def row_of_def)
  ultimately show ?thesis by - (rule exI [of _ s9], rule exI [of _ hs], rule exI [of _ db], simp)
qed

end
