(* ===== verification/SiloProgress.thy ===== *)
theory SiloProgress
  imports SiloSerializable
begin

text \<open>
  Committing transactions never block each other for ever: locks are taken in the order of locations, and everything
  after the locks is free of waiting.
\<close>

section \<open>Write sets stay sorted\<close>

text \<open>The transaction is inside \<open>Precommit\<close> or \<open>PostProcessing\<close>.\<close>

definition in_commit :: "silo_tx \<Rightarrow> bool" where
  "in_commit x \<longleftrightarrow>
     (case sx_pc x of Locking k \<Rightarrow> True | Validating j \<Rightarrow> True | Installing k \<Rightarrow> True | Threw k \<Rightarrow> True | Unlocking k \<Rightarrow> True
      | RollingBack g is \<Rightarrow> True | _ \<Rightarrow> False)"

definition ordered_tx :: "(nat \<Rightarrow> bytes \<times> bytes \<times> bytes) \<Rightarrow> silo_tx \<Rightarrow> bool" where
  "ordered_tx loc x \<longleftrightarrow> write_set_ok loc (sx_write_set x) \<and> (in_commit x \<longrightarrow> sorted (map location (sx_write_set x)))"

definition ordered :: "(nat \<Rightarrow> bytes \<times> bytes \<times> bytes) \<Rightarrow> silo \<Rightarrow> bool" where
  "ordered loc s \<longleftrightarrow> (\<forall>x\<in>set (sl_txs s). ordered_tx loc x)"

lemma ordered_put:
  "ordered loc s \<Longrightarrow> sl_txs s' = (sl_txs s)[t := x'] \<Longrightarrow> ordered_tx loc x' \<Longrightarrow> ordered loc s'"
  unfolding ordered_def using set_update_subset_insert [of "sl_txs s" t x'] by auto

lemma locations_of_update:
  assumes "item_of w' = item_of (ws ! k)" "location w' = location (ws ! k)"
  shows "map location (ws[k := w']) = map location ws" "write_set_ok loc (ws[k := w']) \<longleftrightarrow> write_set_ok loc ws"
proof -
  show *: "map location (ws[k := w']) = map location ws"
    using assms(2) by (metis list_update_beyond list_update_id map_update not_le nth_map)
  have "(\<forall>w\<in>set ws. location w = loc (item_of w)) \<longleftrightarrow> map location ws = map loc (items_of ws)" for ws by simp
  then show "write_set_ok loc (ws[k := w']) \<longleftrightarrow> write_set_ok loc ws"
    unfolding write_set_ok_def by (metis * items_of_update [OF assms(1)])
qed

lemma ordered_sort: "write_set_ok loc ws \<Longrightarrow> write_set_ok loc (SortWriteSet ws)" "sorted (map location (SortWriteSet ws))"
  unfolding write_set_ok_def SortWriteSet_def by (auto simp: distinct_map)

lemma ordered_step:
  assumes inv: "ordered loc s" and "silo_step loc t s s'"
  shows "ordered loc s'"
proof -
  have x: "ordered_tx loc (tx_at s t)" if "t < length (sl_txs s)" using inv that by (simp add: ordered_def)
  show ?thesis
    using assms(2)
  proof cases
    case (stage ws)
    then show ?thesis using ordered_put [OF inv, of s' t] x by (simp add: ordered_tx_def in_commit_def)
  next
    case (load i)
    then show ?thesis using ordered_put [OF inv, of s' t] x inv by (auto simp: ordered_tx_def in_commit_def read_load_def)
  next
    case copy
    then show ?thesis using ordered_put [OF inv, of s' t] x by (simp add: ordered_tx_def in_commit_def read_copy_def)
  next
    case recheck
    then show ?thesis using ordered_put [OF inv, of s' t] x by (simp add: ordered_tx_def in_commit_def read_recheck_def Let_def)
  next
    case precommit
    then show ?thesis using ordered_put [OF inv, of s' t] x ordered_sort by (simp add: ordered_tx_def)
  next
    case (lock k attached)
    then show ?thesis using ordered_put [OF inv, of s' t] x locations_of_update [where ws = "sx_write_set (tx_at s t)" and k = k]
      by (simp add: ordered_tx_def in_commit_def lock_write_def Let_def)
  next
    case (validate j)
    then show ?thesis using ordered_put [OF inv, of s' t] x
      by (simp add: ordered_tx_def in_commit_def AntiDependencyValidation_step_def start_rollback_def Let_def split: prod.splits)
  next
    case decided
    then have "\<exists>x'. sl_txs s' = (sl_txs s)[t := x'] \<and> ordered_tx loc x'"
      using x by (auto simp: ordered_tx_def in_commit_def decide_def start_rollback_def Let_def)
    then show ?thesis using ordered_put [OF inv] by blast
  next
    case (install k)
    then show ?thesis
      using ordered_put [OF inv, of s' t] x install_write_row(2,3) locations_of_update [where ws = "sx_write_set (tx_at s t)" and k = k]
      by (auto simp: ordered_tx_def in_commit_def install_step_def Let_def split: sum.splits)
  next
    case (unlock k)
    then show ?thesis using ordered_put [OF inv, of s' t] x locations_of_update [where ws = "sx_write_set (tx_at s t)" and k = k]
      by (simp add: ordered_tx_def in_commit_def PostProcessing_step_def Let_def)
  qed (use ordered_put [OF inv, of s' t] x in \<open>simp add: ordered_tx_def in_commit_def refresh_epoch_def rollback_step_def Let_def\<close>)+
qed

interpretation sio: inv_system "silo_init items0" "silo_moves loc" "ordered loc" for items0 loc
proof
  show "ordered loc s" if "silo_init items0 s" for s using that by (simp add: silo_init_def ordered_def)
  show "ordered loc s'" if "ordered loc s" "silo_moves loc s s'" for s s'
    using that(2)
  proof cases
    case tx_begins
    then show ?thesis using that(1) by (simp add: ordered_def ordered_tx_def silo_tx_new_def write_set_ok_def in_commit_def)
  next
    case (tx_moves t)
    then show ?thesis using ordered_step [OF that(1)] by blast
  next
    case epoch_ticks
    then show ?thesis using that(1) by (simp add: ordered_def)
  qed
qed

section \<open>Progress\<close>

text \<open>A transaction in its commit can move unless it waits for a lock.\<close>

definition waits_for :: "silo \<Rightarrow> nat \<Rightarrow> nat \<Rightarrow> bool" where
  "waits_for s t i \<longleftrightarrow>
     (\<exists>k<length (sx_write_set (tx_at s t)). sx_pc (tx_at s t) = Locking k \<and> i = item_of (sx_write_set (tx_at s t) ! k) \<and>
        tid_locked (tid_at s i))"

lemma moves_unless_waiting:
  assumes "tx_ok s (tx_at s t)" "t < length (sl_txs s)" "in_commit (tx_at s t)" "\<nexists>k. sx_pc (tx_at s t) = Threw k"
  shows "(\<exists>s'. silo_step loc t s s') \<or> (\<exists>i. waits_for s t i)"
proof (cases "sx_pc (tx_at s t)")
  case (Locking k)
  then have "k \<le> length (sx_write_set (tx_at s t))" using assms(1) by (simp add: tx_ok_def pc_ok_def)
  then show ?thesis
    using lock [OF assms(2) Locking] refresh [OF assms(2)] Locking unfolding waits_for_def by (metis le_neq_implies_less)
next
  case (Validating j)
  then have "j \<le> length (sx_validation_set (tx_at s t))" using assms(1) by (simp add: tx_ok_def pc_ok_def)
  then show ?thesis using validate [OF assms(2) Validating] decided [OF assms(2)] Validating by (metis le_neq_implies_less)
next
  case (Installing k)
  then have "k \<le> length (sx_write_set (tx_at s t))" using assms(1) by (simp add: tx_ok_def pc_ok_def)
  then show ?thesis using install [OF assms(2) Installing] installed [OF assms(2)] Installing by (metis le_neq_implies_less)
next
  case (Unlocking k)
  then have "k \<le> length (sx_write_set (tx_at s t))" using assms(1) by (simp add: tx_ok_def pc_ok_def)
  then show ?thesis using unlock [OF assms(2) Unlocking] unlocked [OF assms(2)] Unlocking by (metis le_neq_implies_less)
next
  case (RollingBack g ks)
  then show ?thesis using rollback [OF assms(2)] rolled_back [OF assms(2)] by (metis neq_Nil_conv)
qed (use assms(3,4) in \<open>auto simp: in_commit_def\<close>)

text \<open>Whoever holds a lock and waits for another one waits for a later location.\<close>

lemma waits_for_later:
  assumes "ordered loc s" "t < length (sl_txs s)" "i \<in> set (held (tx_at s t))" "waits_for s t j"
  shows "loc i < loc j"
proof -
  let ?ws = "sx_write_set (tx_at s t)"
  obtain k where k: "k < length ?ws" "sx_pc (tx_at s t) = Locking k" "j = item_of (?ws ! k)" using assms(4) by (auto simp: waits_for_def)
  obtain l where l: "l < k" "i = item_of (?ws ! l)" using assms(3) k by (auto simp: pc_defs in_set_conv_nth)
  have o: "ordered_tx loc (tx_at s t)" using assms(1,2) by (simp add: ordered_def)
  then have s: "sorted (map location ?ws)" "distinct (map location ?ws)" using k(2) by (auto simp: ordered_tx_def in_commit_def write_set_ok_def)
  then have "map location ?ws ! l < map location ?ws ! k"
    using k(1) l(1) by (metis (no_types, lifting) distinct_conv_nth length_map less_trans nat_neq_iff order.not_eq_order_implies_strict sorted_nth_mono less_imp_le)
  moreover have "location (?ws ! l) = loc i" "location (?ws ! k) = loc j"
    using o k l by (auto simp: ordered_tx_def write_set_ok_def)
  ultimately show ?thesis using k(1) l(1) by simp
qed

text \<open>C2. No deadlock. In every reachable state in which a transaction is committing and none has been thrown out of
  its installation, some committing transaction can take a step.\<close>

theorem commit_never_deadlocks:
  assumes "silo_init items0 s0" "(silo_moves loc)\<^sup>*\<^sup>* s0 s"
    and "\<exists>x\<in>set (sl_txs s). in_commit x" "\<forall>x\<in>set (sl_txs s). \<forall>k. sx_pc x \<noteq> Threw k"
  shows "\<exists>t s'. t < length (sl_txs s) \<and> in_commit (tx_at s t) \<and> silo_step loc t s s'"
proof (rule ccontr)
  assume stuck: "\<not> ?thesis"
  note inv = sil.inv_reachable [OF assms(1,2)] and ord = sio.inv_reachable [OF assms(1,2)]
  let ?C = "{t. t < length (sl_txs s) \<and> in_commit (tx_at s t)}"
  have waits: "\<exists>i. waits_for s t i" if "t \<in> ?C" for t
    using that stuck moves_unless_waiting [OF silo_invD(5) [OF inv], of t loc] assms(4) by (metis mem_Collect_eq nth_mem)
  let ?L = "{loc i |i t. t \<in> ?C \<and> waits_for s t i}"
  have "finite ?L"
  proof (rule finite_subset)
    show "?L \<subseteq> (\<lambda>t. loc (THE i. waits_for s t i)) ` ?C"
    proof
      fix l
      assume "l \<in> ?L"
      then obtain i t where "l = loc i" "t \<in> ?C" "waits_for s t i" by blast
      moreover from this have "(THE i. waits_for s t i) = i" by (intro the_equality) (auto simp: waits_for_def)
      ultimately show "l \<in> (\<lambda>t. loc (THE i. waits_for s t i)) ` ?C" by (intro image_eqI [of _ _ t]) auto
    qed
  qed simp
  moreover have "?L \<noteq> {}"
  proof -
    obtain t where "t \<in> ?C" using assms(3) unfolding Bex_def in_set_conv_nth by auto
    then show ?thesis using waits by blast
  qed
  ultimately obtain i t where t: "t \<in> ?C" "waits_for s t i" "\<And>j u. u \<in> ?C \<Longrightarrow> waits_for s u j \<Longrightarrow> \<not> loc i < loc j"
    using Max_in [of ?L] Max_ge [of ?L] by (smt (verit, best) leD mem_Collect_eq)
  then have "tid_locked (tid_at s i)" by (auto simp: waits_for_def)
  then obtain u where u: "u < length (sl_txs s)" "i \<in> set (held (tx_at s u))" using locks_okD(4) [OF silo_invD(1) [OF inv]] by blast
  then have "u \<in> ?C" by (auto simp: in_commit_def pc_defs split: silo_pc.splits)
  then obtain j where "waits_for s u j" using waits by blast
  then show False using waits_for_later [OF ord u] t(3) \<open>u \<in> ?C\<close> by blast
qed

text \<open>Two transactions write the same item; the second waits for the first.\<close>

theorem commit_never_deadlocks_witness:
  "\<exists>(s :: silo) t u s'. waits_for s t 0 \<and> u < length (sl_txs s) \<and> in_commit (tx_at s u) \<and>
    silo_step (\<lambda>_. ([], [], [7])) u s s'"
proof -
  let ?loc = "\<lambda>_ :: nat. ([] :: bytes, [] :: bytes, [7] :: bytes)"
  define w where "w = Snapshot [7] (Some [1]) (Some 0) [] [] TransactionId_default 0"
  define x where "x = silo_tx_new\<lparr>sx_write_set := [w]\<rparr>"
  define y where "y = x\<lparr>sx_pc := Locking 0\<rparr>"
  define s0 where "s0 = \<lparr>sl_items = (\<lambda>_. DataItem_default), sl_epoch = 1, sl_txs = [], sl_clock = 0, sl_history = []\<rparr>"
  note ev = s0_def tids_fit_def DataItem_default_def TransactionId_default_def
  have "silo_moves ?loc s0 (s0\<lparr>sl_txs := [silo_tx_new]\<rparr>)" using tx_begins [of ?loc s0] by (simp add: s0_def)
  moreover have "silo_moves ?loc (s0\<lparr>sl_txs := [silo_tx_new]\<rparr>) (s0\<lparr>sl_txs := [silo_tx_new, silo_tx_new]\<rparr>)"
    using tx_begins [of ?loc "s0\<lparr>sl_txs := [silo_tx_new]\<rparr>"] by simp
  moreover have "silo_moves ?loc (s0\<lparr>sl_txs := [silo_tx_new, silo_tx_new]\<rparr>) (s0\<lparr>sl_txs := [x, silo_tx_new]\<rparr>)"
    using tx_moves [OF stage [of 0 "s0\<lparr>sl_txs := [silo_tx_new, silo_tx_new]\<rparr>" ?loc "[w]"]]
    by (simp add: ev x_def silo_tx_new_def write_set_ok_def location_def w_def Snapshot_def)
  moreover have "silo_moves ?loc (s0\<lparr>sl_txs := [x, silo_tx_new]\<rparr>) (s0\<lparr>sl_txs := [x, x]\<rparr>)"
    using tx_moves [OF stage [of 1 "s0\<lparr>sl_txs := [x, silo_tx_new]\<rparr>" ?loc "[w]"]]
    by (simp add: ev x_def silo_tx_new_def write_set_ok_def location_def w_def Snapshot_def)
  moreover have "silo_moves ?loc (s0\<lparr>sl_txs := [x, x]\<rparr>) (s0\<lparr>sl_txs := [y, x]\<rparr>)"
    using tx_moves [OF precommit [of 0 "s0\<lparr>sl_txs := [x, x]\<rparr>" ?loc]] by (simp add: ev x_def y_def silo_tx_new_def SortWriteSet_def)
  moreover have "silo_moves ?loc (s0\<lparr>sl_txs := [y, x]\<rparr>) (s0\<lparr>sl_txs := [y, y]\<rparr>)"
    using tx_moves [OF precommit [of 1 "s0\<lparr>sl_txs := [y, x]\<rparr>" ?loc]] by (simp add: ev x_def y_def silo_tx_new_def SortWriteSet_def)
  moreover have "silo_moves ?loc (s0\<lparr>sl_txs := [y, y]\<rparr>) (lock_write (s0\<lparr>sl_txs := [y, y]\<rparr>) 0 0 True)"
    by (rule tx_moves, rule lock) (simp_all add: ev x_def y_def silo_tx_new_def w_def Snapshot_def tid_locked_def)
  ultimately have run: "(silo_moves ?loc)\<^sup>*\<^sup>* s0 (lock_write (s0\<lparr>sl_txs := [y, y]\<rparr>) 0 0 True)"
    by (meson rtranclp.rtrancl_refl rtranclp.rtrancl_into_rtrancl)
  let ?s = "lock_write (s0\<lparr>sl_txs := [y, y]\<rparr>) 0 0 True"
  have txs: "sl_txs ?s = [y\<lparr>sx_pc := Locking 1, sx_write_set := [with_tid w (tid_lock TransactionId_default)]\<rparr>, y]"
    by (simp add: lock_write_def Let_def y_def x_def silo_tx_new_def own_locks_def ev w_def Snapshot_def item_of_def)
  have "silo_init (\<lambda>_. DataItem_default) s0" by (simp add: silo_init_def tid_locked_def ev)
  moreover have "\<exists>x\<in>set (sl_txs ?s). in_commit x" "\<forall>x\<in>set (sl_txs ?s). \<forall>k. sx_pc x \<noteq> Threw k"
    unfolding txs by (simp_all add: y_def in_commit_def)
  ultimately have "\<exists>t s'. t < length (sl_txs ?s) \<and> in_commit (tx_at ?s t) \<and> silo_step ?loc t ?s s'"
    using commit_never_deadlocks [OF _ run] by blast
  moreover have "waits_for ?s 1 0"
    unfolding waits_for_def txs by (simp add: y_def x_def w_def Snapshot_def item_of_def lock_write_def Let_def)
  ultimately show ?thesis by blast
qed

end
