(* ===== verification/StatelessCommit.thy ===== *)
theory StatelessCommit
  imports SiloSerial Loggers
begin

text \<open>
  \<open>Stateless::Commit\<close> (\<^verbatim>\<open>src/stateless/commit.cpp\<close>): validation and installation of a request whose reads and
  writes another process collected (\<^verbatim>\<open>include/lineairdb/stateless.h\<close>). The phases are functions on the shared state,
  so that they can be run one after the other, as \<open>Commit\<close> does, or interleaved with those of another request.

  A \<open>DataItem*\<close> is the number of an item; the indexes map keys to numbers, and a new entry takes the next one. What
  the range index does with a key that has to become visible, and which keys an index scan visits, are arguments. The
  epoch is the one that the thread holds after it has rejoined. A spin on a locked item is an outcome.
\<close>

section \<open>Requests\<close>

record ExternalReadEntry =
  re_table_name :: bytes
  re_key :: bytes
  re_tid :: u64
  re_found :: bool

record ExternalWriteEntry =
  we_table_name :: bytes
  we_key :: bytes
  we_value :: bytes
  we_is_delete :: bool
  we_is_insert :: bool

record ExternalSecondaryIndexEntry =
  se_table_name :: bytes
  se_index_name :: bytes
  se_secondary_key :: bytes
  se_primary_key :: bytes
  se_is_delete :: bool

record ExternalRangeReadEntry =
  rr_table_name :: bytes
  rr_index_name :: bytes
  rr_start_key :: bytes
  rr_end_key :: bytes
  rr_row_limit :: nat
  rr_reverse_scan :: bool
  rr_result_keys :: "bytes list"
  rr_result_primary_keys :: "bytes list"

section \<open>The shared state\<close>

record st_index =
  ix_type :: u32
  ix_slots :: "bytes \<Rightarrow> nat option"

record st_table =
  tb_primary :: "bytes \<Rightarrow> nat option"
  tb_secondary :: "bytes \<Rightarrow> st_index option"

record st_db =
  sd_tables :: "bytes \<Rightarrow> st_table option"
  sd_items :: "nat \<Rightarrow> data_item"
  sd_next :: nat

definition primary_get :: "st_db \<Rightarrow> bytes \<Rightarrow> bytes \<Rightarrow> nat option" where
  "primary_get db tn k = (case sd_tables db tn of None \<Rightarrow> None | Some t \<Rightarrow> tb_primary t k)"

definition secondary_get :: "st_db \<Rightarrow> bytes \<Rightarrow> bytes \<Rightarrow> bytes \<Rightarrow> nat option" where
  "secondary_get db tn inn k =
     (case sd_tables db tn of
        None \<Rightarrow> None
      | Some t \<Rightarrow> (case tb_secondary t inn of None \<Rightarrow> None | Some ix \<Rightarrow> ix_slots ix k))"

text \<open>\<open>ForcePutBlankEntry\<close> in the primary index of a table, and in a secondary index.\<close>

definition put_primary :: "st_db \<Rightarrow> bytes \<Rightarrow> st_table \<Rightarrow> bytes \<Rightarrow> st_db" where
  "put_primary db tn t k =
     db\<lparr>sd_tables := (sd_tables db)(tn \<mapsto> t\<lparr>tb_primary := (tb_primary t)(k \<mapsto> sd_next db)\<rparr>),
        sd_items := (sd_items db)(sd_next db := DataItem_default), sd_next := sd_next db + 1\<rparr>"

definition put_secondary :: "st_db \<Rightarrow> bytes \<Rightarrow> st_table \<Rightarrow> bytes \<Rightarrow> st_index \<Rightarrow> bytes \<Rightarrow> st_db" where
  "put_secondary db tn t inn ix k =
     db\<lparr>sd_tables := (sd_tables db)(tn \<mapsto> t\<lparr>tb_secondary := (tb_secondary t)(inn \<mapsto>
          ix\<lparr>ix_slots := (ix_slots ix)(k \<mapsto> sd_next db)\<rparr>)\<rparr>),
        sd_items := (sd_items db)(sd_next db := DataItem_default), sd_next := sd_next db + 1\<rparr>"

definition GetOrInsert :: "st_db \<Rightarrow> bytes \<Rightarrow> st_table \<Rightarrow> bytes \<Rightarrow> nat \<times> st_db" where
  "GetOrInsert db tn t k = (case tb_primary t k of Some i \<Rightarrow> (i, db) | None \<Rightarrow> (sd_next db, put_primary db tn t k))"

definition si_GetOrInsert :: "st_db \<Rightarrow> bytes \<Rightarrow> st_table \<Rightarrow> bytes \<Rightarrow> st_index \<Rightarrow> bytes \<Rightarrow> nat \<times> st_db" where
  "si_GetOrInsert db tn t inn ix k =
     (case ix_slots ix k of Some i \<Rightarrow> (i, db) | None \<Rightarrow> (sd_next db, put_secondary db tn t inn ix k))"

text \<open>\<open>GetOrInsertForWrite\<close>: an entry that is missing or empty has to become visible; \<open>refuses\<close> is that the
  range index finds a phantom, after the point index has got the entry.\<close>

definition GetOrInsertForWrite ::
  "st_db \<Rightarrow> bytes \<Rightarrow> st_table \<Rightarrow> bytes \<Rightarrow> st_index \<Rightarrow> bytes \<Rightarrow> bool \<Rightarrow> nat option \<times> st_db" where
  "GetOrInsertForWrite db tn t inn ix k refuses =
     (case ix_slots ix k of
        Some i \<Rightarrow> (if view_empty (di_primary_keys (sd_items db i)) \<and> refuses then None else Some i, db)
      | None \<Rightarrow> (if refuses then None else Some (sd_next db), put_secondary db tn t inn ix k))"

section \<open>Resolution\<close>

record ValidationEntry =
  ve_table_name :: bytes
  ve_key :: bytes
  ve_captured_tid :: TransactionId
  ve_found :: bool

record ResolvedWrite =
  rw_table_name :: bytes
  rw_key :: bytes
  rw_value :: bytes
  rw_is_delete :: bool
  rw_item :: nat
  rw_check_committed_row :: bool

record ResolvedSecondaryIndexOp =
  ro_table_name :: bytes
  ro_index_name :: bytes
  ro_secondary_key :: bytes
  ro_primary_key :: bytes
  ro_is_delete :: bool
  ro_item :: nat
  ro_index_type :: u32

definition kDuplicateKeyAbortReason :: string where
  "kDuplicateKeyAbortReason = ''duplicate_primary_key''"

fun resolve_reads :: "st_db \<Rightarrow> ExternalReadEntry list \<Rightarrow> string + ValidationEntry list" where
  "resolve_reads db [] = Inr []"
| "resolve_reads db (r # rs) =
     (case sd_tables db (re_table_name r) of
        None \<Rightarrow> if re_found r \<or> re_tid r \<noteq> 0 then Inl ''read_table_missing'' else resolve_reads db rs
      | Some t \<Rightarrow>
          (case resolve_reads db rs of
             Inl e \<Rightarrow> Inl e
           | Inr es \<Rightarrow> Inr (\<lparr>ve_table_name = re_table_name r, ve_key = re_key r,
                             ve_captured_tid = UnpackTransactionId (re_tid r), ve_found = re_found r\<rparr> # es)))"

text \<open>The decision on one write: the flag of its resolved entry, or the duplicate.\<close>

definition insert_check :: "bool \<Rightarrow> (bytes \<Rightarrow> bool option) \<Rightarrow> ExternalWriteEntry \<Rightarrow> bool option" where
  "insert_check has_insert_entry live_in_request w =
     (if has_insert_entry \<and> we_is_insert w
      then case live_in_request (we_table_name w @ [0] @ we_key w) of
             None \<Rightarrow> Some True
           | Some live \<Rightarrow> if live then None else Some False
      else Some False)"

fun resolve_writes ::
  "st_db \<Rightarrow> bool \<Rightarrow> (bytes \<Rightarrow> bool option) \<Rightarrow> ExternalWriteEntry list \<Rightarrow> st_db \<times> (string + ResolvedWrite list)" where
  "resolve_writes db has_insert_entry live [] = (db, Inr [])"
| "resolve_writes db has_insert_entry live (w # ws) =
     (case sd_tables db (we_table_name w) of
        None \<Rightarrow> (db, Inl ''write_table_missing'')
      | Some t \<Rightarrow>
          (case GetOrInsert db (we_table_name w) t (we_key w) of
             (i, db') \<Rightarrow>
               (case insert_check has_insert_entry live w of
                  None \<Rightarrow> (db', Inl kDuplicateKeyAbortReason)
                | Some check \<Rightarrow>
                    (case resolve_writes db' has_insert_entry
                            (if has_insert_entry
                             then live(we_table_name w @ [0] @ we_key w \<mapsto> \<not> we_is_delete w) else live) ws of
                       (db'', Inl e) \<Rightarrow> (db'', Inl e)
                     | (db'', Inr rs) \<Rightarrow>
                         (db'', Inr (\<lparr>rw_table_name = we_table_name w, rw_key = we_key w, rw_value = we_value w,
                                      rw_is_delete = we_is_delete w, rw_item = i, rw_check_committed_row = check\<rparr> # rs))))))"

fun resolve_si_ops ::
  "st_db \<Rightarrow> (ExternalSecondaryIndexEntry \<Rightarrow> bool) \<Rightarrow> bytes set \<Rightarrow> ExternalSecondaryIndexEntry list \<Rightarrow>
   st_db \<times> (string + ResolvedSecondaryIndexOp list)" where
  "resolve_si_ops db refuses unique_si_adds [] = (db, Inr [])"
| "resolve_si_ops db refuses unique_si_adds (op # ops) =
     (case sd_tables db (se_table_name op) of
        None \<Rightarrow> (db, Inl ''si_table_missing'')
      | Some t \<Rightarrow>
          (case tb_secondary t (se_index_name op) of
             None \<Rightarrow> (db, Inl ''si_index_missing'')
           | Some ix \<Rightarrow>
               (let unique_key = se_table_name op @ [0] @ se_index_name op @ [0] @ se_secondary_key op;
                    adds = \<not> se_is_delete op \<and> IsUnique (ix_type ix)
                in if adds \<and> unique_key \<in> unique_si_adds then (db, Inl ''unique_si_duplicate_in_request'')
                   else
                     (case (if se_is_delete op
                            then map_prod Some id (si_GetOrInsert db (se_table_name op) t (se_index_name op) ix (se_secondary_key op))
                            else GetOrInsertForWrite db (se_table_name op) t (se_index_name op) ix (se_secondary_key op) (refuses op)) of
                        (None, db') \<Rightarrow> (db', Inl ''si_get_or_insert_failed'')
                      | (Some i, db') \<Rightarrow>
                          (case resolve_si_ops db' refuses (if adds then insert unique_key unique_si_adds else unique_si_adds) ops of
                             (db'', Inl e) \<Rightarrow> (db'', Inl e)
                           | (db'', Inr rs) \<Rightarrow>
                               (db'', Inr (\<lparr>ro_table_name = se_table_name op, ro_index_name = se_index_name op,
                                            ro_secondary_key = se_secondary_key op, ro_primary_key = se_primary_key op,
                                            ro_is_delete = se_is_delete op, ro_item = i, ro_index_type = ix_type ix\<rparr> # rs)))))))"

section \<open>Locks\<close>

datatype LockTarget = PrimaryTarget nat bytes bytes | SecondaryTarget nat bytes bytes bytes

definition write_target :: "ResolvedWrite \<Rightarrow> LockTarget" where
  "write_target w = PrimaryTarget (rw_item w) (rw_table_name w) (rw_key w)"

definition si_target :: "ResolvedSecondaryIndexOp \<Rightarrow> LockTarget" where
  "si_target op = SecondaryTarget (ro_item op) (ro_table_name op) (ro_index_name op) (ro_secondary_key op)"

fun target_attached :: "st_db \<Rightarrow> nat \<Rightarrow> LockTarget \<Rightarrow> bool" where
  "target_attached db i (PrimaryTarget j tn k) \<longleftrightarrow> j \<noteq> i \<or> primary_get db tn k = Some i"
| "target_attached db i (SecondaryTarget j tn inn k) \<longleftrightarrow> j \<noteq> i \<or> secondary_get db tn inn k = Some i"

definition lock_target_attached :: "st_db \<Rightarrow> LockTarget list \<Rightarrow> nat \<Rightarrow> bool" where
  "lock_target_attached db targets i = list_all (target_attached db i) targets"

record LockedTid =
  lt_item :: nat
  lt_before_lock :: TransactionId
  lt_locked :: TransactionId

definition lock_items_of :: "ResolvedWrite list \<Rightarrow> ResolvedSecondaryIndexOp list \<Rightarrow> nat list" where
  "lock_items_of ws ops = remdups_adj (sort (map rw_item ws @ map ro_item ops))"

definition set_tid :: "st_db \<Rightarrow> nat \<Rightarrow> TransactionId \<Rightarrow> st_db" where
  "set_tid db i t = db\<lparr>sd_items := (sd_items db)(i := (sd_items db i)\<lparr>di_transaction_id := t\<rparr>)\<rparr>"

abbreviation st_tid :: "st_db \<Rightarrow> nat \<Rightarrow> TransactionId" where
  "st_tid db i \<equiv> di_transaction_id (sd_items db i)"

datatype lock_result = LockSpins | LockDetached | LockDone

fun lock_loop :: "st_db \<Rightarrow> LockTarget list \<Rightarrow> LockedTid list \<Rightarrow> nat list \<Rightarrow> lock_result \<times> st_db \<times> LockedTid list" where
  "lock_loop db targets locked_tids [] = (LockDone, db, locked_tids)"
| "lock_loop db targets locked_tids (i # is) =
     (let current = st_tid db i
      in if tid_locked current then (LockSpins, db, locked_tids)
         else let db' = set_tid db i (tid_lock current);
                  locked_tids' = locked_tids @ [\<lparr>lt_item = i, lt_before_lock = current, lt_locked = tid_lock current\<rparr>]
              in if \<not> lock_target_attached db' targets i then (LockDetached, db', locked_tids')
                 else lock_loop db' targets locked_tids' is)"

definition unlock_one :: "LockedTid \<Rightarrow> st_db \<Rightarrow> st_db" where
  "unlock_one l db = (if tid_locked (st_tid db (lt_item l)) then set_tid db (lt_item l) (tid_unlock (st_tid db (lt_item l))) else db)"

definition unlock_all :: "LockedTid list \<Rightarrow> st_db \<Rightarrow> st_db" where
  "unlock_all locked_tids db = fold unlock_one locked_tids db"

section \<open>Validation\<close>

definition kHex :: string where
  "kHex = ''0123456789abcdef''"

definition key_hex :: "bytes \<Rightarrow> string" where
  "key_hex k = concat (map (\<lambda>b. [kHex ! unat (drop_bit 4 b), kHex ! unat (b AND 0x0F)]) k)"

definition exact_read_reason :: "string \<Rightarrow> ValidationEntry \<Rightarrow> string" where
  "exact_read_reason reason r =
     reason @ '':'' @ map (\<lambda>b. char_of (unat b)) (ve_table_name r) @ '':key='' @ key_hex (ve_key r)"

definition version_check :: "st_db \<Rightarrow> nat \<Rightarrow> TransactionId \<Rightarrow> ValidationEntry \<Rightarrow> string option" where
  "version_check db i expected r =
     (if st_tid db i \<noteq> expected then Some (exact_read_reason ''exact_read_tid_moved'' r)
      else if ve_found r \<and> \<not> IsPrimaryInitialized (sd_items db i) then Some (exact_read_reason ''exact_read_deleted'' r)
      else None)"

text \<open>Phase 2.1 for one read; \<open>None\<close> is that it stands.\<close>

definition validate_read :: "st_db \<Rightarrow> LockedTid list \<Rightarrow> ValidationEntry \<Rightarrow> string option" where
  "validate_read db locked_tids r =
     (case primary_get db (ve_table_name r) (ve_key r) of
        None \<Rightarrow> if ve_found r then Some (exact_read_reason ''exact_read_disappeared'' r) else None
      | Some i \<Rightarrow>
          if \<not> ve_found r
          then if \<not> IsPrimaryInitialized (sd_items db i) then None else Some (exact_read_reason ''exact_read_appeared'' r)
          else case find (\<lambda>l. lt_item l = i) locked_tids of
                 Some l \<Rightarrow>
                   if tid_epoch (lt_before_lock l) \<noteq> tid_epoch (ve_captured_tid r) \<or> tid_tid (lt_before_lock l) \<noteq> tid_tid (ve_captured_tid r)
                   then Some (exact_read_reason ''exact_read_tid_moved'' r)
                   else version_check db i (lt_locked l) r
               | None \<Rightarrow> version_check db i (ve_captured_tid r) r)"

fun first_failure :: "('a \<Rightarrow> string option) \<Rightarrow> 'a list \<Rightarrow> string option" where
  "first_failure check [] = None"
| "first_failure check (x # xs) = (case check x of None \<Rightarrow> first_failure check xs | Some e \<Rightarrow> Some e)"

definition is_own_locked :: "LockedTid list \<Rightarrow> nat \<Rightarrow> bool" where
  "is_own_locked locked_tids i = list_ex (\<lambda>l. lt_item l = i) locked_tids"

definition locked_by_another :: "st_db \<Rightarrow> LockedTid list \<Rightarrow> nat \<Rightarrow> bool" where
  "locked_by_another db locked_tids i \<longleftrightarrow> tid_locked (st_tid db i) \<and> \<not> is_own_locked locked_tids i"

text \<open>The callbacks of the replayed scans. A replay goes on at a position, or is over: with a foreign lock, with a
  divergence, or at the row limit.\<close>

datatype replay = Goes nat | Dirty | Differs | AtLimit nat

definition after_row :: "nat \<Rightarrow> nat \<Rightarrow> replay" where
  "after_row row_limit result_pos = (if row_limit > 0 \<and> result_pos \<ge> row_limit then AtLimit result_pos else Goes result_pos)"

definition collect_key :: "st_db \<Rightarrow> LockedTid list \<Rightarrow> ExternalRangeReadEntry \<Rightarrow> bytes \<Rightarrow> nat \<Rightarrow> nat \<Rightarrow> replay" where
  "collect_key db locked_tids rng k i result_pos =
     (if locked_by_another db locked_tids i then Dirty
      else if IsPrimaryInitialized (sd_items db i)
      then if result_pos \<ge> length (rr_result_keys rng) \<or> rr_result_keys rng ! result_pos \<noteq> k then Differs
           else after_row (rr_row_limit rng) (result_pos + 1)
      else after_row (rr_row_limit rng) result_pos)"

fun replay_primary :: "st_db \<Rightarrow> LockedTid list \<Rightarrow> ExternalRangeReadEntry \<Rightarrow> bytes list \<Rightarrow> nat \<Rightarrow> replay" where
  "replay_primary db locked_tids rng [] result_pos = Goes result_pos"
| "replay_primary db locked_tids rng (k # ks) result_pos =
     (case primary_get db (rr_table_name rng) k of
        None \<Rightarrow> replay_primary db locked_tids rng ks result_pos
      | Some i \<Rightarrow>
          (case collect_key db locked_tids rng k i result_pos of
             Goes p \<Rightarrow> replay_primary db locked_tids rng ks p
           | r \<Rightarrow> r))"

text \<open>What an index scan visits, and whether it reports a value.\<close>

type_synonym index_scan = "ExternalRangeReadEntry \<Rightarrow> bytes list \<times> bool"

definition validate_primary_key_list :: "st_db \<Rightarrow> LockedTid list \<Rightarrow> index_scan \<Rightarrow> ExternalRangeReadEntry \<Rightarrow> bool" where
  "validate_primary_key_list db locked_tids scan rng =
     (if sd_tables db (rr_table_name rng) = None then False
      else case scan rng of
             (visited, has_value) \<Rightarrow>
               (case replay_primary db locked_tids rng visited 0 of
                  Dirty \<Rightarrow> False
                | Differs \<Rightarrow> False
                | Goes p \<Rightarrow> has_value \<and> p = length (rr_result_keys rng)
                | AtLimit p \<Rightarrow> has_value \<and> p = length (rr_result_keys rng)))"

definition collect_base_row ::
  "st_db \<Rightarrow> LockedTid list \<Rightarrow> ExternalRangeReadEntry \<Rightarrow> bytes \<Rightarrow> bytes \<Rightarrow> nat \<Rightarrow> replay" where
  "collect_base_row db locked_tids rng secondary_key primary_key result_pos =
     (case primary_get db (rr_table_name rng) primary_key of
        None \<Rightarrow> Goes result_pos
      | Some i \<Rightarrow>
          if locked_by_another db locked_tids i then Dirty
          else if IsPrimaryInitialized (sd_items db i)
          then if result_pos \<ge> length (rr_result_keys rng) \<or> result_pos \<ge> length (rr_result_primary_keys rng) \<or>
                  rr_result_keys rng ! result_pos \<noteq> secondary_key \<or> rr_result_primary_keys rng ! result_pos \<noteq> primary_key
               then Differs else after_row (rr_row_limit rng) (result_pos + 1)
          else after_row (rr_row_limit rng) result_pos)"

fun replay_base_rows :: "st_db \<Rightarrow> LockedTid list \<Rightarrow> ExternalRangeReadEntry \<Rightarrow> bytes \<Rightarrow> bytes list \<Rightarrow> nat \<Rightarrow> replay" where
  "replay_base_rows db locked_tids rng secondary_key [] result_pos = Goes result_pos"
| "replay_base_rows db locked_tids rng secondary_key (pk # pks) result_pos =
     (case collect_base_row db locked_tids rng secondary_key pk result_pos of
        Goes p \<Rightarrow> replay_base_rows db locked_tids rng secondary_key pks p
      | r \<Rightarrow> r)"

definition collect_secondary_key :: "st_db \<Rightarrow> LockedTid list \<Rightarrow> ExternalRangeReadEntry \<Rightarrow> bytes \<Rightarrow> nat \<Rightarrow> replay" where
  "collect_secondary_key db locked_tids rng k result_pos =
     (case secondary_get db (rr_table_name rng) (rr_index_name rng) k of
        None \<Rightarrow> Goes result_pos
      | Some i \<Rightarrow>
          if locked_by_another db locked_tids i then Dirty
          else case view_keys (di_primary_keys (sd_items db i)) of
                 None \<Rightarrow> Goes result_pos
               | Some pks \<Rightarrow> replay_base_rows db locked_tids rng k pks result_pos)"

fun replay_secondary :: "st_db \<Rightarrow> LockedTid list \<Rightarrow> ExternalRangeReadEntry \<Rightarrow> bytes list \<Rightarrow> nat \<Rightarrow> replay" where
  "replay_secondary db locked_tids rng [] result_pos = Goes result_pos"
| "replay_secondary db locked_tids rng (k # ks) result_pos =
     (case collect_secondary_key db locked_tids rng k result_pos of
        Goes p \<Rightarrow> replay_secondary db locked_tids rng ks p
      | r \<Rightarrow> r)"

definition validate_secondary_key_list :: "st_db \<Rightarrow> LockedTid list \<Rightarrow> index_scan \<Rightarrow> ExternalRangeReadEntry \<Rightarrow> bool" where
  "validate_secondary_key_list db locked_tids scan rng =
     (case sd_tables db (rr_table_name rng) of
        None \<Rightarrow> False
      | Some t \<Rightarrow>
          if tb_secondary t (rr_index_name rng) = None then False
          else case scan rng of
                 (visited, has_value) \<Rightarrow>
                   (case replay_secondary db locked_tids rng visited 0 of
                      Dirty \<Rightarrow> False
                    | Differs \<Rightarrow> False
                    | Goes p \<Rightarrow> has_value \<and> p = length (rr_result_keys rng) \<and> p = length (rr_result_primary_keys rng)
                    | AtLimit p \<Rightarrow> has_value \<and> p = length (rr_result_keys rng) \<and> p = length (rr_result_primary_keys rng)))"

definition validate_range :: "st_db \<Rightarrow> LockedTid list \<Rightarrow> index_scan \<Rightarrow> ExternalRangeReadEntry \<Rightarrow> string option" where
  "validate_range db locked_tids scan rng =
     (if rr_index_name rng = []
      then if validate_primary_key_list db locked_tids scan rng then None else Some ''primary_range_result_changed''
      else if validate_secondary_key_list db locked_tids scan rng then None else Some ''secondary_range_result_changed'')"

text \<open>Phase 2.3.\<close>

definition validate_insert :: "st_db \<Rightarrow> ResolvedWrite \<Rightarrow> string option" where
  "validate_insert db w =
     (if \<not> rw_check_committed_row w then None
      else if IsPrimaryInitialized (sd_items db (rw_item w)) then Some kDuplicateKeyAbortReason
      else None)"

text \<open>Phase 2.4: the operations run on copies of the lists; \<open>Inl\<close> is an exception of the list codec.\<close>

fun validate_unique ::
  "st_db \<Rightarrow> (nat \<Rightarrow> packed_ptr option) \<Rightarrow> ResolvedSecondaryIndexOp list \<Rightarrow> pk_error + string option" where
  "validate_unique db si_primary_keys [] = Inr None"
| "validate_unique db si_primary_keys (op # ops) =
     (if \<not> IsUnique (ro_index_type op) then validate_unique db si_primary_keys ops
      else let primary_keys = (case si_primary_keys (ro_item op) of
                                 None \<Rightarrow> di_primary_keys (sd_items db (ro_item op)) | Some p \<Rightarrow> p)
           in if ro_is_delete op
              then case (if contains primary_keys (ro_primary_key op) = Some True
                         then Erase primary_keys (ro_primary_key op) else Inr primary_keys) of
                     Inl e \<Rightarrow> Inl e
                   | Inr p \<Rightarrow> validate_unique db (si_primary_keys(ro_item op \<mapsto> p)) ops
              else if \<not> view_empty primary_keys then Inr (Some ''unique_si_exists_after_lock'')
              else case Insert primary_keys (ro_primary_key op) of
                     Inl e \<Rightarrow> Inl e
                   | Inr p \<Rightarrow> validate_unique db (si_primary_keys(ro_item op \<mapsto> p)) ops)"

definition validate_all ::
  "st_db \<Rightarrow> LockedTid list \<Rightarrow> index_scan \<Rightarrow> ValidationEntry list \<Rightarrow> ExternalRangeReadEntry list \<Rightarrow> ResolvedWrite list \<Rightarrow>
   ResolvedSecondaryIndexOp list \<Rightarrow> pk_error + string option" where
  "validate_all db locked_tids scan entries range_reads ws ops =
     (case first_failure (validate_read db locked_tids) entries of
        Some e \<Rightarrow> Inr (Some e)
      | None \<Rightarrow>
          (case first_failure (validate_range db locked_tids scan) range_reads of
             Some e \<Rightarrow> Inr (Some e)
           | None \<Rightarrow>
               (case first_failure (validate_insert db) ws of
                  Some e \<Rightarrow> Inr (Some e)
                | None \<Rightarrow> validate_unique db (\<lambda>_. None) ops)))"

section \<open>Installation\<close>

definition install_row :: "ResolvedWrite \<Rightarrow> st_db \<Rightarrow> st_db" where
  "install_row w db =
     db\<lparr>sd_items := (sd_items db)(rw_item w :=
          DataItem_Reset (sd_items db (rw_item w)) (if rw_is_delete w then None else Some (rw_value w)) TransactionId_default)\<rparr>"

fun install_si_ops :: "ResolvedSecondaryIndexOp list \<Rightarrow> st_db \<Rightarrow> pk_error + st_db" where
  "install_si_ops [] db = Inr db"
| "install_si_ops (op # ops) db =
     (case (if ro_is_delete op then RemoveSecondaryIndexValue (sd_items db (ro_item op)) (ro_primary_key op)
            else AddSecondaryIndexValue (sd_items db (ro_item op)) (ro_primary_key op)) of
        Inl e \<Rightarrow> Inl e
      | Inr d \<Rightarrow> install_si_ops ops (db\<lparr>sd_items := (sd_items db)(ro_item op := d)\<rparr>))"

definition log_write :: "st_db \<Rightarrow> ResolvedWrite \<Rightarrow> snapshot" where
  "log_write db w =
     (Snapshot (rw_key w) None (Some (rw_item w)) (rw_table_name w) [] TransactionId_default 0)
       \<lparr>sn_data_item_copy := DataItem_assign DataItem_default (sd_items db (rw_item w))\<rparr>"

definition log_si_op :: "st_db \<Rightarrow> ResolvedSecondaryIndexOp \<Rightarrow> snapshot" where
  "log_si_op db op =
     RecordSecondaryIndexDelta
       ((Snapshot (ro_secondary_key op) None (Some (ro_item op)) (ro_table_name op) (ro_index_name op) TransactionId_default (ro_index_type op))
          \<lparr>sn_data_item_copy := DataItem_assign DataItem_default (sd_items db (ro_item op))\<rparr>)
       (ro_primary_key op) (if ro_is_delete op then OpRemove else OpAdd)"

definition build_log_set :: "bool \<Rightarrow> st_db \<Rightarrow> ResolvedWrite list \<Rightarrow> ResolvedSecondaryIndexOp list \<Rightarrow> snapshot list" where
  "build_log_set enable_logging db ws ops =
     (if enable_logging then map (log_write db) ws @ map (log_si_op db) ops else [])"

definition publish_tid :: "epoch_number \<Rightarrow> nat \<Rightarrow> st_db \<Rightarrow> st_db" where
  "publish_tid current_epoch i db =
     set_tid db i (if tid_epoch (st_tid db i) = current_epoch then TransactionId current_epoch (tid_tid (st_tid db i) + 1)
                   else TransactionId current_epoch 2)"

definition publish_log_tid :: "st_db \<Rightarrow> nat list \<Rightarrow> snapshot \<Rightarrow> snapshot" where
  "publish_log_tid db lock_items s =
     (if item_of s \<in> set lock_items then with_tid s (st_tid db (item_of s)) else s)"

datatype purge = PurgeRow bytes bytes nat TransactionId | PurgeSlot bytes bytes bytes nat TransactionId

definition row_purges :: "st_db \<Rightarrow> ResolvedWrite list \<Rightarrow> purge list" where
  "row_purges db ws =
     map (\<lambda>w. PurgeRow (rw_table_name w) (rw_key w) (rw_item w) (st_tid db (rw_item w))) (filter rw_is_delete ws)"

fun slot_purges :: "st_db \<Rightarrow> nat set \<Rightarrow> ResolvedSecondaryIndexOp list \<Rightarrow> purge list" where
  "slot_purges db registered [] = []"
| "slot_purges db registered (op # ops) =
     (if \<not> ro_is_delete op \<or> \<not> view_empty (di_primary_keys (sd_items db (ro_item op))) \<or> ro_item op \<in> registered
      then slot_purges db registered ops
      else PurgeSlot (ro_table_name op) (ro_index_name op) (ro_secondary_key op) (ro_item op) (st_tid db (ro_item op))
             # slot_purges db (insert (ro_item op) registered) ops)"

section \<open>Commit\<close>

datatype commit_outcome =
    Committed "snapshot list" "purge list"
  | CommitAborted string
  | CommitSpins
  | CommitThrew pk_error

text \<open>The phases after the locks.\<close>

definition finish_commit ::
  "bool \<Rightarrow> epoch_number \<Rightarrow> st_db \<Rightarrow> nat list \<Rightarrow> ResolvedWrite list \<Rightarrow> ResolvedSecondaryIndexOp list \<Rightarrow> commit_outcome \<times> st_db" where
  "finish_commit enable_logging current_epoch db lock_items ws ops =
     (let db1 = fold install_row ws db
      in case install_si_ops ops db1 of
           Inl e \<Rightarrow> (CommitThrew e, db1)
         | Inr db2 \<Rightarrow>
             (let log_set = build_log_set enable_logging db2 ws ops;
                  db3 = fold (publish_tid current_epoch) lock_items db2
              in (Committed (map (publish_log_tid db3 lock_items) log_set) (row_purges db3 ws @ slot_purges db3 {} ops), db3)))"

definition commit_locked ::
  "bool \<Rightarrow> epoch_number \<Rightarrow> index_scan \<Rightarrow> st_db \<Rightarrow> LockedTid list \<Rightarrow> nat list \<Rightarrow> ValidationEntry list \<Rightarrow> ExternalRangeReadEntry list \<Rightarrow>
   ResolvedWrite list \<Rightarrow> ResolvedSecondaryIndexOp list \<Rightarrow> commit_outcome \<times> st_db" where
  "commit_locked enable_logging current_epoch scan db locked_tids lock_items entries range_reads ws ops =
     (case validate_all db locked_tids scan entries range_reads ws ops of
        Inl e \<Rightarrow> (CommitThrew e, db)
      | Inr (Some reason) \<Rightarrow> (CommitAborted reason, unlock_all locked_tids db)
      | Inr None \<Rightarrow> finish_commit enable_logging current_epoch db lock_items ws ops)"

definition Commit ::
  "bool \<Rightarrow> epoch_number \<Rightarrow> index_scan \<Rightarrow> (ExternalSecondaryIndexEntry \<Rightarrow> bool) \<Rightarrow> st_db \<Rightarrow> ExternalReadEntry list \<Rightarrow>
   ExternalWriteEntry list \<Rightarrow> ExternalSecondaryIndexEntry list \<Rightarrow> ExternalRangeReadEntry list \<Rightarrow> commit_outcome \<times> st_db" where
  "Commit enable_logging current_epoch scan refuses db reads ws0 ops0 range_reads =
     (if list_ex (\<lambda>r. rr_end_key r = []) range_reads then (CommitAborted ''range_end_key_missing'', db)
      else case resolve_reads db reads of
        Inl e \<Rightarrow> (CommitAborted e, db)
      | Inr entries \<Rightarrow>
     (case resolve_writes db (list_ex we_is_insert ws0) (\<lambda>_. None) ws0 of
        (db1, Inl e) \<Rightarrow> (CommitAborted e, db1)
      | (db1, Inr ws) \<Rightarrow>
     (case resolve_si_ops db1 refuses {} ops0 of
        (db2, Inl e) \<Rightarrow> (CommitAborted e, db2)
      | (db2, Inr ops) \<Rightarrow>
     (let lock_items = lock_items_of ws ops
      in case lock_loop db2 (map write_target ws @ map si_target ops) [] lock_items of
           (LockSpins, db3, locked_tids) \<Rightarrow> (CommitSpins, db3)
         | (LockDetached, db3, locked_tids) \<Rightarrow> (CommitAborted ''write_target_detached'', unlock_all locked_tids db3)
         | (LockDone, db3, locked_tids) \<Rightarrow>
             commit_locked enable_logging current_epoch scan db3 locked_tids lock_items entries range_reads ws ops))))"

section \<open>What resolution and locks leave\<close>

definition fresh :: "st_db \<Rightarrow> bool" where
  "fresh db \<longleftrightarrow> (\<forall>i\<ge>sd_next db. sd_items db i = DataItem_default)"

text \<open>Items keep their contents and keys their items; new keys get blank items.\<close>

definition extends :: "st_db \<Rightarrow> st_db \<Rightarrow> bool" where
  "extends db db' \<longleftrightarrow> sd_items db' = sd_items db \<and> sd_next db \<le> sd_next db' \<and>
     (\<forall>tn k i. primary_get db tn k = Some i \<longrightarrow> primary_get db' tn k = Some i) \<and>
     (\<forall>tn inn k i. secondary_get db tn inn k = Some i \<longrightarrow> secondary_get db' tn inn k = Some i) \<and>
     (\<forall>tn. sd_tables db tn = None \<longleftrightarrow> sd_tables db' tn = None)"

lemma extends_refl [simp]: "extends db db"
  by (simp add: extends_def)

lemma extends_trans: "extends a b \<Longrightarrow> extends b c \<Longrightarrow> extends a c"
  unfolding extends_def by auto

lemma extends_fresh: "extends a b \<Longrightarrow> fresh a \<Longrightarrow> fresh b"
  unfolding extends_def fresh_def by auto

lemma extends_put_primary:
  "fresh db \<Longrightarrow> sd_tables db tn = Some t \<Longrightarrow> tb_primary t k = None \<Longrightarrow> extends db (put_primary db tn t k)"
  by (auto simp: extends_def put_primary_def fresh_def primary_get_def secondary_get_def fun_eq_iff split: option.splits if_splits)

lemma extends_put_secondary:
  "fresh db \<Longrightarrow> sd_tables db tn = Some t \<Longrightarrow> tb_secondary t inn = Some ix \<Longrightarrow> ix_slots ix k = None \<Longrightarrow>
   extends db (put_secondary db tn t inn ix k)"
  by (auto simp: extends_def put_secondary_def fresh_def primary_get_def secondary_get_def fun_eq_iff split: option.splits if_splits)

lemma GetOrInsert_extends:
  "fresh db \<Longrightarrow> sd_tables db tn = Some t \<Longrightarrow> GetOrInsert db tn t k = (i, db') \<Longrightarrow>
   extends db db' \<and> primary_get db' tn k = Some i"
  using extends_put_primary [of db tn t k]
  by (auto simp: GetOrInsert_def primary_get_def put_primary_def split: option.splits)

lemma resolve_writes_extends: "fresh db \<Longrightarrow> resolve_writes db has live ws = (db', r) \<Longrightarrow> extends db db'"
proof (induction ws arbitrary: db live r)
  case (Cons w ws)
  show ?case
  proof (cases "sd_tables db (we_table_name w)")
    case (Some t)
    obtain i db1 where g: "GetOrInsert db (we_table_name w) t (we_key w) = (i, db1)" by force
    have e: "extends db db1" using GetOrInsert_extends [OF Cons.prems(1) Some g] by simp
    show ?thesis
      using Cons.IH [OF extends_fresh [OF e Cons.prems(1)]] extends_trans [OF e] e Cons.prems(2) Some g
      by (auto split: option.splits prod.splits sum.splits)
  qed (use Cons.prems in auto)
qed simp

lemma si_slot_extends:
  assumes "fresh db" "sd_tables db tn = Some t" "tb_secondary t inn = Some ix"
  shows "si_GetOrInsert db tn t inn ix k = (i, db') \<Longrightarrow> extends db db'"
    "GetOrInsertForWrite db tn t inn ix k rf = (r, db') \<Longrightarrow> extends db db'"
  using extends_put_secondary [OF assms, of k]
  by (auto simp: si_GetOrInsert_def GetOrInsertForWrite_def split: option.splits)

lemma resolve_si_ops_extends: "fresh db \<Longrightarrow> resolve_si_ops db refuses adds ops = (db', r) \<Longrightarrow> extends db db'"
proof (induction ops arbitrary: db adds r)
  case (Cons op ops)
  let ?tn = "se_table_name op" and ?in = "se_index_name op" and ?k = "se_secondary_key op"
  show ?case
  proof (cases "\<exists>t ix. sd_tables db ?tn = Some t \<and> tb_secondary t ?in = Some ix")
    case True
    then obtain t ix where t: "sd_tables db ?tn = Some t" "tb_secondary t ?in = Some ix" by blast
    obtain r1 db1 where g: "(if se_is_delete op then map_prod Some id (si_GetOrInsert db ?tn t ?in ix ?k)
        else GetOrInsertForWrite db ?tn t ?in ix ?k (refuses op)) = (r1, db1)" by force
    have e: "extends db db1"
      using g si_slot_extends [OF Cons.prems(1) t] by (cases "si_GetOrInsert db ?tn t ?in ix ?k") (auto split: if_splits)
    show ?thesis
      using Cons.IH [OF extends_fresh [OF e Cons.prems(1)]] extends_trans [OF e] e Cons.prems(2) t g
      by (auto simp: Let_def split: option.splits prod.splits sum.splits if_splits)
  qed (use Cons.prems in \<open>auto split: option.splits\<close>)
qed simp

lemma distinct_lock_items: "distinct (lock_items_of ws ops)"
proof -
  have "sorted xs \<Longrightarrow> distinct (remdups_adj xs)" for xs :: "nat list"
    by (induction xs rule: remdups_adj.induct) (auto simp: order.antisym)
  then show ?thesis by (simp add: lock_items_of_def)
qed

lemma set_tid_simps [simp]:
  "sd_tables (set_tid db i t) = sd_tables db" "sd_next (set_tid db i t) = sd_next db"
  "sd_items (set_tid db i t) j = (if j = i then (sd_items db i)\<lparr>di_transaction_id := t\<rparr> else sd_items db j)"
  by (auto simp: set_tid_def)

text \<open>The locks that a run of the lock loop has taken, whatever ended it.\<close>

lemma lock_loop_spec:
  "lock_loop db targets L is = (r, db', L') \<Longrightarrow> distinct is \<Longrightarrow>
   \<exists>new. L' = L @ new \<and> distinct (map lt_item new) \<and> set (map lt_item new) \<subseteq> set is \<and>
     (r = LockDone \<longrightarrow> map lt_item new = is) \<and> sd_tables db' = sd_tables db \<and> sd_next db' = sd_next db \<and>
     (\<forall>l\<in>set new. lt_before_lock l = st_tid db (lt_item l) \<and> lt_locked l = tid_lock (lt_before_lock l)) \<and>
     (\<forall>j. if j \<in> set (map lt_item new)
          then \<not> tid_locked (st_tid db j) \<and> sd_items db' j = (sd_items db j)\<lparr>di_transaction_id := tid_lock (st_tid db j)\<rparr>
          else sd_items db' j = sd_items db j)"
proof (induction "is" arbitrary: db L)
  case (Cons i "is")
  let ?l = "\<lparr>lt_item = i, lt_before_lock = st_tid db i, lt_locked = tid_lock (st_tid db i)\<rparr>"
  let ?db = "set_tid db i (tid_lock (st_tid db i))"
  consider "tid_locked (st_tid db i)" | "\<not> tid_locked (st_tid db i)" "\<not> lock_target_attached ?db targets i"
    | "\<not> tid_locked (st_tid db i)" "lock_target_attached ?db targets i" by blast
  then show ?case
  proof cases
    case 1
    then show ?thesis using Cons.prems by (auto simp: Let_def intro!: exI [of _ "[]"])
  next
    case 2
    then show ?thesis using Cons.prems by (auto simp: Let_def intro!: exI [of _ "[?l]"])
  next
    case 3
    then obtain new where n: "L' = (L @ [?l]) @ new" "distinct (map lt_item new)" "set (map lt_item new) \<subseteq> set is"
        "r = LockDone \<longrightarrow> map lt_item new = is" "sd_tables db' = sd_tables db" "sd_next db' = sd_next db"
        "\<forall>l\<in>set new. lt_before_lock l = st_tid ?db (lt_item l) \<and> lt_locked l = tid_lock (lt_before_lock l)"
        "\<forall>j. if j \<in> set (map lt_item new)
          then \<not> tid_locked (st_tid ?db j) \<and> sd_items db' j = (sd_items ?db j)\<lparr>di_transaction_id := tid_lock (st_tid ?db j)\<rparr>
          else sd_items db' j = sd_items ?db j"
      using Cons.IH [of ?db "L @ [?l]"] Cons.prems by (auto simp: Let_def)
    have i: "i \<notin> set (map lt_item new)" using n(3) Cons.prems(2) by auto
    show ?thesis
    proof (intro exI [of _ "?l # new"] conjI)
      show "\<forall>l\<in>set (?l # new). lt_before_lock l = st_tid db (lt_item l) \<and> lt_locked l = tid_lock (lt_before_lock l)"
        using n(7) i by auto
      show "\<forall>j. if j \<in> set (map lt_item (?l # new))
          then \<not> tid_locked (st_tid db j) \<and> sd_items db' j = (sd_items db j)\<lparr>di_transaction_id := tid_lock (st_tid db j)\<rparr>
          else sd_items db' j = sd_items db j"
        using n(8) i 3(1) by (auto split: if_splits)
    qed (use n i in auto)
  qed
qed (auto intro!: exI [of _ "[]"])

lemma tid_locked_lock [simp]: "tid_locked (tid_lock t)"
  by (simp add: tid_locked_def tid_lock_def bit_eq_iff) (auto simp: bit_simps intro!: exI [of _ 0])

lemma lock_loop_done:
  assumes "lock_loop db targets [] is = (LockDone, db', L)" "distinct is"
  shows "sd_tables db' = sd_tables db \<and> (\<forall>j\<in>set is. tid_locked (st_tid db' j))"
proof -
  obtain new :: "LockedTid list" where n: "LockDone = LockDone \<longrightarrow> map lt_item new = is" "sd_tables db' = sd_tables db"
      "\<forall>j. if j \<in> set (map lt_item new)
        then \<not> tid_locked (st_tid db j) \<and> sd_items db' j = (sd_items db j)\<lparr>di_transaction_id := tid_lock (st_tid db j)\<rparr>
        else sd_items db' j = sd_items db j"
    using lock_loop_spec [OF assms] by blast
  have "tid_locked (st_tid db' j)" if "j \<in> set is" for j
    using n(3) [rule_format, of j] that n(1) by simp
  then show ?thesis using n(2) by blast
qed

lemma unlock_all_items:
  "distinct (map lt_item L) \<Longrightarrow> sd_items (unlock_all L db) j =
     (if j \<in> set (map lt_item L) \<and> tid_locked (st_tid db j) then (sd_items db j)\<lparr>di_transaction_id := tid_unlock (st_tid db j)\<rparr>
      else sd_items db j) \<and> sd_tables (unlock_all L db) = sd_tables db \<and> sd_next (unlock_all L db) = sd_next db"
proof (induction L arbitrary: db)
  case (Cons l L)
  then show ?case using Cons.IH [of "unlock_one l db"] by (auto simp: unlock_all_def unlock_one_def)
qed (simp add: unlock_all_def)

lemma unlock_after_lock:
  assumes "lock_loop db targets [] is = (r, db', L)" "distinct is"
  shows "unlock_all L db' = db"
proof -
  obtain new where n: "L = new" "distinct (map lt_item new)" "sd_tables db' = sd_tables db" "sd_next db' = sd_next db"
      "\<forall>j. if j \<in> set (map lt_item new)
        then \<not> tid_locked (st_tid db j) \<and> sd_items db' j = (sd_items db j)\<lparr>di_transaction_id := tid_lock (st_tid db j)\<rparr>
        else sd_items db' j = sd_items db j"
    using lock_loop_spec [OF assms] by auto
  have "sd_items (unlock_all L db') j = sd_items db j" for j
  proof (cases "j \<in> set (map lt_item new)")
    case True
    then have "\<not> tid_locked (st_tid db j)" "sd_items db' j = (sd_items db j)\<lparr>di_transaction_id := tid_lock (st_tid db j)\<rparr>"
      using n(5) by presburger+
    then show ?thesis using unlock_all_items [OF n(2), of db' j] n(1) True by simp
  next
    case False
    then show ?thesis using unlock_all_items [OF n(2), of db' j] n(1,5) by auto
  qed
  then show ?thesis using unlock_all_items [OF n(2), of db'] n(1,3,4) by (cases db; cases "unlock_all L db'") (auto simp: fun_eq_iff)
qed


definition demo_write :: "bytes \<Rightarrow> bytes \<Rightarrow> bool \<Rightarrow> bool \<Rightarrow> ExternalWriteEntry" where
  "demo_write k v del ins = \<lparr>we_table_name = [116], we_key = k, we_value = v, we_is_delete = del, we_is_insert = ins\<rparr>"

definition demo_table :: st_table where
  "demo_table = \<lparr>tb_primary = [[1] \<mapsto> 0], tb_secondary = Map.empty\<rparr>"

definition demo_db :: st_db where
  "demo_db = \<lparr>sd_tables = [[116] \<mapsto> demo_table],
     sd_items = (\<lambda>_. DataItem_default)(0 := DataItem_Reset DataItem_default (Some [9]) (TransactionId 4 2)), sd_next = 1\<rparr>"

lemma demo_fresh: "fresh demo_db"
  by (simp add: demo_db_def fresh_def)

lemma demo_tables: "sd_tables demo_db [116] = Some demo_table"
  by (simp add: demo_db_def)

lemmas demo_defs = demo_db_def demo_table_def demo_write_def

lemmas demo_eval = Commit_def demo_db_def demo_table_def demo_write_def Let_def insert_check_def GetOrInsert_def lock_items_of_def
  set_tid_def lock_target_attached_def write_target_def primary_get_def commit_locked_def validate_all_def validate_insert_def
  tid_lock_def tid_locked_def DataItem_Reset_def IsEmpty_def DataItem_default_def heap_Reset_def heap_empty_def IsPrimaryInitialized_def


end
