(* ===== verification/StatelessChecks.thy ===== *)
theory StatelessChecks
  imports StatelessCommit
begin

text \<open>
  What the checks of \<open>Stateless::Commit\<close> decide: duplicate inserts, unique secondary indexes, replayed ranges, and
  what the check of absent reads lets through.
\<close>

section \<open>Inserts\<close>

text \<open>The rows as the writes run one after the other: which key holds a row, and whether an insert meets one.\<close>

definition row_live :: "st_db \<Rightarrow> bytes \<Rightarrow> bytes \<Rightarrow> bool" where
  "row_live db tn k = (case primary_get db tn k of None \<Rightarrow> False | Some i \<Rightarrow> IsPrimaryInitialized (sd_items db i))"

fun insert_meets_row :: "(bytes \<Rightarrow> bytes \<Rightarrow> bool) \<Rightarrow> ExternalWriteEntry list \<Rightarrow> bool" where
  "insert_meets_row rows [] = False"
| "insert_meets_row rows (w # ws) =
     (we_is_insert w \<and> rows (we_table_name w) (we_key w) \<or>
      insert_meets_row (rows(we_table_name w := (rows (we_table_name w))(we_key w := \<not> we_is_delete w \<and> we_value w \<noteq> []))) ws)"

definition refused_as_duplicate :: "st_db \<Rightarrow> st_db \<times> (string + ResolvedWrite list) \<Rightarrow> bool" where
  "refused_as_duplicate db r =
     (case snd r of
        Inl e \<Rightarrow> e = kDuplicateKeyAbortReason
      | Inr ws \<Rightarrow> first_failure (validate_insert db) ws = Some kDuplicateKeyAbortReason)"

definition no_nul :: "bytes \<Rightarrow> bool" where
  "no_nul tn = list_all (\<lambda>b. b \<noteq> 0) tn"

lemma request_key_inject:
  "no_nul tn \<Longrightarrow> no_nul tn' \<Longrightarrow> tn @ [0] @ k = tn' @ [0] @ k' \<longleftrightarrow> tn = tn' \<and> k = k'"
proof (induction tn arbitrary: tn')
  case Nil
  then show ?case by (cases tn') (auto simp: no_nul_def)
next
  case (Cons b tn)
  then show ?case by (cases tn') (auto simp: no_nul_def)
qed

lemma resolve_writes_no_insert:
  "\<not> list_ex we_is_insert ws \<Longrightarrow> \<forall>w\<in>set ws. sd_tables db (we_table_name w) \<noteq> None \<Longrightarrow> fresh db \<Longrightarrow>
   \<exists>db' rs. resolve_writes db False live ws = (db', Inr rs) \<and> \<not> list_ex rw_check_committed_row rs"
proof (induction ws arbitrary: db live)
  case (Cons w ws)
  obtain t where t: "sd_tables db (we_table_name w) = Some t" using Cons.prems by auto
  obtain i db1 where g: "GetOrInsert db (we_table_name w) t (we_key w) = (i, db1)" by force
  have e: "extends db db1" using GetOrInsert_extends [OF Cons.prems(3) t g] by simp
  then have "\<forall>v\<in>set ws. sd_tables db1 (we_table_name v) \<noteq> None" using Cons.prems(2) by (auto simp: extends_def)
  then obtain db' rs where "resolve_writes db1 False live ws = (db', Inr rs)" "\<not> list_ex rw_check_committed_row rs"
    using Cons.IH [of db1 live] Cons.prems extends_fresh [OF e] by auto
  then show ?case using t g by (auto simp: insert_check_def)
qed auto

lemma first_failure_None: "first_failure f xs = None \<longleftrightarrow> (\<forall>x\<in>set xs. f x = None)"
  by (induction xs) (auto split: option.splits)

lemma first_failure_duplicate:
  "first_failure (validate_insert db) rs = Some kDuplicateKeyAbortReason \<longleftrightarrow>
   (\<exists>r\<in>set rs. rw_check_committed_row r \<and> IsPrimaryInitialized (sd_items db (rw_item r)))"
  by (induction rs) (auto simp: validate_insert_def)

lemma insert_meets_row_none: "\<not> list_ex we_is_insert ws \<Longrightarrow> \<not> insert_meets_row rows ws"
  by (induction ws arbitrary: rows) auto

lemma GetOrInsert_row_live:
  "fresh db \<Longrightarrow> sd_tables db tn = Some t \<Longrightarrow> GetOrInsert db tn t k = (i, db') \<Longrightarrow> row_live db tn' k' = row_live db' tn' k'"
  by (auto simp: GetOrInsert_def put_primary_def row_live_def primary_get_def fresh_def DataItem_default_def heap_empty_def
      IsPrimaryInitialized_def split: option.splits if_splits)

lemma resolve_writes_error:
  "fresh db \<Longrightarrow> \<forall>w\<in>set ws. sd_tables db (we_table_name w) \<noteq> None \<Longrightarrow> resolve_writes db has live ws = (db', Inl e) \<Longrightarrow>
   e = kDuplicateKeyAbortReason"
proof (induction ws arbitrary: db live)
  case (Cons w ws)
  obtain t where t: "sd_tables db (we_table_name w) = Some t" using Cons.prems by auto
  obtain i db1 where g: "GetOrInsert db (we_table_name w) t (we_key w) = (i, db1)" by force
  have e: "extends db db1" using GetOrInsert_extends [OF Cons.prems(1) t g] by simp
  then have "\<forall>v\<in>set ws. sd_tables db1 (we_table_name v) \<noteq> None"
    using Cons.prems(2) unfolding extends_def by (metis list.set_intros(2))
  then show ?case
    using Cons.IH [OF extends_fresh [OF e Cons.prems(1)]] Cons.prems(3) t g
    by (auto split: option.splits prod.splits sum.splits)
qed simp

lemma resolve_writes_duplicate:
  assumes "fresh db" "\<forall>w\<in>set ws. sd_tables db (we_table_name w) \<noteq> None \<and> no_nul (we_table_name w) \<and> (we_is_delete w \<or> we_value w \<noteq> [])"
    "\<forall>i. IsPrimaryInitialized (sd_items now i) = IsPrimaryInitialized (sd_items db i)"
    "\<forall>tn k. no_nul tn \<longrightarrow> rows tn k = (case live (tn @ [0] @ k) of None \<Rightarrow> row_live db tn k | Some b \<Rightarrow> b)"
  shows "refused_as_duplicate now (resolve_writes db True live ws) \<longleftrightarrow> insert_meets_row rows ws"
  using assms
proof (induction ws arbitrary: db live rows)
  case Nil
  then show ?case by (simp add: refused_as_duplicate_def)
next
  case (Cons w ws)
  let ?tn = "we_table_name w" and ?k = "we_key w"
  let ?live = "live(?tn @ [0] @ ?k \<mapsto> \<not> we_is_delete w)"
  let ?rows = "rows(?tn := (rows ?tn)(?k := \<not> we_is_delete w \<and> we_value w \<noteq> []))"
  obtain t where t: "sd_tables db ?tn = Some t" using Cons.prems by auto
  obtain i db1 where g: "GetOrInsert db ?tn t ?k = (i, db1)" by force
  have e: "extends db db1" and p: "primary_get db1 ?tn ?k = Some i" using GetOrInsert_extends [OF Cons.prems(1) t g] by auto
  have slot: "row_live db tn k = row_live db1 tn k" for tn k
    using GetOrInsert_row_live [OF Cons.prems(1) t g] .
  have it: "IsPrimaryInitialized (sd_items now i) = row_live db ?tn ?k"
    using slot p e Cons.prems(3) by (simp add: row_live_def extends_def)
  have r: "\<forall>tn k. no_nul tn \<longrightarrow> rows tn k = (case live (tn @ [0] @ k) of None \<Rightarrow> row_live db1 tn k | Some b \<Rightarrow> b)"
    using Cons.prems(4) unfolding slot .
  have ih: "refused_as_duplicate now (resolve_writes db1 True ?live ws) \<longleftrightarrow> insert_meets_row ?rows ws"
  proof (rule Cons.IH)
    show "fresh db1" by (rule extends_fresh [OF e Cons.prems(1)])
    show "\<forall>w\<in>set ws. sd_tables db1 (we_table_name w) \<noteq> None \<and> no_nul (we_table_name w) \<and> (we_is_delete w \<or> we_value w \<noteq> [])"
      using Cons.prems(2) e unfolding extends_def by (metis list.set_intros(2))
    show "\<forall>i. IsPrimaryInitialized (sd_items now i) = IsPrimaryInitialized (sd_items db1 i)"
      using Cons.prems(3) e by (simp add: extends_def)
    show "\<forall>tn k. no_nul tn \<longrightarrow> ?rows tn k = (case ?live (tn @ [0] @ k) of None \<Rightarrow> row_live db1 tn k | Some b \<Rightarrow> b)"
      using Cons.prems(2) r request_key_inject [of _ ?tn _ ?k] by (auto simp del: append.simps append_Cons)
  qed
  have rw: "rows ?tn ?k = (case live (?tn @ [0] @ ?k) of None \<Rightarrow> row_live db ?tn ?k | Some b \<Rightarrow> b)"
    using Cons.prems(2,4) by simp
  have err: "err = kDuplicateKeyAbortReason" if "resolve_writes db1 True ?live ws = (db', Inl err)" for db' err
    using resolve_writes_error [OF extends_fresh [OF e Cons.prems(1)] _ that] Cons.prems(2) e
    unfolding extends_def by (metis list.set_intros(2))
  show ?case
    using ih rw it t g err
    by (auto simp: refused_as_duplicate_def insert_check_def first_failure_duplicate split: option.splits sum.splits prod.splits if_splits)
qed



section \<open>Unique secondary indexes\<close>

lemma view_empty_packs: "packs ptr S \<Longrightarrow> view_empty ptr \<longleftrightarrow> S = {}"
  by (auto simp: view_empty_def view_size_def packs_def pack_set_def split: option.splits)

lemma unique_check_install:
  "validate_unique db m ops = Inr None \<Longrightarrow> install_si_ops ops db1 = Inr db2 \<Longrightarrow>
   di_primary_keys (sd_items db1 i) = (case m i of None \<Rightarrow> di_primary_keys (sd_items db i) | Some p \<Rightarrow> p) \<Longrightarrow>
   packs (di_primary_keys (sd_items db1 i)) S \<Longrightarrow> card S \<le> 1 \<Longrightarrow>
   \<forall>op\<in>set ops. ro_item op = i \<longrightarrow> IsUnique (ro_index_type op) \<Longrightarrow>
   \<exists>S'. packs (di_primary_keys (sd_items db2 i)) S' \<and> card S' \<le> 1"
proof (induction ops arbitrary: m db1 S)
  case Nil
  then show ?case by auto
next
  case (Cons op ops)
  let ?cur = "case m (ro_item op) of None \<Rightarrow> di_primary_keys (sd_items db (ro_item op)) | Some p \<Rightarrow> p"
  let ?pk = "ro_primary_key op"
  obtain d where d: "(if ro_is_delete op then RemoveSecondaryIndexValue (sd_items db1 (ro_item op)) ?pk
      else AddSecondaryIndexValue (sd_items db1 (ro_item op)) ?pk) = Inr d"
    "install_si_ops ops (db1\<lparr>sd_items := (sd_items db1)(ro_item op := d)\<rparr>) = Inr db2"
    using Cons.prems(2) by (auto split: sum.splits)
  let ?db1 = "db1\<lparr>sd_items := (sd_items db1)(ro_item op := d)\<rparr>"
  show ?case
  proof (cases "ro_item op = i")
    case False
    obtain m' where "validate_unique db m' ops = Inr None" "m' i = m i"
      using Cons.prems(1) False by (auto simp: Let_def split: if_splits sum.splits)
    then show ?thesis
      using Cons.IH [of m' ?db1 S] d(2) Cons.prems(3-6) False by auto
  next
    case True
    have cur: "?cur = di_primary_keys (sd_items db1 i)" unfolding True by (rule Cons.prems(3) [symmetric])
    have uni: "IsUnique (ro_index_type op)" using Cons.prems(6) True by simp
    obtain p S1 where p: "validate_unique db (m(i \<mapsto> p)) ops = Inr None" "di_primary_keys d = p" "packs p S1" "card S1 \<le> 1"
    proof (cases "ro_is_delete op")
      case del: True
      have "Erase ?cur ?pk = Inr (di_primary_keys d)"
        using d(1) del cur True by (auto simp: RemoveSecondaryIndexValue_def split: sum.splits)
      then have "di_primary_keys d = (if ?pk \<in> S then Some (pack_set (S - {?pk})) else ?cur)" "packs (di_primary_keys d) (S - {?pk})"
        using Erase_canonical [of ?cur S ?pk] packs_Erase [of ?cur S ?pk] cur Cons.prems(4) by auto
      then show ?thesis
        using that [of "di_primary_keys d" "S - {?pk}"] Cons.prems(1,4,5) del uni True cur contains_packs [of ?cur S ?pk]
          Erase_canonical [of ?cur S ?pk] card_Diff1_le [of S ?pk]
        by (auto simp: Let_def split: if_splits)
    next
      case add: False
      have e: "S = {}" using Cons.prems(1,4) add uni cur view_empty_packs by (auto simp: Let_def split: if_splits)
      have "Insert ?cur ?pk = Inr (di_primary_keys d)"
        using d(1) add cur True by (auto simp: AddSecondaryIndexValue_def split: sum.splits)
      then show ?thesis
        using that [of "di_primary_keys d" "{?pk}"] Cons.prems(1,4) add uni True cur packs_Insert [of ?cur S ?pk] e
        by (auto simp: Let_def split: if_splits)
    qed
    show ?thesis using Cons.IH [OF p(1) d(2), of S1] p(2-4) True Cons.prems(6) by auto
  qed
qed

text \<open>C15. A unique secondary index keeps at most one primary key per entry. If the operations of a request pass the
  check on the copies of the lists and are then installed, an entry of a unique index that held at most one key still does,
  however the request orders its removals and additions.\<close>

theorem unique_entry_keeps_one_key:
  assumes "validate_unique db (\<lambda>_. None) ops = Inr None" "install_si_ops ops db = Inr db'"
    "packs (di_primary_keys (sd_items db i)) S" "card S \<le> 1"
    "\<forall>op\<in>set ops. ro_item op = i \<longrightarrow> IsUnique (ro_index_type op)"
  shows "\<exists>S'. packs (di_primary_keys (sd_items db' i)) S' \<and> card S' \<le> 1"
  using unique_check_install [OF assms(1,2) _ assms(3,4,5)] by simp

definition demo_slot_db :: st_db where
  "demo_slot_db = demo_db\<lparr>sd_items := (sd_items demo_db)(0 := DataItem_default\<lparr>di_primary_keys := Some (pack_set {[3]})\<rparr>)\<rparr>"

definition demo_op :: "bytes \<Rightarrow> bool \<Rightarrow> ResolvedSecondaryIndexOp" where
  "demo_op pk del = \<lparr>ro_table_name = [116], ro_index_name = [105], ro_secondary_key = [1], ro_primary_key = pk,
     ro_is_delete = del, ro_item = 0, ro_index_type = 1\<rparr>"

theorem unique_entry_keeps_one_key_witness:
  "\<exists>db' S'. install_si_ops [demo_op [3] True, demo_op [4] False] demo_slot_db = Inr db' \<and>
     packs (di_primary_keys (sd_items db' 0)) S' \<and> card S' \<le> 1"
proof -
  have p: "packs (di_primary_keys (sd_items demo_slot_db 0)) {[3]}"
    by (simp add: demo_slot_db_def packs_def packed_size_def EncodedRecordSize_def VarintSize.simps uint32_max_def)
  let ?p0 = "Some (pack_set {[3]})" and ?p1 = "Some (pack_set {})"
  have p0: "packs ?p0 {[3]}" using p by (simp add: demo_slot_db_def)
  have e: "contains ?p0 [3] = Some True" "Erase ?p0 [3] = Inr ?p1"
    using contains_packs [OF p0, of "[3]"] Erase_canonical [OF p0, of "[3]"] by simp_all
  have p1: "packs ?p1 {}" using packs_Erase [OF p0, of "[3]"] e by simp
  have n: "view_empty ?p1" using view_empty_packs [OF p1] by simp
  have i: "Insert ?p1 [4] = Inr (Some (pack_set {[4]}))"
    using Insert_canonical [OF p1, of "[4]"] by (simp add: packed_size_def EncodedRecordSize_def VarintSize.simps uint32_max_def)
  have u: "validate_unique demo_slot_db (\<lambda>_. None) [demo_op [3] True, demo_op [4] False] = Inr None"
    using e n i by (simp add: demo_slot_db_def demo_op_def IsUnique_def)
  obtain db' where i: "install_si_ops [demo_op [3] True, demo_op [4] False] demo_slot_db = Inr db'"
    using e n i by (simp add: demo_slot_db_def demo_op_def AddSecondaryIndexValue_def RemoveSecondaryIndexValue_def)
  have t: "\<forall>op\<in>set [demo_op [3] True, demo_op [4] False]. ro_item op = 0 \<longrightarrow> IsUnique (ro_index_type op)"
    by (simp add: demo_op_def IsUnique_def)
  show ?thesis using unique_entry_keeps_one_key [OF u i p _ t] i by simp
qed

section \<open>Replayed ranges\<close>

definition limit_rows :: "nat \<Rightarrow> 'a list \<Rightarrow> 'a list" where
  "limit_rows row_limit rows = (if row_limit = 0 then rows else take row_limit rows)"

definition slot_keys :: "st_db \<Rightarrow> ExternalRangeReadEntry \<Rightarrow> bytes \<Rightarrow> bytes list" where
  "slot_keys db rng sk =
     (case secondary_get db (rr_table_name rng) (rr_index_name rng) sk of
        None \<Rightarrow> []
      | Some i \<Rightarrow> (case view_keys (di_primary_keys (sd_items db i)) of None \<Rightarrow> [] | Some pks \<Rightarrow> pks))"

text \<open>The rows that the scan finds now, and those that the request reports; a primary key stands for itself twice.\<close>

definition slot_rows :: "st_db \<Rightarrow> ExternalRangeReadEntry \<Rightarrow> bytes \<Rightarrow> (bytes \<times> bytes) list" where
  "slot_rows db rng sk = map (Pair sk) (filter (row_live db (rr_table_name rng)) (slot_keys db rng sk))"

definition scanned_rows :: "st_db \<Rightarrow> ExternalRangeReadEntry \<Rightarrow> bytes list \<Rightarrow> (bytes \<times> bytes) list" where
  "scanned_rows db rng visited =
     (if rr_index_name rng = [] then map (\<lambda>k. (k, k)) (filter (row_live db (rr_table_name rng)) visited)
      else concat (map (slot_rows db rng) visited))"

definition reported_keys :: "ExternalRangeReadEntry \<Rightarrow> bytes list" where
  "reported_keys rng = (if rr_index_name rng = [] then rr_result_keys rng else rr_result_primary_keys rng)"

definition reported_rows :: "ExternalRangeReadEntry \<Rightarrow> (bytes \<times> bytes) list" where
  "reported_rows rng = zip (rr_result_keys rng) (reported_keys rng)"

definition row_foreign :: "st_db \<Rightarrow> LockedTid list \<Rightarrow> ExternalRangeReadEntry \<Rightarrow> bytes \<Rightarrow> bool" where
  "row_foreign db L rng k =
     (case primary_get db (rr_table_name rng) k of None \<Rightarrow> False | Some i \<Rightarrow> locked_by_another db L i)"

definition visited_foreign :: "st_db \<Rightarrow> LockedTid list \<Rightarrow> ExternalRangeReadEntry \<Rightarrow> bytes \<Rightarrow> bool" where
  "visited_foreign db L rng k =
     (if rr_index_name rng = [] then row_foreign db L rng k
      else (case secondary_get db (rr_table_name rng) (rr_index_name rng) k of None \<Rightarrow> False | Some i \<Rightarrow> locked_by_another db L i) \<or>
           list_ex (row_foreign db L rng) (slot_keys db rng k))"

text \<open>What a replay of \<open>rows\<close> from position \<open>pos\<close> against the reported rows \<open>Z\<close> may say.\<close>

fun replays :: "bool \<Rightarrow> 'a list \<Rightarrow> nat \<Rightarrow> nat \<Rightarrow> 'a list \<Rightarrow> replay \<Rightarrow> bool" where
  "replays foreign Z lim pos rows (Goes p) \<longleftrightarrow>
     p = pos + length rows \<and> p \<le> length Z \<and> take p Z = take pos Z @ rows \<and> (lim = 0 \<or> p < lim)"
| "replays foreign Z lim pos rows (AtLimit p) \<longleftrightarrow>
     0 < lim \<and> p = lim \<and> pos \<le> lim \<and> lim \<le> pos + length rows \<and> p \<le> length Z \<and> take p Z = take pos Z @ take (lim - pos) rows"
| "replays foreign Z lim pos rows Differs \<longleftrightarrow>
     (\<exists>n<length rows. (lim = 0 \<or> pos + n < lim) \<and> (pos + n < length Z \<longrightarrow> Z ! (pos + n) \<noteq> rows ! n))"
| "replays foreign Z lim pos rows Dirty \<longleftrightarrow> foreign"

definition room :: "nat \<Rightarrow> 'a list \<Rightarrow> nat \<Rightarrow> bool" where
  "room lim Z pos \<longleftrightarrow> pos \<le> length Z \<and> (lim = 0 \<or> pos < lim)"

lemma replays_stay: "room lim Z pos \<Longrightarrow> replays f Z lim pos [] (Goes pos)" "room lim Z pos \<Longrightarrow> replays f Z lim pos [] (after_row lim pos)"
  by (auto simp: room_def after_row_def)

lemma replays_hit:
  "room lim Z pos \<Longrightarrow> pos < length Z \<Longrightarrow> Z ! pos = x \<Longrightarrow> replays f Z lim pos [x] (after_row lim (pos + 1))"
  by (auto simp: room_def after_row_def take_Suc_conv_app_nth)

lemma replays_miss:
  "room lim Z pos \<Longrightarrow> \<not> (pos < length Z \<and> Z ! pos = x) \<Longrightarrow> replays f Z lim pos [x] Differs"
  by (auto simp: room_def)

lemma replays_room: "replays f Z lim pos rows (Goes p) \<Longrightarrow> room lim Z p"
  by (auto simp: room_def)

lemma replays_append:
  assumes "replays f Z lim pos rows (Goes p)" "replays f Z lim p rows' r"
  shows "replays f Z lim pos (rows @ rows') r"
proof (cases r)
  case Differs
  then obtain n where "n < length rows'" "lim = 0 \<or> p + n < lim" "p + n < length Z \<longrightarrow> Z ! (p + n) \<noteq> rows' ! n"
    using assms(2) by auto
  then show ?thesis
    using Differs assms(1) by (auto simp: nth_append add.assoc intro!: exI [of _ "length rows + n"])
qed (use assms in auto)

lemma replays_stop:
  assumes "replays f Z lim pos rows r" "\<And>p. r \<noteq> Goes p"
  shows "replays f Z lim pos (rows @ rows') r"
proof (cases r)
  case Differs
  then show ?thesis using assms(1) by (auto simp: nth_append)
qed (use assms in auto)

lemma replays_mono: "replays f Z lim pos rows r \<Longrightarrow> (f \<Longrightarrow> f') \<Longrightarrow> replays f' Z lim pos rows r"
  by (cases r) auto

lemma collect_key_replays:
  assumes "room (rr_row_limit rng) Z pos" "Z = map (\<lambda>k. (k, k)) (rr_result_keys rng)" "primary_get db (rr_table_name rng) k = Some i"
  shows "replays (row_foreign db L rng k) Z (rr_row_limit rng) pos (map (\<lambda>k. (k, k)) (filter (row_live db (rr_table_name rng)) [k]))
    (collect_key db L rng k i pos)"
  using assms replays_stay(2) [OF assms(1)] replays_hit [OF assms(1), of "(k, k)"] replays_miss [OF assms(1), of "(k, k)"]
  by (auto simp: collect_key_def row_live_def row_foreign_def)

lemma collect_base_row_replays:
  assumes "room (rr_row_limit rng) Z pos" "Z = zip (rr_result_keys rng) (rr_result_primary_keys rng)"
  shows "replays (row_foreign db L rng pk) Z (rr_row_limit rng) pos (map (Pair sk) (filter (row_live db (rr_table_name rng)) [pk]))
    (collect_base_row db L rng sk pk pos)"
  using assms replays_stay [OF assms(1)] replays_hit [OF assms(1), of "(sk, pk)"] replays_miss [OF assms(1), of "(sk, pk)"]
  by (auto simp: collect_base_row_def row_live_def row_foreign_def split: option.splits)

text \<open>A replay that runs on after one element, and stops at the first element that ends it.\<close>

lemma replays_Cons:
  assumes "replays f1 Z lim pos rows1 r1" "\<And>p. r1 = Goes p \<Longrightarrow> replays f2 Z lim p rows2 (rest p)"
  shows "replays (f1 \<or> f2) Z lim pos (rows1 @ rows2) (case r1 of Goes p \<Rightarrow> rest p | r \<Rightarrow> r)"
proof (cases r1)
  case (Goes p)
  show ?thesis
    using replays_append [OF replays_mono [OF assms(1) [unfolded Goes], of "f1 \<or> f2"] replays_mono [OF assms(2) [OF Goes], of "f1 \<or> f2"]]
    by (simp add: Goes)
qed (use replays_mono [OF replays_stop [OF assms(1), of rows2], of "f1 \<or> f2"] in auto)

lemma replay_primary_replays:
  assumes "room (rr_row_limit rng) Z pos" "Z = map (\<lambda>k. (k, k)) (rr_result_keys rng)"
  shows "replays (list_ex (row_foreign db L rng) ks) Z (rr_row_limit rng) pos
    (map (\<lambda>k. (k, k)) (filter (row_live db (rr_table_name rng)) ks)) (replay_primary db L rng ks pos)"
  using assms(1)
proof (induction ks arbitrary: pos)
  case Nil
  then show ?case using replays_stay(1) by simp
next
  case (Cons k ks)
  show ?case
  proof (cases "primary_get db (rr_table_name rng) k")
    case None
    then show ?thesis using Cons by (simp add: row_live_def row_foreign_def)
  next
    case (Some i)
    note c = collect_key_replays [OF Cons.prems assms(2) Some, of L]
    have "replays (row_foreign db L rng k \<or> list_ex (row_foreign db L rng) ks) Z (rr_row_limit rng) pos
        (map (\<lambda>k. (k, k)) (filter (row_live db (rr_table_name rng)) [k]) @
         map (\<lambda>k. (k, k)) (filter (row_live db (rr_table_name rng)) ks))
        (case collect_key db L rng k i pos of Goes p \<Rightarrow> replay_primary db L rng ks p | r \<Rightarrow> r)"
      by (rule replays_Cons [OF c]) (rule Cons.IH, rule replays_room, rule subst, assumption, rule c)
    then show ?thesis using Some by (simp split: if_splits)
  qed
qed

lemma replay_base_rows_replays:
  assumes "room (rr_row_limit rng) Z pos" "Z = zip (rr_result_keys rng) (rr_result_primary_keys rng)"
  shows "replays (list_ex (row_foreign db L rng) pks) Z (rr_row_limit rng) pos
    (map (Pair sk) (filter (row_live db (rr_table_name rng)) pks)) (replay_base_rows db L rng sk pks pos)"
  using assms(1)
proof (induction pks arbitrary: pos)
  case Nil
  then show ?case using replays_stay(1) by simp
next
  case (Cons pk pks)
  note c = collect_base_row_replays [OF Cons.prems assms(2), of db L pk sk]
  have "replays (row_foreign db L rng pk \<or> list_ex (row_foreign db L rng) pks) Z (rr_row_limit rng) pos
      (map (Pair sk) (filter (row_live db (rr_table_name rng)) [pk]) @ map (Pair sk) (filter (row_live db (rr_table_name rng)) pks))
      (case collect_base_row db L rng sk pk pos of Goes p \<Rightarrow> replay_base_rows db L rng sk pks p | r \<Rightarrow> r)"
    by (rule replays_Cons [OF c]) (use Cons.IH replays_room c in metis)
  then show ?case by (simp split: if_splits)
qed

lemma collect_secondary_key_replays:
  assumes "room (rr_row_limit rng) Z pos" "Z = zip (rr_result_keys rng) (rr_result_primary_keys rng)" "rr_index_name rng \<noteq> []"
  shows "replays (visited_foreign db L rng k) Z (rr_row_limit rng) pos (slot_rows db rng k) (collect_secondary_key db L rng k pos)"
  using replays_stay [OF assms(1)] assms(3) replay_base_rows_replays [OF assms(1,2)]
  by (auto simp: collect_secondary_key_def slot_rows_def slot_keys_def visited_foreign_def split: option.splits
      elim!: replays_mono)

lemma replay_secondary_replays:
  assumes "room (rr_row_limit rng) Z pos" "Z = zip (rr_result_keys rng) (rr_result_primary_keys rng)" "rr_index_name rng \<noteq> []"
  shows "replays (list_ex (visited_foreign db L rng) ks) Z (rr_row_limit rng) pos
    (concat (map (slot_rows db rng) ks)) (replay_secondary db L rng ks pos)"
  using assms(1)
proof (induction ks arbitrary: pos)
  case Nil
  then show ?case using replays_stay(1) by simp
next
  case (Cons k ks)
  note c = collect_secondary_key_replays [OF Cons.prems assms(2,3), of db L k]
  have "replays (visited_foreign db L rng k \<or> list_ex (visited_foreign db L rng) ks) Z (rr_row_limit rng) pos
      (slot_rows db rng k @ concat (map (slot_rows db rng) ks))
      (case collect_secondary_key db L rng k pos of Goes p \<Rightarrow> replay_secondary db L rng ks p | r \<Rightarrow> r)"
    by (rule replays_Cons [OF c]) (use Cons.IH replays_room c in metis)
  then show ?case by simp
qed

lemma replays_verdict:
  assumes "replays f Z lim 0 rows r"
  shows "r = Goes (length Z) \<or> r = AtLimit (length Z) \<Longrightarrow> Z = limit_rows lim rows"
    "Z = limit_rows lim rows \<Longrightarrow> \<not> f \<Longrightarrow> r = Goes (length Z) \<or> r = AtLimit (length Z)"
proof -
  show "r = Goes (length Z) \<or> r = AtLimit (length Z) \<Longrightarrow> Z = limit_rows lim rows"
    using assms by (auto simp: limit_rows_def)
  show "Z = limit_rows lim rows \<Longrightarrow> \<not> f \<Longrightarrow> r = Goes (length Z) \<or> r = AtLimit (length Z)"
    using assms by (cases r) (auto simp: limit_rows_def min_def split: if_splits)
qed

text \<open>C13. The replay of a range decides whether its result still stands. Let the scan of an existing table and index visit
  \<open>visited\<close>. If the replay accepts the range, the reported keys are the live rows that the scan finds now, in its order, up
  to the row limit. If they are, and no other request holds a lock in the range, the replay accepts it.\<close>

theorem range_replay_exact:
  assumes "sd_tables db (rr_table_name rng) = Some t" "rr_index_name rng = [] \<or> tb_secondary t (rr_index_name rng) \<noteq> None"
    "scan rng = (visited, True)"
  shows "(validate_range db L scan rng = None \<longrightarrow>
      length (rr_result_keys rng) = length (reported_keys rng) \<and>
      reported_rows rng = limit_rows (rr_row_limit rng) (scanned_rows db rng visited)) \<and>
    (length (rr_result_keys rng) = length (reported_keys rng) \<longrightarrow>
      reported_rows rng = limit_rows (rr_row_limit rng) (scanned_rows db rng visited) \<longrightarrow>
      \<not> list_ex (visited_foreign db L rng) visited \<longrightarrow> validate_range db L scan rng = None)"
proof (cases "rr_index_name rng = []")
  case True
  let ?Z = "map (\<lambda>k. (k, k)) (rr_result_keys rng)"
  have z: "reported_rows rng = ?Z" using True by (simp add: reported_rows_def reported_keys_def zip_same_conv_map)
  have "replays (list_ex (row_foreign db L rng) visited) ?Z (rr_row_limit rng) 0
      (scanned_rows db rng visited) (replay_primary db L rng visited 0)"
    using replay_primary_replays [of rng ?Z 0 db L visited] True by (auto simp: room_def scanned_rows_def)
  note v = replays_verdict [OF this]
  have f: "visited_foreign db L rng = row_foreign db L rng" using True by (simp add: visited_foreign_def fun_eq_iff)
  have "validate_range db L scan rng = None \<longleftrightarrow>
      replay_primary db L rng visited 0 = Goes (length ?Z) \<or> replay_primary db L rng visited 0 = AtLimit (length ?Z)"
    using True assms by (auto simp: validate_range_def validate_primary_key_list_def split: replay.splits if_splits)
  moreover have "length (rr_result_keys rng) = length (reported_keys rng)" using True by (simp add: reported_keys_def)
  ultimately show ?thesis using v unfolding z f by blast
next
  case False
  let ?Z = "zip (rr_result_keys rng) (rr_result_primary_keys rng)"
  have z: "reported_rows rng = ?Z" using False by (simp add: reported_rows_def reported_keys_def)
  have "replays (list_ex (visited_foreign db L rng) visited) ?Z (rr_row_limit rng) 0
      (scanned_rows db rng visited) (replay_secondary db L rng visited 0)"
    using replay_secondary_replays [of rng ?Z 0 db L visited] False by (auto simp: room_def scanned_rows_def)
  note v = replays_verdict [OF this]
  have "validate_range db L scan rng = None \<longleftrightarrow> length (rr_result_keys rng) = length (reported_keys rng) \<and>
      (replay_secondary db L rng visited 0 = Goes (length ?Z) \<or> replay_secondary db L rng visited 0 = AtLimit (length ?Z))"
    using False assms
    by (auto simp: validate_range_def validate_secondary_key_list_def reported_keys_def split: replay.splits if_splits)
  then show ?thesis using v unfolding z by blast
qed

definition demo_range :: ExternalRangeReadEntry where
  "demo_range = \<lparr>rr_table_name = [116], rr_index_name = [], rr_start_key = [], rr_end_key = [9], rr_row_limit = 5,
     rr_reverse_scan = False, rr_result_keys = [[1]], rr_result_primary_keys = []\<rparr>"

theorem range_replay_exact_witness:
  "validate_range demo_db [] (\<lambda>_. ([[0], [1], [2]], True)) demo_range = None \<and>
   reported_rows demo_range = limit_rows 5 (scanned_rows demo_db demo_range [[0], [1], [2]])"
proof -
  have v: "validate_range demo_db [] (\<lambda>_. ([[0], [1], [2]], True)) demo_range = None" by code_simp
  show ?thesis
    using range_replay_exact [of demo_db demo_range demo_table "\<lambda>_. ([[0], [1], [2]], True)" "[[0], [1], [2]]" "[]"] v
    by (simp add: demo_range_def demo_tables)
qed

section \<open>Absent reads\<close>

text \<open>Two requests that each saw the other's key absent both pass validation once both hold their locks, although the
  first to install its row makes the other fail from then on: the check of an absent read looks at the row only, and not at
  the lock of its item.\<close>

theorem absent_reads_ignore_locks:
  assumes "primary_get db (ve_table_name r1) (ve_key r1) = Some (rw_item w2)" "\<not> ve_found r1"
    "primary_get db (ve_table_name r2) (ve_key r2) = Some (rw_item w1)" "\<not> ve_found r2"
    "rw_item w1 \<noteq> rw_item w2" "\<not> IsPrimaryInitialized (sd_items db (rw_item w1))" "\<not> IsPrimaryInitialized (sd_items db (rw_item w2))"
    "\<not> rw_is_delete w1" "rw_value w1 \<noteq> []"
  shows "validate_all db L1 scan [r1] [] [w1] [] = Inr None \<and> validate_all db L2 scan [r2] [] [w2] [] = Inr None \<and>
    validate_all (install_row w1 db) L2 scan [r2] [] [w2] [] = Inr (Some (exact_read_reason ''exact_read_appeared'' r2))"
  using assms
  by (auto simp: validate_all_def validate_read_def validate_insert_def install_row_def primary_get_def IsPrimaryInitialized_def
      DataItem_Reset_def heap_Reset_def Let_def)

section \<open>What a committed request leaves\<close>

text \<open>Two keys of primary indexes never share an item.\<close>

definition slots_ok :: "st_db \<Rightarrow> bool" where
  "slots_ok db \<longleftrightarrow> (\<forall>tn k i. primary_get db tn k = Some i \<longrightarrow> i < sd_next db) \<and>
     (\<forall>tn k tn' k' i. primary_get db tn k = Some i \<longrightarrow> primary_get db tn' k' = Some i \<longrightarrow> tn = tn' \<and> k = k')"

lemma slots_ok_put_primary:
  assumes "slots_ok db" "sd_tables db tn = Some t" "tb_primary t k = None"
  shows "slots_ok (put_primary db tn t k)"
proof -
  have "primary_get (put_primary db tn t k) tn' k' = (if tn' = tn \<and> k' = k then Some (sd_next db) else primary_get db tn' k')" for tn' k'
    using assms(2,3) by (auto simp: primary_get_def put_primary_def)
  moreover have "sd_next (put_primary db tn t k) = sd_next db + 1" by (simp add: put_primary_def)
  ultimately show ?thesis using assms(1) unfolding slots_ok_def
    by (auto split: if_splits) (use less_irrefl less_Suc_eq in blast)+
qed

lemma primary_get_put_secondary:
  "sd_tables db tn = Some t \<Longrightarrow> primary_get (put_secondary db tn t inn ix k) = primary_get db"
  by (auto simp: primary_get_def put_secondary_def fun_eq_iff)

lemma slots_ok_GetOrInsert: "slots_ok db \<Longrightarrow> sd_tables db tn = Some t \<Longrightarrow> slots_ok (snd (GetOrInsert db tn t k))"
  by (simp add: GetOrInsert_def slots_ok_put_primary split: option.split)

definition resolved_of :: "st_db \<Rightarrow> ExternalWriteEntry \<Rightarrow> ResolvedWrite \<Rightarrow> bool" where
  "resolved_of db w r \<longleftrightarrow> rw_table_name r = we_table_name w \<and> rw_key r = we_key w \<and> rw_value r = we_value w \<and>
     rw_is_delete r = we_is_delete w \<and> primary_get db (we_table_name w) (we_key w) = Some (rw_item r)"

lemma resolved_of_extends: "extends db db' \<Longrightarrow> resolved_of db w r \<Longrightarrow> resolved_of db' w r"
  by (simp add: resolved_of_def extends_def)

lemma resolve_writes_resolved:
  "fresh db \<Longrightarrow> slots_ok db \<Longrightarrow> resolve_writes db has live ws = (db', Inr rs) \<Longrightarrow>
   slots_ok db' \<and> list_all2 (resolved_of db') ws rs"
proof (induction ws arbitrary: db live rs)
  case (Cons w ws)
  obtain t where t: "sd_tables db (we_table_name w) = Some t" using Cons.prems(3) by (auto split: option.splits)
  obtain i db1 where g: "GetOrInsert db (we_table_name w) t (we_key w) = (i, db1)" by force
  have e: "extends db db1" "primary_get db1 (we_table_name w) (we_key w) = Some i"
    using GetOrInsert_extends [OF Cons.prems(1) t g] by auto
  have f: "fresh db1" by (rule extends_fresh [OF e(1) Cons.prems(1)])
  have o: "slots_ok db1" using slots_ok_GetOrInsert [OF Cons.prems(2) t, of "we_key w"] g by simp
  obtain live' r rs' where r: "rs = r # rs'" "resolve_writes db1 has live' ws = (db', Inr rs')"
      "r = \<lparr>rw_table_name = we_table_name w, rw_key = we_key w, rw_value = we_value w,
            rw_is_delete = we_is_delete w, rw_item = i, rw_check_committed_row = rw_check_committed_row r\<rparr>"
    using Cons.prems(3) t g by (auto split: option.splits prod.splits sum.splits)
  have "resolved_of db1 w r" using r(3) e(2) unfolding resolved_of_def by (metis ResolvedWrite.select_convs(1-5))
  then have "resolved_of db' w r" using resolved_of_extends [OF resolve_writes_extends [OF f r(2)]] by simp
  then show ?case using Cons.IH [OF f o r(2)] r(1) by simp
qed simp

lemma resolve_si_ops_slots:
  "fresh db \<Longrightarrow> slots_ok db \<Longrightarrow> resolve_si_ops db refuses adds ops = (db', r) \<Longrightarrow> primary_get db' = primary_get db"
proof (induction ops arbitrary: db adds r)
  case (Cons op ops)
  let ?tn = "se_table_name op" and ?in = "se_index_name op" and ?k = "se_secondary_key op"
  show ?case
  proof (cases "\<exists>t ix. sd_tables db ?tn = Some t \<and> tb_secondary t ?in = Some ix")
    case True
    then obtain t ix where t: "sd_tables db ?tn = Some t" "tb_secondary t ?in = Some ix" by blast
    obtain r1 db1 where g: "(if se_is_delete op then map_prod Some id (si_GetOrInsert db ?tn t ?in ix ?k)
        else GetOrInsertForWrite db ?tn t ?in ix ?k (refuses op)) = (r1, db1)" by force
    have e: "extends db db1"
      using g si_slot_extends [OF Cons.prems(1) t] by (cases "si_GetOrInsert db ?tn t ?in ix ?k") (auto split: if_splits)
    have p: "primary_get db1 = primary_get db"
      using g primary_get_put_secondary [OF t(1)]
      by (auto simp: si_GetOrInsert_def GetOrInsertForWrite_def split: if_splits option.splits)
    have o: "slots_ok db1" using Cons.prems(2) p e unfolding slots_ok_def extends_def by (metis less_le_trans)
    show ?thesis
      using Cons.IH [OF extends_fresh [OF e Cons.prems(1)] o] p Cons.prems(3) t g
      by (auto simp: Let_def split: option.splits prod.splits sum.splits if_splits)
  qed (use Cons.prems in \<open>auto split: option.splits\<close>)
qed simp

lemma install_row_items:
  "sd_items (install_row w db) i =
     (if i = rw_item w then DataItem_Reset (sd_items db i) (if rw_is_delete w then None else Some (rw_value w)) TransactionId_default
      else sd_items db i)" "sd_tables (install_row w db) = sd_tables db"
  by (auto simp: install_row_def)

lemma fold_install_other: "\<forall>r\<in>set rs. rw_item r \<noteq> i \<Longrightarrow> sd_items (fold install_row rs db) i = sd_items db i"
  by (induction rs arbitrary: db) (auto simp: install_row_items)

lemma fold_install_tables: "sd_tables (fold install_row rs db) = sd_tables db"
  by (induction rs arbitrary: db) (auto simp: install_row_items)

lemma Reset_keeps_tid: "di_transaction_id (DataItem_Reset d v TransactionId_default) = di_transaction_id d"
  by (simp add: DataItem_Reset_def Let_def TransactionId_default_def IsEmpty_def)

lemma toString_DataItem_Reset: "toString (di_buffer (DataItem_Reset d v t)) = (case v of None \<Rightarrow> [] | Some bs \<Rightarrow> bs)"
  by (auto simp: DataItem_Reset_def heap_Reset_def toString_def Let_def split: option.splits)

lemma fold_install_tid: "st_tid (fold install_row rs db) i = st_tid db i"
  by (induction rs arbitrary: db) (auto simp: install_row_items Reset_keeps_tid)

lemma install_si_ops_items:
  "install_si_ops ops db = Inr db' \<Longrightarrow> di_buffer (sd_items db' i) = di_buffer (sd_items db i) \<and> st_tid db' i = st_tid db i \<and>
   sd_tables db' = sd_tables db"
proof (induction ops arbitrary: db)
  case (Cons op ops)
  then show ?case
    by (fastforce simp: AddSecondaryIndexValue_def RemoveSecondaryIndexValue_def split: sum.splits if_splits)
qed simp

lemma publish_tids:
  "distinct is \<Longrightarrow> sd_tables (fold (publish_tid e) is db) = sd_tables db \<and>
   di_buffer (sd_items (fold (publish_tid e) is db) i) = di_buffer (sd_items db i) \<and>
   st_tid (fold (publish_tid e) is db) i = (if i \<in> set is then st_tid (publish_tid e i db) i else st_tid db i)"
proof (induction "is" arbitrary: db)
  case (Cons j "is")
  then show ?case using Cons.IH [of "publish_tid e j db"] by (auto simp: publish_tid_def)
qed simp

lemma published_unlocked: "tid_locked (st_tid db i) \<Longrightarrow> \<not> tid_locked (st_tid (publish_tid e i db) i)"
  by (auto simp: publish_tid_def tid_locked_iff)

lemma published_epoch: "tid_epoch (st_tid (publish_tid e i db) i) = e"
  by (simp add: publish_tid_def)

lemma set_lock_items: "set (lock_items_of rs os) = rw_item ` set rs \<union> ro_item ` set os"
  by (auto simp: lock_items_of_def)

lemma finish_commit_row:
  assumes "finish_commit enable_logging e db (lock_items_of rs os) rs os = (Committed log purges, db')"
    "rs = rs1 @ r # rs2" "\<forall>q\<in>set rs2. rw_item q \<noteq> rw_item r" "tid_locked (st_tid db (rw_item r))"
  shows "sd_tables db' = sd_tables db \<and> toString (di_buffer (sd_items db' (rw_item r))) = (if rw_is_delete r then [] else rw_value r) \<and>
    \<not> tid_locked (st_tid db' (rw_item r)) \<and> tid_epoch (st_tid db' (rw_item r)) = e \<and>
    (enable_logging \<longrightarrow> (\<exists>s\<in>set log. sn_table_name s = rw_table_name r \<and> sn_key s = rw_key r \<and>
       toString (di_buffer (sn_data_item_copy s)) = (if rw_is_delete r then [] else rw_value r) \<and>
       di_transaction_id (sn_data_item_copy s) = st_tid db' (rw_item r)))"
proof -
  let ?i = "rw_item r" and ?is = "lock_items_of rs os"
  obtain db2 where d: "install_si_ops os (fold install_row rs db) = Inr db2" "db' = fold (publish_tid e) ?is db2"
      "log = map (publish_log_tid db' ?is) (build_log_set enable_logging db2 rs os)"
    using assms(1) by (auto simp: finish_commit_def Let_def split: sum.splits)
  note si = install_si_ops_items [OF d(1)]
  note pub = publish_tids [OF distinct_lock_items, of e rs os db2, folded d(2)]
  have "toString (di_buffer (sd_items (fold install_row rs db) ?i)) = (if rw_is_delete r then [] else rw_value r)"
    using fold_install_other [of rs2 ?i] assms(2,3) by (simp add: install_row_items toString_DataItem_Reset)
  then have row: "toString (di_buffer (sd_items db2 ?i)) = (if rw_is_delete r then [] else rw_value r)" using si by simp
  have i: "?i \<in> set ?is" using assms(2) by (simp add: set_lock_items)
  have tid: "st_tid db' ?i = st_tid (publish_tid e ?i db2) ?i" "tid_locked (st_tid db2 ?i)"
    using pub i si fold_install_tid assms(4) by auto
  have "publish_log_tid db' ?is (log_write db2 r) \<in> set log" if enable_logging
    using that d(3) assms(2) by (simp add: build_log_set_def)
  moreover have "sn_table_name (publish_log_tid db' ?is (log_write db2 r)) = rw_table_name r"
    "sn_key (publish_log_tid db' ?is (log_write db2 r)) = rw_key r"
    "toString (di_buffer (sn_data_item_copy (publish_log_tid db' ?is (log_write db2 r)))) = (if rw_is_delete r then [] else rw_value r)"
    "di_transaction_id (sn_data_item_copy (publish_log_tid db' ?is (log_write db2 r))) = st_tid db' ?i"
    using i row by (auto simp: publish_log_tid_def log_write_def with_tid_def item_of_def Snapshot_def DataItem_assign_def)
  ultimately show ?thesis
    using row pub si fold_install_tables published_unlocked [OF tid(2), of e] published_epoch tid(1) by auto
qed

lemma list_all2_split: "list_all2 P (us @ w # vs) rs \<Longrightarrow> \<exists>rs1 r rs2. rs = rs1 @ r # rs2 \<and> P w r \<and> list_all2 P vs rs2"
  by (auto simp: list_all2_append1 list_all2_Cons1)

text \<open>C11. A committed request has installed its writes. After a request commits, the last write it has for a key decides
  what the row of that key holds: its value, or nothing after a delete. The item of the row is unlocked and its version is of
  the commit epoch; with logging on, the log set has a record for the key with this row and this version.\<close>

theorem committed_request_installs:
  assumes "fresh db" "slots_ok db"
    "Commit enable_logging current_epoch scan refuses db reads (us @ w # vs) ops range_reads = (Committed log purges, db')"
    "\<forall>v\<in>set vs. (we_table_name v, we_key v) \<noteq> (we_table_name w, we_key w)"
  shows "\<exists>i. primary_get db' (we_table_name w) (we_key w) = Some i \<and>
    toString (di_buffer (sd_items db' i)) = (if we_is_delete w then [] else we_value w) \<and>
    \<not> tid_locked (st_tid db' i) \<and> tid_epoch (st_tid db' i) = current_epoch \<and>
    (enable_logging \<longrightarrow> (\<exists>s\<in>set log. sn_table_name s = we_table_name w \<and> sn_key s = we_key w \<and>
       toString (di_buffer (sn_data_item_copy s)) = (if we_is_delete w then [] else we_value w) \<and>
       di_transaction_id (sn_data_item_copy s) = st_tid db' i))"
proof -
  obtain db1 rs db2 os targets L db3 where c:
      "resolve_writes db (list_ex we_is_insert (us @ w # vs)) (\<lambda>_. None) (us @ w # vs) = (db1, Inr rs)"
      "resolve_si_ops db1 refuses {} ops = (db2, Inr os)"
      "lock_loop db2 targets [] (lock_items_of rs os) = (LockDone, db3, L)"
      "finish_commit enable_logging current_epoch db3 (lock_items_of rs os) rs os = (Committed log purges, db')"
    using assms(3)
    by (auto simp del: list_ex_append
        simp: Commit_def Let_def commit_locked_def split: if_splits sum.splits option.splits prod.splits lock_result.splits)
  have 1: "slots_ok db1" "list_all2 (resolved_of db1) (us @ w # vs) rs"
    using resolve_writes_resolved [OF assms(1,2) c(1)] by auto
  have f: "fresh db1" by (rule extends_fresh [OF resolve_writes_extends [OF assms(1) c(1)] assms(1)])
  have 2: "primary_get db2 = primary_get db1" by (rule resolve_si_ops_slots [OF f 1(1) c(2)])
  obtain rs1 r rs2 where r: "rs = rs1 @ r # rs2" "resolved_of db1 w r" "list_all2 (resolved_of db1) vs rs2"
    using list_all2_split [OF 1(2)] by blast
  have other: "\<forall>q\<in>set rs2. rw_item q \<noteq> rw_item r"
  proof
    fix q assume "q \<in> set rs2"
    then obtain v where "v \<in> set vs" "resolved_of db1 v q" using r(3) by (metis list_all2_conv_all_nth in_set_conv_nth)
    then show "rw_item q \<noteq> rw_item r" using assms(4) r(2) 1(1) unfolding resolved_of_def slots_ok_def by auto
  qed
  have n: "sd_tables db3 = sd_tables db2" "tid_locked (st_tid db3 (rw_item r))"
    using lock_loop_done [OF c(3) distinct_lock_items] r(1) by (auto simp: set_lock_items)
  then show ?thesis
    using finish_commit_row [OF c(4) r(1) other] r(2) 2 by (auto simp: resolved_of_def primary_get_def fun_eq_iff)
qed

theorem committed_request_installs_witness:
  "\<exists>log purges db' i. Commit True 5 (\<lambda>_. ([], True)) (\<lambda>_. False) demo_db [] [demo_write [1] [7] False False, demo_write [1] [8] False False] [] []
      = (Committed log purges, db') \<and> primary_get db' [116] [1] = Some i \<and> toString (di_buffer (sd_items db' i)) = [8]"
proof -
  have s: "slots_ok demo_db" by (auto simp: slots_ok_def demo_db_def demo_table_def primary_get_def split: if_splits option.splits)
  have "\<exists>log purges db'. Commit True 5 (\<lambda>_. ([], True)) (\<lambda>_. False) demo_db [] [demo_write [1] [7] False False, demo_write [1] [8] False False] [] []
      = (Committed log purges, db')"
    by (simp add: demo_eval finish_commit_def)
  then obtain log purges db' where c: "Commit True 5 (\<lambda>_. ([], True)) (\<lambda>_. False) demo_db []
      ([demo_write [1] [7] False False] @ demo_write [1] [8] False False # []) [] [] = (Committed log purges, db')" by auto
  show ?thesis using committed_request_installs [OF demo_fresh s c] c by (auto simp: demo_write_def)
qed

end
