(* ===== verification/LogRecovery.thy ===== *)
theory LogRecovery
  imports CheckpointImage RecoverySet WalRepair Durability
begin

text \<open>
  A restart: \<open>Logger::Recover\<close> (\<^verbatim>\<open>src/recovery/logger.cpp\<close>) loads the checkpoint image, scans and repairs the
  log and folds both into the recovery set; \<open>Database::Impl::Recovery\<close> (\<^verbatim>\<open>src/database_impl.h\<close>) replays the set
  into the tables (\<^verbatim>\<open>src/table\<close>) and chooses the epoch to resume at.
\<close>

section \<open>The logger\<close>

datatype RecoveryResult =
    RecoveryOk epoch_number write_set
  | RecoveryFailed errno
  | RecoveryThrew pk_error

text \<open>The image that a replay uses: an unusable one counts as empty. The log is scanned above its cut.\<close>

definition recover_image ::
  "(bytes \<Rightarrow> (LogRecords \<times> nat) option) \<Rightarrow> (nat \<Rightarrow> bool) \<Rightarrow> bool \<Rightarrow> image_io \<Rightarrow> image_dir \<Rightarrow> ckpt_image" where
  "recover_image unpack alloc replays io d =
     (if replays
      then let image = Load unpack alloc io d
           in if im_status image = ImageUnusable then image\<lparr>im_records := [], im_cut_epoch := 0\<rparr> else image
      else image_default)"

definition scan_failure :: "WalScanResult \<Rightarrow> RecoveryResult" where
  "scan_failure scan = RecoveryFailed (case sr_error_number scan of Some e \<Rightarrow> e | None \<Rightarrow> EIO)"

definition recovered :: "LogRecords \<Rightarrow> WalScanResult \<Rightarrow> RecoveryResult" where
  "recovered image_records scan =
     (case BuildRecoverySet image_records (sr_records scan) of
        Inl e \<Rightarrow> RecoveryThrew e
      | Inr recovery_set \<Rightarrow> RecoveryOk (sr_frontier scan) recovery_set)"

definition Recover ::
  "(bytes \<Rightarrow> (LogRecords \<times> nat) option) \<Rightarrow> (nat \<Rightarrow> bool) \<Rightarrow> bool \<Rightarrow> image_io \<Rightarrow> image_dir \<Rightarrow> wal \<Rightarrow> RecoveryResult \<times> wal" where
  "Recover unpack alloc replays io d w =
     (let image = recover_image unpack alloc replays io d
      in case ScanAndRepair unpack w (im_cut_epoch image) of
           (scan, w1) \<Rightarrow>
             if sr_status scan \<noteq> ScanOk then (scan_failure scan, w1)
             else if im_status image = ImageOk \<and> sr_frontier scan < im_wal_frontier_at_publish image
             then (case ScanAndRepair unpack w1 0 of
                     (scan2, w2) \<Rightarrow>
                       if sr_status scan2 \<noteq> ScanOk then (scan_failure scan2, w2) else (recovered [] scan2, w2))
             else (recovered (im_records image) scan, w1))"

section \<open>The tables\<close>

record rdb_index =
  rx_type :: u32
  rx_items :: "bytes \<Rightarrow> data_item option"

record rdb_table =
  rt_primary :: "bytes \<Rightarrow> data_item option"
  rt_secondary :: "bytes \<Rightarrow> rdb_index option"

type_synonym rdb = "bytes \<Rightarrow> rdb_table option"

definition Table_new :: rdb_table where
  "Table_new = \<lparr>rt_primary = Map.empty, rt_secondary = Map.empty\<rparr>"

definition CreateTable :: "rdb \<Rightarrow> bytes \<Rightarrow> bool \<times> rdb" where
  "CreateTable db tn = (if db tn \<noteq> None then (False, db) else (True, db(tn \<mapsto> Table_new)))"

definition CreateSecondaryIndex :: "rdb_table \<Rightarrow> bytes \<Rightarrow> u32 \<Rightarrow> bool \<times> rdb_table" where
  "CreateSecondaryIndex t index_name index_type =
     (if rt_secondary t index_name \<noteq> None then (False, t)
      else (True, t\<lparr>rt_secondary := (rt_secondary t)(index_name \<mapsto> \<lparr>rx_type = index_type, rx_items = Map.empty\<rparr>)\<rparr>))"

definition GetOrCreateSecondaryIndex :: "rdb_table \<Rightarrow> bytes \<Rightarrow> u32 \<Rightarrow> bool \<times> rdb_index \<times> rdb_table" where
  "GetOrCreateSecondaryIndex t index_name index_type =
     (case rt_secondary t index_name of
        Some ix \<Rightarrow> (False, ix, t)
      | None \<Rightarrow>
          (let ix = \<lparr>rx_type = index_type, rx_items = Map.empty\<rparr>
           in (True, ix, t\<lparr>rt_secondary := (rt_secondary t)(index_name \<mapsto> ix)\<rparr>)))"

text \<open>\<open>Put\<close> of an index: the tree index replaces an item, the hash index keeps the one it has.\<close>

definition index_Put :: "bool \<Rightarrow> (bytes \<Rightarrow> data_item option) \<Rightarrow> bytes \<Rightarrow> data_item \<Rightarrow> bytes \<Rightarrow> data_item option" where
  "index_Put overwrites m k d = (if overwrites \<or> m k = None then m(k \<mapsto> d) else m)"

section \<open>The replay\<close>

definition entry_live :: "snapshot \<Rightarrow> bool" where
  "entry_live s =
     (if sn_index_name s = [] then IsPrimaryInitialized (sn_data_item_copy s) else IsInitialized (sn_data_item_copy s))"

definition restore :: "bool \<Rightarrow> rdb_table \<Rightarrow> snapshot \<Rightarrow> rdb_table" where
  "restore overwrites t s =
     (if sn_index_name s = []
      then t\<lparr>rt_primary := index_Put overwrites (rt_primary t) (sn_key s) (sn_data_item_copy s)\<rparr>
      else case GetOrCreateSecondaryIndex t (sn_index_name s) (sn_index_type s) of
             (_, ix, t') \<Rightarrow>
               t'\<lparr>rt_secondary := (rt_secondary t')(sn_index_name s \<mapsto>
                    ix\<lparr>rx_items := index_Put overwrites (rx_items ix) (sn_key s) (sn_data_item_copy s)\<rparr>)\<rparr>)"

definition replay_entry :: "bool \<Rightarrow> snapshot \<Rightarrow> rdb \<times> epoch_number \<Rightarrow> rdb \<times> epoch_number" where
  "replay_entry overwrites s st =
     (case st of (db, highest_epoch) \<Rightarrow>
        if \<not> entry_live s then (db, highest_epoch)
        else let db' = snd (CreateTable db (sn_table_name s))
             in case db' (sn_table_name s) of
                  None \<Rightarrow> (db', highest_epoch)
                | Some t \<Rightarrow>
                    (db'(sn_table_name s \<mapsto> restore overwrites t s),
                     max highest_epoch (tid_epoch (di_transaction_id (sn_data_item_copy s)))))"

text \<open>The outcome of a start: the process exits, or runs on tables and an epoch.\<close>

datatype startup = Refused | Started rdb epoch_number

definition Recovery :: "bool \<Rightarrow> rdb \<Rightarrow> RecoveryResult \<Rightarrow> startup" where
  "Recovery overwrites db r =
     (case r of
        RecoveryOk frontier recovery_set \<Rightarrow>
          (case fold (replay_entry overwrites) recovery_set (db, max 1 frontier) of
             (db', highest_epoch) \<Rightarrow>
               (case ResumeEpochAbove highest_epoch of None \<Rightarrow> Refused | Some e \<Rightarrow> Started db' e))
      | RecoveryFailed _ \<Rightarrow> Refused
      | RecoveryThrew _ \<Rightarrow> Refused)"

text \<open>The part of the constructor that reads the log, with or without a replay. The first epoch of an empty log is 1.\<close>

definition Database_start :: "bool \<Rightarrow> bool \<Rightarrow> rdb \<Rightarrow> RecoveryResult \<Rightarrow> startup" where
  "Database_start enable_recovery overwrites db r =
     (if enable_recovery then Recovery overwrites db r
      else case r of
             RecoveryOk frontier _ \<Rightarrow>
               if frontier \<noteq> 0
               then (case ResumeEpochAbove frontier of None \<Rightarrow> Refused | Some e \<Rightarrow> Started db e)
               else Started db 1
           | RecoveryFailed _ \<Rightarrow> Refused
           | RecoveryThrew _ \<Rightarrow> Refused)"

section \<open>Scanning a file that holds a log\<close>

definition holds_log :: "(LogRecords \<Rightarrow> bytes) \<Rightarrow> wal \<Rightarrow> bucket list \<Rightarrow> bool" where
  "holds_log pack w bs \<longleftrightarrow> log_ok pack bs \<and> (\<exists>n. w_file w = encode_log pack bs @ replicate n 0) \<and> w_state w \<noteq> Failed \<and>
     w_initialised_size w = length (w_file w) \<and> length (w_file w) \<le> off_t_max \<and> w_initial_capacity_bytes w < 2 ^ 64"

lemma wal_log_holds: "wal_log pack w bs \<Longrightarrow> holds_log pack w bs"
  using wal_log_file [of pack w bs] unfolding holds_log_def wal_log_def by auto

definition log_records :: "epoch_number \<Rightarrow> bucket list \<Rightarrow> LogRecords" where
  "log_records m bs = concat (map snd (filter (\<lambda>b. \<not> fst b \<le> m) bs))"

lemma scan_holds_log:
  assumes h: "holds_log pack w bs" and mp: "msgpack_inverts pack unpack bs" and sc: "ScanAndRepair unpack w m = (res, w')"
  shows "sr_status res = ScanIoError \<or>
    (sr_status res = ScanOk \<and> sr_records res = log_records m bs \<and> sr_frontier res = log_frontier bs \<and> wal_log pack w' bs)"
proof (cases "sr_status res = ScanIoError")
  case False
  obtain n where n: "w_file w = encode_log pack bs @ replicate n 0" using h by (auto simp: holds_log_def)
  have o: "log_ok pack bs" "w_state w \<noteq> Failed" "w_initialised_size w = length (w_file w)" "length (w_file w) \<le> off_t_max"
      "w_initial_capacity_bytes w < 2 ^ 64" using h by (auto simp: holds_log_def)
  have same: "w\<lparr>w_initialised_size := max (w_initialised_size w) (length (w_file w))\<rparr> = w"
    using o by simp
  obtain r where r: "ScanAndRepair unpack (fault_free w) m = FinishScan (fault_free w) r (length (encode_log pack bs))"
      "sr_status r = ScanOk" "sr_records r = log_records m bs" "sr_frontier r = log_frontier bs"
    using scan_log_result [OF n o(1) mp o(2), of m] unfolding same log_records_def by auto
  have "FinishScan (fault_free w) r (length (encode_log pack bs)) = (res, fault_free w')"
    using ScanAndRepair_transparent [OF sc] False r by simp
  then have "res = r \<and> wal_log pack (fault_free w') bs"
    using FinishScan_log [of "fault_free w" pack bs n r res "fault_free w'"] n o r False by simp
  then show ?thesis using r by simp
qed simp

section \<open>What recovery uses\<close>

lemma log_records_0: "log_ok pack bs \<Longrightarrow> log_records 0 bs = concat (map snd bs)"
proof -
  assume "log_ok pack bs"
  then have "filter (\<lambda>b. \<not> fst b \<le> 0) bs = bs"
    by (auto simp: log_ok_def bucket_ok_def list_all_iff filter_id_conv)
  then show ?thesis by (simp add: log_records_def)
qed

lemma recover_image_cases:
  "let image = recover_image unpack alloc replays io d
   in im_status image = ImageOk \<and> replays \<and> image = Load unpack alloc io d \<or>
      im_status image \<noteq> ImageOk \<and> im_records image = [] \<and> im_cut_epoch image = 0"
  by (auto simp: recover_image_def Load_def image_default_def unusable_def Let_def split: option.splits prod.splits sum.splits)

text \<open>A recovery that succeeds has folded the whole log, or a loaded image whose log was no more durable than this one
  and the part of the log above its cut.\<close>

lemma Recover_sources:
  assumes h: "holds_log pack w bs" and mp: "msgpack_inverts pack unpack bs"
    and R: "Recover unpack alloc replays io d w = (RecoveryOk frontier ws, w')"
  shows "frontier = log_frontier bs \<and> wal_log pack w' bs \<and>
    (BuildRecoverySet [] (log_records 0 bs) = Inr ws \<or>
     (let image = Load unpack alloc io d
      in replays \<and> im_status image = ImageOk \<and> im_wal_frontier_at_publish image \<le> log_frontier bs \<and>
         BuildRecoverySet (im_records image) (log_records (im_cut_epoch image) bs) = Inr ws))"
proof -
  define image where "image = recover_image unpack alloc replays io d"
  obtain scan w1 where s: "ScanAndRepair unpack w (im_cut_epoch image) = (scan, w1)" by force
  have ok: "sr_status scan = ScanOk"
    using R s by (auto simp: Recover_def scan_failure_def image_def Let_def split: if_splits)
  have 1: "sr_records scan = log_records (im_cut_epoch image) bs" "sr_frontier scan = log_frontier bs" "wal_log pack w1 bs"
    using scan_holds_log [OF h mp s] ok by auto
  show ?thesis
  proof (cases "im_status image = ImageOk \<and> sr_frontier scan < im_wal_frontier_at_publish image")
    case True
    obtain scan2 w2 where s2: "ScanAndRepair unpack w1 0 = (scan2, w2)" by force
    have "sr_status scan2 = ScanOk" "recovered [] scan2 = RecoveryOk frontier ws" "w' = w2"
      using R s s2 ok True by (auto simp: Recover_def scan_failure_def image_def [symmetric] Let_def split: if_splits)
    then show ?thesis
      using scan_holds_log [OF wal_log_holds [OF 1(3)] mp s2] by (auto simp: recovered_def split: sum.splits)
  next
    case False
    have "recovered (im_records image) scan = RecoveryOk frontier ws" "w' = w1"
      using R s ok False by (auto simp: Recover_def image_def [symmetric] Let_def split: if_splits)
    then have b: "BuildRecoverySet (im_records image) (log_records (im_cut_epoch image) bs) = Inr ws" "frontier = log_frontier bs"
      using 1 by (auto simp: recovered_def split: sum.splits)
    show ?thesis
      using recover_image_cases [of unpack alloc replays io d, folded image_def] b 1 False \<open>w' = w1\<close>
      by (auto simp: Let_def)
  qed
qed

section \<open>What the replay makes of a recovery set\<close>

definition db_item :: "rdb \<Rightarrow> bytes \<times> bytes \<Rightarrow> data_item option" where
  "db_item db loc = (case db (fst loc) of None \<Rightarrow> None | Some t \<Rightarrow> rt_primary t (snd loc))"

definition db_row :: "rdb \<Rightarrow> bytes \<times> bytes \<Rightarrow> bytes option" where
  "db_row db loc = map_option (\<lambda>d. toString (di_buffer d)) (db_item db loc)"

definition restores :: "bytes \<times> bytes \<Rightarrow> snapshot \<Rightarrow> bool" where
  "restores loc s \<longleftrightarrow> sn_index_name s = [] \<and> entry_live s \<and> row_location s = loc"

lemma replay_entry_item:
  "db_item (fst (replay_entry overwrites s (db, h))) loc =
     (if restores loc s \<and> (overwrites \<or> db_item db loc = None) then Some (sn_data_item_copy s) else db_item db loc)"
  by (cases loc) (auto simp: replay_entry_def db_item_def restores_def CreateTable_def restore_def index_Put_def row_location_def
      GetOrCreateSecondaryIndex_def Table_new_def Let_def split: option.splits)

lemma replay_unchanged:
  "\<forall>s\<in>set ws. \<not> restores loc s \<Longrightarrow> db_item (fst (fold (replay_entry overwrites) ws st)) loc = db_item (fst st) loc"
proof (induction ws arbitrary: st)
  case (Cons s ws)
  then show ?case using replay_entry_item [of overwrites s "fst st" "snd st" loc] by simp
qed simp

lemma replay_item:
  assumes "filter (restores loc) ws = (case found of None \<Rightarrow> [] | Some s \<Rightarrow> [s])" "db_item db loc = None"
  shows "db_item (fst (fold (replay_entry overwrites) ws (db, h))) loc = map_option sn_data_item_copy found"
proof (cases found)
  case None
  then show ?thesis using assms replay_unchanged [of ws loc overwrites "(db, h)"] by (simp add: filter_empty_conv)
next
  case (Some s)
  then obtain us vs where ws: "ws = us @ s # vs" "\<forall>u\<in>set us. \<not> restores loc u" "restores loc s" "filter (restores loc) vs = []"
    using assms(1) by (auto simp: filter_eq_Cons_iff)
  obtain db1 h1 where u: "fold (replay_entry overwrites) us (db, h) = (db1, h1)" by force
  have "db_item db1 loc = None" using replay_unchanged [OF ws(2), of overwrites "(db, h)"] u assms(2) by simp
  then have "db_item (fst (replay_entry overwrites s (db1, h1))) loc = Some (sn_data_item_copy s)"
    using ws(3) by (simp add: replay_entry_item)
  then show ?thesis
    using replay_unchanged [of vs loc overwrites "replay_entry overwrites s (db1, h1)"] ws u Some by (simp add: filter_empty_conv)
qed

text \<open>The epochs that the replay has seen.\<close>

lemma replay_epochs:
  "(h \<le> snd (fold (replay_entry overwrites) ws (db, h))) \<and>
   (\<forall>s\<in>set ws. entry_live s \<longrightarrow> tid_epoch (di_transaction_id (sn_data_item_copy s)) \<le> snd (fold (replay_entry overwrites) ws (db, h)))"
proof (induction ws arbitrary: db h)
  case (Cons s ws)
  obtain db1 h1 where u: "replay_entry overwrites s (db, h) = (db1, h1)" by force
  have "h \<le> h1 \<and> (entry_live s \<longrightarrow> tid_epoch (di_transaction_id (sn_data_item_copy s)) \<le> h1)"
    using u by (auto simp: replay_entry_def CreateTable_def Let_def split: if_splits option.splits)
  then show ?case using Cons.IH [of h1 db1] u by (auto intro: order_trans)
qed simp

lemma ResumeEpochAbove_greater:
  assumes "ResumeEpochAbove f = Some e"
  shows "f < e"
proof -
  have f: "f < kEpochHighWater - 1" "e = f + 1" using assms by (auto simp: ResumeEpochAbove_def split: if_splits)
  have "f < kEpochHighWater" using f(1) by (rule less_trans) (simp add: high_water_simps)
  then show ?thesis using epoch_succ(2) f(2) by simp
qed

definition table_items :: "rdb_table \<Rightarrow> data_item set" where
  "table_items t = ran (rt_primary t) \<union> (\<Union>ix\<in>ran (rt_secondary t). ran (rx_items ix))"

definition db_items :: "rdb \<Rightarrow> data_item set" where
  "db_items db = (\<Union>t\<in>ran db. table_items t)"

lemma ran_index_Put: "ran (index_Put overwrites m k d) \<subseteq> insert d (ran m)"
  by (auto simp: index_Put_def ran_def split: if_splits)

lemma table_items_restore: "table_items (restore overwrites t s) \<subseteq> insert (sn_data_item_copy s) (table_items t)"
proof (cases "sn_index_name s = []")
  case True
  then show ?thesis using ran_index_Put [of overwrites "rt_primary t" "sn_key s" "sn_data_item_copy s"]
    by (auto simp: table_items_def restore_def)
next
  case False
  obtain b ix t' where g: "GetOrCreateSecondaryIndex t (sn_index_name s) (sn_index_type s) = (b, ix, t')" using prod_cases3 by blast
  have t': "rt_primary t' = rt_primary t" "ran (rx_items ix) \<subseteq> table_items t" "(\<Union>ix\<in>ran (rt_secondary t'). ran (rx_items ix)) \<subseteq> table_items t"
    using g by (auto simp: GetOrCreateSecondaryIndex_def Let_def table_items_def ran_def split: option.splits if_splits) blast+
  have "ran ((rt_secondary t')(sn_index_name s \<mapsto> ix')) \<subseteq> insert ix' (ran (rt_secondary t'))" for ix'
    by (auto simp: ran_def)
  then show ?thesis
    using False g t' ran_index_Put [of overwrites "rx_items ix" "sn_key s" "sn_data_item_copy s"]
    by (fastforce simp: restore_def table_items_def)
qed

lemma db_items_update: "db_items (m(k \<mapsto> t)) \<subseteq> db_items m \<union> table_items t"
  by (auto simp: db_items_def ran_def split: if_splits)

lemma replay_entry_items:
  "db_items (fst (replay_entry overwrites s (db, h))) \<subseteq> db_items db \<union> (if entry_live s then {sn_data_item_copy s} else {})"
proof (cases "entry_live s")
  case True
  obtain t where t: "snd (CreateTable db (sn_table_name s)) (sn_table_name s) = Some t"
    by (cases "db (sn_table_name s)") (auto simp: CreateTable_def)
  have c: "db_items (snd (CreateTable db (sn_table_name s))) \<subseteq> db_items db"
    by (auto simp: CreateTable_def db_items_def ran_def Table_new_def table_items_def split: if_splits)
  have "table_items t \<subseteq> db_items (snd (CreateTable db (sn_table_name s)))" using t by (auto simp: db_items_def intro: ranI)
  then have "db_items ((snd (CreateTable db (sn_table_name s)))(sn_table_name s \<mapsto> restore overwrites t s))
      \<subseteq> db_items db \<union> {sn_data_item_copy s}"
    using c db_items_update [of "snd (CreateTable db (sn_table_name s))" "sn_table_name s" "restore overwrites t s"]
      table_items_restore [of overwrites t s] by auto
  then show ?thesis using True t by (simp add: replay_entry_def Let_def)
qed (simp add: replay_entry_def)

lemma replay_items:
  "db_items (fst (fold (replay_entry overwrites) ws (db, h))) \<subseteq> db_items db \<union> sn_data_item_copy ` {s \<in> set ws. entry_live s}"
proof (induction ws arbitrary: db h)
  case (Cons s ws)
  obtain db1 h1 where u: "replay_entry overwrites s (db, h) = (db1, h1)" by force
  show ?case using Cons.IH [of db1 h1] replay_entry_items [of overwrites s db h] u by (auto split: if_splits)
qed simp

text \<open>A recovery set restores at most one row at a location, the one that is live there.\<close>

lemma group_snapshots_blank: "group_snapshots es = Inr ss \<Longrightarrow> \<forall>s\<in>set ss. hb_size (di_buffer (sn_data_item_copy s)) = 0"
proof (induction es arbitrary: ss)
  case (Cons e es)
  then show ?case
    by (auto simp: group_snapshot_def DataItem_Reset_def heap_Reset_def Let_def split: if_splits sum.splits prod.splits)
qed simp

lemma filter_at_most_one:
  "distinct (map f xs) \<Longrightarrow> (\<And>x. x \<in> set xs \<Longrightarrow> P x \<Longrightarrow> f x = y) \<Longrightarrow> filter P xs = [] \<or> (\<exists>x\<in>set xs. P x \<and> filter P xs = [x])"
proof (induction xs)
  case (Cons x xs)
  show ?case
  proof (cases "P x")
    case True
    have "\<not> P z" if z: "z \<in> set xs" for z
    proof
      assume "P z"
      then have "f z = f x" using Cons.prems(2) [of z] Cons.prems(2) [of x] True z by simp
      then show False using Cons.prems(1) imageI [OF z, of f] by simp
    qed
    then show ?thesis using True by (auto simp: filter_empty_conv)
  qed (use Cons in auto)
qed simp

lemma recovery_set_restores:
  assumes "BuildRecoverySet im log_tail = Inr ws"
  shows "\<exists>found. filter (restores loc) ws = (case found of None \<Rightarrow> [] | Some s \<Rightarrow> [s]) \<and>
    map_option (\<lambda>s. toString (di_buffer (sn_data_item_copy s))) found = logged_row (kvps_of im @ kvps_of log_tail) loc"
proof -
  let ?kvs = "kvps_of im @ kvps_of log_tail"
  obtain rows entries grouped where ws: "ws = rows @ entries" "primary_recovers ?kvs rows" "group_snapshots grouped = Inr entries"
    using fold_kvps_primary [of ?kvs] assms unfolding BuildRecoverySet_def Let_def by (auto split: sum.splits)
  have e: "filter (restores loc) entries = []"
    using group_snapshots_blank [OF ws(3)] by (auto simp: filter_empty_conv restores_def entry_live_def IsPrimaryInitialized_def)
  have rr: "row_recovers ?kvs s" if "s \<in> set rows" for s
    using ws(2) that by (simp add: primary_recovers_def list_all_iff)
  have val: "logged_row ?kvs (row_location s) =
      (if entry_live s then Some (toString (di_buffer (sn_data_item_copy s))) else None)" if "s \<in> set rows" for s
    using rr [OF that] length_toString [of "di_buffer (sn_data_item_copy s)"]
    by (auto simp: row_recovers_def logged_row_def entry_live_def IsPrimaryInitialized_def)
  consider "filter (restores loc) rows = []" | s where "s \<in> set rows" "restores loc s" "filter (restores loc) rows = [s]"
    using filter_at_most_one [of row_location rows "restores loc" loc] ws(2) by (auto simp: primary_recovers_def restores_def)
  then show ?thesis
  proof cases
    case 1
    have "logged_row ?kvs loc = None"
    proof (cases "loc \<in> set (map row_location rows)")
      case True
      then obtain s where "s \<in> set rows" "row_location s = loc" by auto
      then show ?thesis using 1 val [of s] rr [of s] by (auto simp: filter_empty_conv restores_def row_recovers_def)
    next
      case False
      then have "versions_at ?kvs loc = []"
        using ws(2) unfolding primary_recovers_def versions_at_def filter_empty_conv by auto
      then show ?thesis by (simp add: logged_row_def)
    qed
    then show ?thesis using 1 e ws(1) by (intro exI [of _ None]) simp
  next
    case (2 s)
    then show ?thesis using val [of s] e ws(1) by (intro exI [of _ "Some s"]) (simp add: restores_def)
  qed
qed

definition covered_records :: "epoch_number \<Rightarrow> bucket list \<Rightarrow> LogRecords" where
  "covered_records m bs = concat (map snd (filter (\<lambda>b. fst b \<le> m) bs))"

lemma split_log:
  assumes "log_ok pack bs"
  shows "concat (map snd bs) = covered_records m bs @ log_records m bs"
proof -
  have "sorted (map fst bs)" using assms by (simp add: log_ok_def)
  then have "bs = filter (\<lambda>b. fst b \<le> m) bs @ filter (\<lambda>b. \<not> fst b \<le> m) bs"
  proof (induction bs)
    case (Cons b bs)
    show ?case
    proof (cases "fst b \<le> m")
      case False
      then have "\<forall>c\<in>set bs. \<not> fst c \<le> m" using Cons.prems by auto
      then show ?thesis using False by (simp add: filter_id_conv filter_empty_conv)
    qed (use Cons in auto)
  qed simp
  then show ?thesis unfolding covered_records_def log_records_def by (metis concat_append map_append)
qed

lemma Recovery_restores:
  assumes "holds_log pack w bs" "msgpack_inverts pack unpack bs"
    and "Recover unpack alloc True io d w = (r, w')" "Recovery overwrites db0 r = Started db e"
    and "\<forall>tn t. db0 tn = Some t \<longrightarrow> t = Table_new"
    and "let image = Load unpack alloc io d in im_status image = ImageOk \<longrightarrow>
      image_covers (kvps_of (im_records image)) (kvps_of (covered_records (im_cut_epoch image) bs))
        (kvps_of (log_records (im_cut_epoch image) bs))"
    and "ids_unique (kvps_of (concat (map snd bs)))"
  shows "wal_log pack w' bs \<and> (\<forall>loc. db_row db loc = logged_row (kvps_of (concat (map snd bs))) loc) \<and>
    log_frontier bs < e \<and> (\<forall>i\<in>db_items db. tid_epoch (di_transaction_id i) < e)"
proof -
  obtain frontier ws h where r: "r = RecoveryOk frontier ws"
      "fold (replay_entry overwrites) ws (db0, max 1 frontier) = (db, h)" "ResumeEpochAbove h = Some e"
    using assms(4) by (auto simp: Recovery_def split: RecoveryResult.splits prod.splits option.splits)
  have lo: "log_ok pack bs" using assms(1) by (simp add: holds_log_def)
  let ?all = "kvps_of (concat (map snd bs))" and ?image = "Load unpack alloc io d"
  have src: "frontier = log_frontier bs" "wal_log pack w' bs"
      "BuildRecoverySet [] (log_records 0 bs) = Inr ws \<or> im_status ?image = ImageOk \<and>
         BuildRecoverySet (im_records ?image) (log_records (im_cut_epoch ?image) bs) = Inr ws"
    using Recover_sources [OF assms(1,2) assms(3) [unfolded r(1)]] by (auto simp: Let_def)
  have row: "\<exists>found. filter (restores loc) ws = (case found of None \<Rightarrow> [] | Some s \<Rightarrow> [s]) \<and>
      map_option (\<lambda>s. toString (di_buffer (sn_data_item_copy s))) found = logged_row ?all loc" for loc
    using src(3)
  proof
    assume b: "BuildRecoverySet [] (log_records 0 bs) = Inr ws"
    have "kvps_of [] @ kvps_of (log_records 0 bs) = ?all" by (simp add: kvps_of_def log_records_0 [OF lo])
    then show ?thesis using recovery_set_restores [OF b, of loc] by simp
  next
    let ?old = "kvps_of (covered_records (im_cut_epoch ?image) bs)" and ?new = "kvps_of (log_records (im_cut_epoch ?image) bs)"
    assume b: "im_status ?image = ImageOk \<and> BuildRecoverySet (im_records ?image) (log_records (im_cut_epoch ?image) bs) = Inr ws"
    have all: "?all = ?old @ ?new" by (simp add: split_log [OF lo, of "im_cut_epoch ?image"] kvps_of_def)
    have "logged_row (kvps_of (im_records ?image) @ ?new) loc = logged_row ?all loc"
      using image_covers_row [of "kvps_of (im_records ?image)" ?old ?new] assms(6,7) b unfolding all by (simp add: Let_def)
    then show ?thesis using recovery_set_restores [OF conjunct2 [OF b], of loc] by simp
  qed
  have new: "rt_primary t k = None \<and> rt_secondary t k = None" if "db0 tn = Some t" for tn t k
    using assms(5) [rule_format, OF that] by (simp add: Table_new_def)
  have none: "db_item db0 loc = None" for loc using new by (simp add: db_item_def split: option.splits)
  have rows: "db_row db loc = logged_row ?all loc" for loc
  proof -
    obtain found where f: "filter (restores loc) ws = (case found of None \<Rightarrow> [] | Some s \<Rightarrow> [s])"
        "map_option (\<lambda>s. toString (di_buffer (sn_data_item_copy s))) found = logged_row ?all loc"
      using row [of loc] by blast
    show ?thesis
      using replay_item [OF f(1) none, of overwrites "max 1 frontier"] f(2) r(2) by (simp add: db_row_def option.map_comp comp_def)
  qed
  have ep: "max 1 frontier \<le> h" "\<forall>s\<in>set ws. entry_live s \<longrightarrow> tid_epoch (di_transaction_id (sn_data_item_copy s)) \<le> h"
    using replay_epochs [of "max 1 frontier" overwrites ws db0] r(2) by auto
  have "db_items db0 = {}" using new by (auto simp: db_items_def table_items_def ran_def)
  then have "\<forall>i\<in>db_items db. tid_epoch (di_transaction_id i) \<le> h"
    using replay_items [of overwrites ws db0 "max 1 frontier"] ep(2) r(2) by auto
  then show ?thesis
    using rows src(1,2) ep(1) ResumeEpochAbove_greater [OF r(3)] by (auto intro: le_less_trans)
qed

text \<open>C6. A restart brings back what the log holds. Let a file hold a log, opened and not yet scanned or scanned before.
  If the database starts, the log is as it was and the epoch that the database resumes at is above it. If it replays and the
  checkpoint image, when there is one, covers the part of the log up to its cut, then the tables hold, at every key, exactly
  the row of the newest logged version, none after a deletion, and the versions of all restored items are below the epoch.\<close>

theorem restart_restores_logged_rows:
  assumes "holds_log pack w bs" "msgpack_inverts pack unpack bs"
    and "Recover unpack alloc replays io d w = (r, w')" "Database_start replays overwrites db0 r = Started db e"
    and "\<forall>tn t. db0 tn = Some t \<longrightarrow> t = Table_new"
    and "let image = Load unpack alloc io d in im_status image = ImageOk \<longrightarrow>
      image_covers (kvps_of (im_records image)) (kvps_of (covered_records (im_cut_epoch image) bs))
        (kvps_of (log_records (im_cut_epoch image) bs))"
    and "ids_unique (kvps_of (concat (map snd bs)))"
  shows "wal_log pack w' bs \<and> log_frontier bs < e \<and>
    (replays \<longrightarrow> (\<forall>loc. db_row db loc = logged_row (kvps_of (concat (map snd bs))) loc) \<and>
       (\<forall>i\<in>db_items db. tid_epoch (di_transaction_id i) < e))"
proof (cases replays)
  case True
  then show ?thesis
    using Recovery_restores [OF assms(1,2) _ _ assms(5-7)] assms(3,4) by (simp add: Database_start_def)
next
  case False
  then obtain frontier ws where r: "r = RecoveryOk frontier ws"
    using assms(4) by (auto simp: Database_start_def split: RecoveryResult.splits)
  have "frontier = log_frontier bs" "wal_log pack w' bs"
    using Recover_sources [OF assms(1,2) assms(3) [unfolded r]] by auto
  then show ?thesis
    using assms(4) r False ResumeEpochAbove_greater [of frontier e]
    by (auto simp: Database_start_def split: if_splits option.splits)
qed

definition example_row :: KeyValuePair where
  "example_row = \<lparr>kv_key = [1], kv_buffer = [9], kv_tid = TransactionId 1 2, kv_table_name = [7], kv_index_name = [],
     kv_index_type = 0, kv_primary_keys = [], kv_secondary_op = 0, kv_secondary_primary_key = []\<rparr>"

definition example_log :: "bucket list" where
  "example_log = [(1, [\<lparr>lr_epoch = 1, lr_key_value_pairs = [example_row]\<rparr>])]"

theorem restart_restores_logged_rows_witness:
  "\<exists>w r w' db e. holds_log (\<lambda>_. [7]) w example_log \<and>
     Recover (\<lambda>_. Some (snd (hd example_log), 1)) (\<lambda>_. True) True clean_image_io \<lparr>id_image = None, id_working = None\<rparr> w = (r, w') \<and>
     Database_start True True Map.empty r = Started db e \<and> db_row db ([7], [1]) = Some [9] \<and> 1 < e"
proof -
  let ?pack = "\<lambda>_ :: LogRecords. [7 :: byte]" and ?unpack = "\<lambda>_ :: bytes. Some (snd (hd example_log), 1 :: nat)"
  let ?d = "\<lparr>id_image = None, id_working = None\<rparr>"
  obtain w where o: "Wal_open [] clean_io (Some (encode_log ?pack example_log)) 0 = Inr w" "w_io w = clean_io"
    by (simp add: Wal_open_clean)
  then have w: "w_file w = encode_log ?pack example_log @ replicate 0 0" "w_state w = Unscanned"
      "w_initial_capacity_bytes w = 0" "w_io w = clean_io" "w_initialised_size w = length (w_file w)"
    using Wal_open_fields [OF o(1)] by auto
  have ok: "log_ok ?pack example_log" "msgpack_inverts ?pack ?unpack example_log"
    by (simp_all add: example_log_def log_ok_def bucket_ok_def msgpack_inverts_def kMaxPayloadSize_def)
  have h: "holds_log ?pack w example_log"
    unfolding holds_log_def using w ok(1) by (auto simp: example_log_def kHeaderSize_def off_t_max_def)
  have kv: "kvps_of (concat (map snd example_log)) = [example_row]" by (simp add: example_log_def kvps_of_def)
  have lf: "log_frontier example_log = 1" by (simp add: log_frontier_def example_log_def)
  obtain scan w' where sc: "ScanAndRepair ?unpack w 0 = (scan, w')" by force
  have "sr_status scan = ScanOk" using scan_log_clean [OF w(1) ok _ w(3,4), of 0] w(2) sc by simp
  then have scan: "sr_status scan = ScanOk" "sr_records scan = concat (map snd example_log)" "sr_frontier scan = 1"
    using scan_holds_log [OF h ok(2) sc] log_records_0 [OF ok(1)] lf by auto
  let ?s = "Snapshot [1] (Some [9]) None [7] [] (TransactionId 1 2) 0"
  have b: "BuildRecoverySet [] (concat (map snd example_log)) = Inr [?s]"
    unfolding BuildRecoverySet_def kv
    by (simp add: kvps_of_def fold_kvp_def example_row_def is_secondary_index_def SecondaryIndexOp_code_def fold_primary_def
        recovery_fold_start_def)
  have R: "Recover ?unpack (\<lambda>_. True) True clean_image_io ?d w = (RecoveryOk 1 [?s], w')"
    using sc scan b by (simp add: Recover_def recover_image_def Load_def image_default_def recovered_def)
  have live: "entry_live ?s"
    by (simp add: Snapshot_def entry_live_def IsPrimaryInitialized_def DataItem_Reset_def heap_Reset_def DataItem_default_def
        heap_empty_def Let_def)
  have S: "\<exists>db e. Recovery True Map.empty (RecoveryOk 1 [?s]) = Started db e"
    using live
    by (simp add: Recovery_def replay_entry_def CreateTable_def Let_def ResumeEpochAbove_def high_water_simps Snapshot_def word_le_nat_alt
        DataItem_Reset_def IsEmpty_def)
  then obtain db e where st: "Recovery True Map.empty (RecoveryOk 1 [?s]) = Started db e" by blast
  have "ids_unique [example_row]" by (auto simp: ids_unique_def versions_at_def primary_kvps_def split: if_splits)
  then have t: "db_row db ([7], [1]) = logged_row [example_row] ([7], [1]) \<and> log_frontier example_log < e"
    using restart_restores_logged_rows [OF h ok(2) R, of True Map.empty db e] st unfolding kv
    by (simp add: Load_def image_default_def Database_start_def)
  moreover have "logged_row [example_row] ([7], [1]) = Some [9]"
    by (simp add: logged_row_def versions_at_def primary_kvps_def is_secondary_index_def SecondaryIndexOp_code_def
        kvp_location_def newest_def example_row_def)
  ultimately show ?thesis using h R st by (auto simp: log_frontier_def example_log_def Database_start_def)
qed

end
