(* ===== verification/TransactionSets.thy ===== *)
theory TransactionSets
  imports DataItems
begin

text \<open>
  The read and write sets of \<open>Transaction::Impl\<close> (\<^verbatim>\<open>src/transaction_impl.cpp\<close>) and \<open>FindInSet\<close>, which searches a
  small set from its beginning and a large one through positions under a hash of the location. The string hash is an
  argument: nothing is assumed of it.
\<close>

section \<open>Lookup\<close>

definition matches :: "bytes \<Rightarrow> bytes \<Rightarrow> bytes \<Rightarrow> snapshot \<Rightarrow> bool" where
  "matches tn idx k s \<longleftrightarrow> sn_key s = k \<and> sn_table_name s = tn \<and> sn_index_name s = idx"

definition kSetIndexThreshold :: nat where
  "kSetIndexThreshold = 64"

definition SetEntryHash :: "(bytes \<Rightarrow> u64) \<Rightarrow> bytes \<Rightarrow> bytes \<Rightarrow> bytes \<Rightarrow> u64" where
  "SetEntryHash hasher tn idx k =
     (let hash = hasher tn;
          hash = (hash XOR hasher idx) * 0x100000001b3
      in (hash XOR hasher k) * 0x100000001b3)"

text \<open>The positions, \<open>None\<close> until the set outgrows the threshold, as the pairs of the multimap, and how much of the set
  they cover.\<close>

record SetIndex =
  si_positions :: "(u64 \<times> nat) list option"
  si_indexed :: nat

definition SetIndex_empty :: SetIndex where
  "SetIndex_empty = \<lparr>si_positions = None, si_indexed = 0\<rparr>"

fun scan_set :: "(snapshot \<Rightarrow> bool) \<Rightarrow> snapshot list \<Rightarrow> nat \<Rightarrow> nat option" where
  "scan_set P [] n = None"
| "scan_set P (s # set_rest) n = (if P s then Some n else scan_set P set_rest (n + 1))"

definition refresh_index :: "(bytes \<Rightarrow> u64) \<Rightarrow> snapshot list \<Rightarrow> SetIndex \<Rightarrow> SetIndex" where
  "refresh_index hasher sset index =
     \<lparr>si_positions = Some ((case si_positions index of None \<Rightarrow> [] | Some ps \<Rightarrow> ps) @
        map (\<lambda>i. (SetEntryHash hasher (sn_table_name (sset ! i)) (sn_index_name (sset ! i)) (sn_key (sset ! i)), i))
          [si_indexed index..<length sset]),
      si_indexed = max (si_indexed index) (length sset)\<rparr>"

text \<open>The loop over the candidates of the hash, in any order; \<open>None\<close> is \<open>found_at = set.size()\<close>.\<close>

fun candidate_loop :: "(snapshot \<Rightarrow> bool) \<Rightarrow> snapshot list \<Rightarrow> nat option \<Rightarrow> nat list \<Rightarrow> nat option" where
  "candidate_loop P sset found [] = found"
| "candidate_loop P sset found (i # is) =
     (if (case found of None \<Rightarrow> i \<ge> length sset | Some f \<Rightarrow> i \<ge> f) then candidate_loop P sset found is
      else if \<not> P (sset ! i) then candidate_loop P sset found is
      else candidate_loop P sset (Some i) is)"

definition FindInSet ::
  "(bytes \<Rightarrow> u64) \<Rightarrow> snapshot list \<Rightarrow> SetIndex \<Rightarrow> bytes \<Rightarrow> bytes \<Rightarrow> bytes \<Rightarrow> nat option \<times> SetIndex" where
  "FindInSet hasher sset index tn idx k =
     (if length sset < kSetIndexThreshold then (scan_set (matches tn idx k) sset 0, index)
      else let index' = refresh_index hasher sset index
           in (candidate_loop (matches tn idx k) sset None
                 (map snd (filter (\<lambda>e. fst e = SetEntryHash hasher tn idx k) (the (si_positions index')))),
               index'))"

section \<open>The first entry of a location\<close>

definition find_in_set :: "snapshot list \<Rightarrow> bytes \<Rightarrow> bytes \<Rightarrow> bytes \<Rightarrow> nat option" where
  "find_in_set sset tn idx k = scan_set (matches tn idx k) sset 0"

lemma scan_set_Some:
  "scan_set P xs n = Some (n + m) \<longleftrightarrow> m < length xs \<and> P (xs ! m) \<and> (\<forall>j<m. \<not> P (xs ! j))"
proof (induction xs arbitrary: n m)
  case (Cons x xs)
  show ?case
  proof (cases m)
    case 0
    have "scan_set P xs (n + 1) \<noteq> Some n"
    proof -
      have "scan_set P xs l = Some r \<Longrightarrow> l \<le> r" for l r by (induction xs arbitrary: l) (auto split: if_splits dest: Suc_leD)
      then show ?thesis by fastforce
    qed
    then show ?thesis using 0 by simp
  next
    case (Suc k)
    have "(\<forall>j<m. \<not> P ((x # xs) ! j)) \<longleftrightarrow> \<not> P x \<and> (\<forall>j<k. \<not> P (xs ! j))"
      using Suc by (auto simp: less_Suc_eq_0_disj)
    then show ?thesis using Suc Cons.IH [of "n + 1" k] by simp
  qed
qed simp

lemma scan_set_None: "scan_set P xs n = None \<longleftrightarrow> (\<forall>x\<in>set xs. \<not> P x)"
  by (induction xs arbitrary: n) auto

lemma find_in_set_Some:
  "find_in_set sset tn idx k = Some m \<longleftrightarrow>
   m < length sset \<and> matches tn idx k (sset ! m) \<and> (\<forall>j<m. \<not> matches tn idx k (sset ! j))"
  using scan_set_Some [of "matches tn idx k" sset 0 m] by (simp add: find_in_set_def)

lemma find_in_set_None: "find_in_set sset tn idx k = None \<longleftrightarrow> (\<forall>s\<in>set sset. \<not> matches tn idx k s)"
  by (simp add: find_in_set_def scan_set_None)

text \<open>The positions cover a prefix of the set under the hashes of its entries.\<close>

definition index_ok :: "(bytes \<Rightarrow> u64) \<Rightarrow> snapshot list \<Rightarrow> SetIndex \<Rightarrow> bool" where
  "index_ok hasher sset index \<longleftrightarrow> si_indexed index \<le> length sset \<and>
     (case si_positions index of None \<Rightarrow> si_indexed index = 0 | Some ps \<Rightarrow>
        set ps = {(SetEntryHash hasher (sn_table_name (sset ! i)) (sn_index_name (sset ! i)) (sn_key (sset ! i)), i) | i.
                  i < si_indexed index})"

lemma index_ok_empty [simp]: "index_ok hasher sset SetIndex_empty"
  by (simp add: index_ok_def SetIndex_empty_def)

lemma index_ok_append: "index_ok hasher sset index \<Longrightarrow> index_ok hasher (sset @ later) index"
  unfolding index_ok_def by (auto simp: nth_append split: option.splits)

lemma refresh_index_ok:
  assumes "index_ok hasher sset index"
  shows "index_ok hasher sset (refresh_index hasher sset index)" "si_indexed (refresh_index hasher sset index) = length sset"
  using assms unfolding index_ok_def refresh_index_def by (auto split: option.splits)

lemma candidate_loop_None:
  "\<forall>i\<in>set is. i < length sset \<Longrightarrow>
   candidate_loop P sset found is = None \<longleftrightarrow> found = None \<and> (\<forall>i\<in>set is. \<not> P (sset ! i))"
  by (induction "is" arbitrary: found) (auto split: option.splits)

lemma candidate_loop_least:
  "\<forall>i\<in>set is. i < length sset \<Longrightarrow> candidate_loop P sset found is = Some m \<Longrightarrow>
   (found = Some m \<or> m \<in> set is \<and> P (sset ! m)) \<and> (\<forall>f. found = Some f \<longrightarrow> m \<le> f) \<and>
   (\<forall>i\<in>set is. P (sset ! i) \<longrightarrow> m \<le> i)"
proof (induction "is" arbitrary: found)
  case (Cons i "is")
  let ?found = "if (case found of None \<Rightarrow> i \<ge> length sset | Some f \<Rightarrow> i \<ge> f) \<or> \<not> P (sset ! i) then found else Some i"
  have "candidate_loop P sset ?found is = Some m" using Cons.prems(2) by (simp split: if_splits)
  then have ih: "(?found = Some m \<or> m \<in> set is \<and> P (sset ! m)) \<and> (\<forall>f. ?found = Some f \<longrightarrow> m \<le> f) \<and>
      (\<forall>i\<in>set is. P (sset ! i) \<longrightarrow> m \<le> i)"
    using Cons.IH Cons.prems(1) by simp
  then show ?case using Cons.prems(1) by (cases found) (auto split: if_splits)
qed simp

lemma FindInSet_find:
  assumes "index_ok hasher sset index"
  shows "fst (FindInSet hasher sset index tn idx k) = find_in_set sset tn idx k \<and>
    index_ok hasher sset (snd (FindInSet hasher sset index tn idx k))"
proof (cases "length sset < kSetIndexThreshold")
  case True
  then show ?thesis using assms by (simp add: FindInSet_def find_in_set_def)
next
  case False
  define index' where "index' = refresh_index hasher sset index"
  have ok: "index_ok hasher sset index'" "si_indexed index' = length sset"
    using refresh_index_ok [OF assms] by (auto simp: index'_def)
  obtain ps where ps: "si_positions index' = Some ps" by (simp add: index'_def refresh_index_def)
  let ?h = "SetEntryHash hasher tn idx k" and ?P = "matches tn idx k"
  let ?is = "map snd (filter (\<lambda>e. fst e = ?h) ps)"
  have mem: "i \<in> set ?is \<longleftrightarrow> i < length sset \<and>
      SetEntryHash hasher (sn_table_name (sset ! i)) (sn_index_name (sset ! i)) (sn_key (sset ! i)) = ?h" for i
    using ok ps by (force simp: index_ok_def)
  have C: "{i \<in> set ?is. ?P (sset ! i)} = {i. i < length sset \<and> ?P (sset ! i)}"
    using mem by (auto simp: matches_def)
  have lt: "\<forall>i\<in>set ?is. i < length sset" using mem by blast
  have "candidate_loop ?P sset None ?is = find_in_set sset tn idx k"
  proof (cases "candidate_loop ?P sset None ?is")
    case None
    then have "\<forall>i<length sset. \<not> ?P (sset ! i)" using candidate_loop_None [OF lt] C by blast
    then show ?thesis using None by (metis find_in_set_None in_set_conv_nth)
  next
    case (Some m)
    then have "m < length sset \<and> ?P (sset ! m)" "\<forall>i<length sset. ?P (sset ! i) \<longrightarrow> m \<le> i"
      using candidate_loop_least [OF lt Some] C by blast+
    then have "find_in_set sset tn idx k = Some m" unfolding find_in_set_Some by (meson leD less_trans)
    then show ?thesis using Some by simp
  qed
  then show ?thesis using False ok(1) ps by (simp add: FindInSet_def index'_def [symmetric] Let_def)
qed

text \<open>A set and its positions while a transaction runs: lookups, appended entries, entries changed in place without
  their location.\<close>

inductive set_run :: "(bytes \<Rightarrow> u64) \<Rightarrow> snapshot list \<Rightarrow> SetIndex \<Rightarrow> bool" for hasher where
  cleared: "set_run hasher [] SetIndex_empty"
| looked_up: "set_run hasher sset index \<Longrightarrow> set_run hasher sset (snd (FindInSet hasher sset index tn idx k))"
| appended: "set_run hasher sset index \<Longrightarrow> set_run hasher (sset @ [s]) index"
| changed: "set_run hasher sset index \<Longrightarrow> i < length sset \<Longrightarrow>
    matches (sn_table_name (sset ! i)) (sn_index_name (sset ! i)) (sn_key (sset ! i)) s \<Longrightarrow> set_run hasher (sset[i := s]) index"

lemma index_ok_update:
  "index_ok hasher sset index \<Longrightarrow> matches (sn_table_name (sset ! i)) (sn_index_name (sset ! i)) (sn_key (sset ! i)) s \<Longrightarrow>
   index_ok hasher (sset[i := s]) index"
proof -
  assume a: "index_ok hasher sset index" "matches (sn_table_name (sset ! i)) (sn_index_name (sset ! i)) (sn_key (sset ! i)) s"
  have "sn_table_name (sset[i := s] ! j) = sn_table_name (sset ! j)" "sn_index_name (sset[i := s] ! j) = sn_index_name (sset ! j)"
    "sn_key (sset[i := s] ! j) = sn_key (sset ! j)" for j
    using a(2) by (cases "i = j"; cases "i < length sset"; simp add: matches_def list_update_beyond)+
  then show ?thesis using a(1) unfolding index_ok_def by (auto split: option.splits)
qed

lemma set_run_ok: "set_run hasher sset index \<Longrightarrow> index_ok hasher sset index"
proof (induction rule: set_run.induct)
  case (looked_up sset index tn idx k)
  then show ?case using FindInSet_find by simp
qed (simp_all add: index_ok_append index_ok_update)


definition example_entry :: "byte \<Rightarrow> snapshot" where
  "example_entry b = Snapshot [b] None None [7] [] TransactionId_default 0"


end
