(* ===== verification/Spec2Isabelle.thy ===== *)
theory Spec2Isabelle
  imports WalRepair Durability RecoverySet CheckpointImage PlIndex SiloProgress StatelessChecks LogRecovery TransactionSets
begin

text \<open>
  A verification library for LineairDB, a transactional key-value store in C++.
\<close>

end
